(* ===== verification/Prelude.thy ===== *)
theory Prelude
  imports Main "HOL-Library.Char_ord" "HOL-Library.List_Lexorder" "HOL-Library.Word"
    "HOL-Library.Sublist"
begin

text \<open>
  Shared vocabulary of the development: the outcome type of a Rust function
  (\<open>Ok\<close>, \<open>Err\<close>, or a panic), the \<open>str\<close> operations of the standard library the
  sources use (a Rust string is its UTF-8 byte sequence, a HOL \<^typ>\<open>string\<close>),
  \<open>BTreeMap\<close> as an association list with strictly increasing keys, and the locales
  that state the interfaces the components share: an ordered map, a textual codec,
  and a transition system with an invariant.
\<close>

named_theorems outcome_simps \<open>rewriting of outcome combinators\<close>
named_theorems str_simps \<open>rewriting of string operations\<close>
named_theorems wf_intros \<open>introduction rules for well-formedness predicates\<close>


section \<open>Outcomes\<close>

text \<open>
  \<open>Result<T, E>\<close> together with the third way a Rust function can end: a panic
  (an \<open>unwrap\<close> of nothing, an index out of range, \<open>unreachable!\<close>).
\<close>

datatype ('e, 'a) outcome = Ok 'a | Err 'e | Panic

text \<open>The \<open>?\<close> operator and \<open>Result::and_then\<close>.\<close>

primrec and_then :: "('e, 'a) outcome \<Rightarrow> ('a \<Rightarrow> ('e, 'b) outcome) \<Rightarrow> ('e, 'b) outcome" where
  "and_then (Ok x) f = f x"
| "and_then (Err e) f = Err e"
| "and_then Panic f = Panic"

primrec map_ok :: "('a \<Rightarrow> 'b) \<Rightarrow> ('e, 'a) outcome \<Rightarrow> ('e, 'b) outcome" where
  "map_ok f (Ok x) = Ok (f x)"
| "map_ok f (Err e) = Err e"
| "map_ok f Panic = Panic"

primrec map_err :: "('e \<Rightarrow> 'f) \<Rightarrow> ('e, 'a) outcome \<Rightarrow> ('f, 'a) outcome" where
  "map_err f (Ok x) = Ok x"
| "map_err f (Err e) = Err (f e)"
| "map_err f Panic = Panic"

primrec ok_or :: "'e \<Rightarrow> 'a option \<Rightarrow> ('e, 'a) outcome" where
  "ok_or e None = Err e"
| "ok_or e (Some x) = Ok x"

text \<open>\<open>Option::unwrap\<close>.\<close>

primrec unwrap :: "'a option \<Rightarrow> ('e, 'a) outcome" where
  "unwrap None = Panic"
| "unwrap (Some x) = Ok x"

primrec is_ok :: "('e, 'a) outcome \<Rightarrow> bool" where
  "is_ok (Ok x) = True"
| "is_ok (Err e) = False"
| "is_ok Panic = False"

text \<open>A \<open>for\<close> loop that stops at the first failure.\<close>

fun try_each :: "('a \<Rightarrow> ('e, unit) outcome) \<Rightarrow> 'a list \<Rightarrow> ('e, unit) outcome" where
  "try_each f [] = Ok ()"
| "try_each f (x # xs) = and_then (f x) (\<lambda>_. try_each f xs)"

text \<open>\<open>iter().map(f).collect::<Result<Vec<_>, _>>()\<close>.\<close>

fun try_map :: "('a \<Rightarrow> ('e, 'b) outcome) \<Rightarrow> 'a list \<Rightarrow> ('e, 'b list) outcome" where
  "try_map f [] = Ok []"
| "try_map f (x # xs) = and_then (f x) (\<lambda>y. and_then (try_map f xs) (\<lambda>ys. Ok (y # ys)))"

text \<open>A loop that threads an accumulator and stops at the first failure.\<close>

fun try_fold :: "('a \<Rightarrow> 's \<Rightarrow> ('e, 's) outcome) \<Rightarrow> 'a list \<Rightarrow> 's \<Rightarrow> ('e, 's) outcome" where
  "try_fold f [] s = Ok s"
| "try_fold f (x # xs) s = and_then (f x s) (try_fold f xs)"

lemma and_then_Ok_iff [outcome_simps]:
  "and_then r f = Ok y \<longleftrightarrow> (\<exists>x. r = Ok x \<and> f x = Ok y)"
  by (cases r) auto

lemma and_then_Err_iff [outcome_simps]:
  "and_then r f = Err e \<longleftrightarrow> r = Err e \<or> (\<exists>x. r = Ok x \<and> f x = Err e)"
  by (cases r) auto

lemma and_then_Panic_iff [outcome_simps]:
  "and_then r f = Panic \<longleftrightarrow> r = Panic \<or> (\<exists>x. r = Ok x \<and> f x = Panic)"
  by (cases r) auto

lemma and_then_cong [fundef_cong]:
  "r = r' \<Longrightarrow> (\<And>x. r' = Ok x \<Longrightarrow> f x = f' x) \<Longrightarrow> and_then r f = and_then r' f'"
  by (cases r') auto

lemma ok_or_Ok_iff [outcome_simps]: "ok_or e v = Ok x \<longleftrightarrow> v = Some x"
  by (cases v) auto

lemma ok_or_Err_iff [outcome_simps]: "ok_or e v = Err e' \<longleftrightarrow> v = None \<and> e' = e"
  by (cases v) auto

lemma ok_or_not_Panic [simp]: "ok_or e v \<noteq> Panic"
  by (cases v) auto

lemma unwrap_Ok_iff [outcome_simps]: "unwrap v = Ok x \<longleftrightarrow> v = Some x"
  by (cases v) auto

lemma unwrap_Panic_iff [outcome_simps]: "unwrap v = Panic \<longleftrightarrow> v = None"
  by (cases v) auto

lemma unwrap_not_Err [simp]: "unwrap v \<noteq> Err e"
  by (cases v) auto

lemma map_err_Ok_iff [outcome_simps]: "map_err f r = Ok x \<longleftrightarrow> r = Ok x"
  by (cases r) auto

lemma map_err_Panic_iff [outcome_simps]: "map_err f r = Panic \<longleftrightarrow> r = Panic"
  by (cases r) auto

lemma map_ok_Ok_iff [outcome_simps]: "map_ok f r = Ok y \<longleftrightarrow> (\<exists>x. r = Ok x \<and> y = f x)"
  by (cases r) auto

lemma map_ok_Panic_iff [outcome_simps]: "map_ok f r = Panic \<longleftrightarrow> r = Panic"
  by (cases r) auto

lemma map_ok_Err_iff [outcome_simps]: "map_ok f r = Err e \<longleftrightarrow> r = Err e"
  by (cases r) auto

lemma is_ok_iff [outcome_simps]: "is_ok r \<longleftrightarrow> (\<exists>x. r = Ok x)"
  by (cases r) auto

lemma try_each_Ok_iff [outcome_simps]: "try_each f xs = Ok u \<longleftrightarrow> (\<forall>x \<in> set xs. f x = Ok ())"
  by (induction xs) (auto simp: outcome_simps)

lemma try_each_not_Panic:
  "(\<And>x. x \<in> set xs \<Longrightarrow> f x \<noteq> Panic) \<Longrightarrow> try_each f xs \<noteq> Panic"
  by (induction xs) (auto simp: outcome_simps)

lemma try_map_Ok_iff [outcome_simps]:
  "try_map f xs = Ok ys \<longleftrightarrow> list_all2 (\<lambda>x y. f x = Ok y) xs ys"
  by (induction xs arbitrary: ys) (auto simp: outcome_simps list_all2_Cons1)

lemma try_map_not_Panic:
  "(\<And>x. x \<in> set xs \<Longrightarrow> f x \<noteq> Panic) \<Longrightarrow> try_map f xs \<noteq> Panic"
  by (induction xs) (auto simp: outcome_simps)

lemma try_fold_append:
  "try_fold f (xs @ ys) s = and_then (try_fold f xs s) (try_fold f ys)"
proof (induction xs arbitrary: s)
  case (Cons x xs)
  then show ?case by (cases "f x s") auto
qed simp

text \<open>An invariant of the accumulator carries over the whole loop.\<close>

lemma try_fold_invariant:
  assumes "try_fold f xs s = Ok t" and "P s"
    and "\<And>x s t. x \<in> set xs \<Longrightarrow> P s \<Longrightarrow> f x s = Ok t \<Longrightarrow> P t"
  shows "P t"
  using assms
proof (induction xs arbitrary: s)
  case (Cons x xs)
  then obtain s' where s': "f x s = Ok s'" and rest: "try_fold f xs s' = Ok t"
    by (auto simp: outcome_simps)
  have "P s'" using Cons.prems(2) Cons.prems(3)[OF _ _ s'] by simp
  moreover have "\<And>y s t. y \<in> set xs \<Longrightarrow> P s \<Longrightarrow> f y s = Ok t \<Longrightarrow> P t"
    using Cons.prems(3) by (meson list.set_intros(2))
  ultimately show ?case using Cons.IH[OF rest] by blast
qed simp


section \<open>Characters and strings\<close>

definition is_ascii_digit :: "char \<Rightarrow> bool" where
  "is_ascii_digit c \<longleftrightarrow> CHR ''0'' \<le> c \<and> c \<le> CHR ''9''"

definition is_ascii_lowercase :: "char \<Rightarrow> bool" where
  "is_ascii_lowercase c \<longleftrightarrow> CHR ''a'' \<le> c \<and> c \<le> CHR ''z''"

definition is_ascii_uppercase :: "char \<Rightarrow> bool" where
  "is_ascii_uppercase c \<longleftrightarrow> CHR ''A'' \<le> c \<and> c \<le> CHR ''Z''"

definition is_ascii_alphabetic :: "char \<Rightarrow> bool" where
  "is_ascii_alphabetic c \<longleftrightarrow> is_ascii_lowercase c \<or> is_ascii_uppercase c"

definition is_ascii_alphanumeric :: "char \<Rightarrow> bool" where
  "is_ascii_alphanumeric c \<longleftrightarrow> is_ascii_alphabetic c \<or> is_ascii_digit c"

definition is_ascii_hexdigit :: "char \<Rightarrow> bool" where
  "is_ascii_hexdigit c \<longleftrightarrow> is_ascii_digit c \<or> (CHR ''a'' \<le> c \<and> c \<le> CHR ''f'')
     \<or> (CHR ''A'' \<le> c \<and> c \<le> CHR ''F'')"

lemmas ascii_defs = is_ascii_digit_def is_ascii_lowercase_def is_ascii_uppercase_def
  is_ascii_alphabetic_def is_ascii_alphanumeric_def is_ascii_hexdigit_def

definition starts_with :: "string \<Rightarrow> string \<Rightarrow> bool" where
  "starts_with s p \<longleftrightarrow> take (length p) s = p"

definition ends_with :: "string \<Rightarrow> string \<Rightarrow> bool" where
  "ends_with s p \<longleftrightarrow> starts_with (rev s) (rev p)"

definition strip_prefix :: "string \<Rightarrow> string \<Rightarrow> string option" where
  "strip_prefix p s = (if starts_with s p then Some (drop (length p) s) else None)"

definition strip_suffix :: "string \<Rightarrow> string \<Rightarrow> string option" where
  "strip_suffix p s = (if ends_with s p then Some (take (length s - length p) s) else None)"

text \<open>The byte slice \<open>&s[a..b]\<close>.\<close>

definition slice :: "nat \<Rightarrow> nat \<Rightarrow> string \<Rightarrow> string" where
  "slice a b s = take (b - a) (drop a s)"

fun split_once :: "char \<Rightarrow> string \<Rightarrow> (string \<times> string) option" where
  "split_once c [] = None"
| "split_once c (x # xs) =
     (if x = c then Some ([], xs)
      else map_option (\<lambda>(a, b). (x # a, b)) (split_once c xs))"

text \<open>\<open>str::rsplit_once\<close>: the split at the last occurrence.\<close>

definition rsplit_once :: "char \<Rightarrow> string \<Rightarrow> (string \<times> string) option" where
  "rsplit_once c s = map_option (\<lambda>(a, b). (rev b, rev a)) (split_once c (rev s))"

text \<open>\<open>str::split\<close> with a character pattern: never empty.\<close>

fun split_on :: "char \<Rightarrow> string \<Rightarrow> string list" where
  "split_on c [] = [[]]"
| "split_on c (x # xs) =
     (if x = c then [] # split_on c xs
      else (case split_on c xs of [] \<Rightarrow> [[x]] | y # ys \<Rightarrow> (x # y) # ys))"

fun join :: "string \<Rightarrow> string list \<Rightarrow> string" where
  "join sep [] = []"
| "join sep [x] = x"
| "join sep (x # y # ys) = x @ sep @ join sep (y # ys)"

text \<open>The \<open>Display\<close> text of an unsigned integer.\<close>

definition digit_char :: "nat \<Rightarrow> char" where
  "digit_char n = char_of (48 + n)"

fun show_nat :: "nat \<Rightarrow> string" where
  "show_nat n = (if n < 10 then [digit_char n] else show_nat (n div 10) @ [digit_char (n mod 10)])"

declare show_nat.simps [simp del]

lemma starts_with_prefix [str_simps]: "starts_with s p \<longleftrightarrow> prefix p s"
proof
  assume "starts_with s p"
  then have "s = p @ drop (length p) s"
    unfolding starts_with_def by (metis append_take_drop_id)
  then show "prefix p s" by (metis prefixI)
qed (auto simp: starts_with_def prefix_def)

lemma ends_with_suffix [str_simps]: "ends_with s p \<longleftrightarrow> suffix p s"
  by (simp add: ends_with_def starts_with_prefix suffix_to_prefix)

lemma strip_prefix_iff [str_simps]: "strip_prefix p s = Some r \<longleftrightarrow> s = p @ r"
  by (auto simp: strip_prefix_def starts_with_prefix prefix_def)

lemma strip_prefix_None [str_simps]: "strip_prefix p s = None \<longleftrightarrow> \<not> prefix p s"
  by (auto simp: strip_prefix_def starts_with_prefix)

lemma strip_suffix_iff [str_simps]: "strip_suffix p s = Some r \<longleftrightarrow> s = r @ p"
  by (auto simp: strip_suffix_def ends_with_suffix suffix_def)

lemma split_once_iff [str_simps]:
  "split_once c s = Some (a, b) \<longleftrightarrow> s = a @ c # b \<and> c \<notin> set a"
proof (induction s arbitrary: a)
  case Nil
  then show ?case by simp
next
  case (Cons x xs)
  show ?case
  proof (cases "x = c")
    case True
    then show ?thesis by (cases a) auto
  next
    case False
    then show ?thesis using Cons.IH by (cases a) (auto split: prod.splits)
  qed
qed

lemma split_once_None [str_simps]: "split_once c s = None \<longleftrightarrow> c \<notin> set s"
  by (induction s) auto

lemma split_on_not_Nil [simp]: "split_on c s \<noteq> []"
  by (cases s) (auto split: list.splits)

lemma split_on_no_sep: "x \<in> set (split_on c s) \<Longrightarrow> c \<notin> set x"
  by (induction s arbitrary: x) (auto split: if_splits list.splits)

lemma join_split_on [simp]: "join [c] (split_on c s) = s"
proof (induction s)
  case (Cons x xs)
  obtain y ys where ys: "split_on c xs = y # ys"
    by (cases "split_on c xs") auto
  with Cons show ?case by (cases ys) auto
qed simp

lemma split_on_id: "c \<notin> set s \<Longrightarrow> split_on c s = [s]"
  by (induction s) auto

lemma split_on_append: "c \<notin> set s \<Longrightarrow> split_on c (s @ c # t) = s # split_on c t"
  by (induction s) auto

lemma split_on_join:
  "xs \<noteq> [] \<Longrightarrow> \<forall>x \<in> set xs. c \<notin> set x \<Longrightarrow> split_on c (join [c] xs) = xs"
  by (induction "[c]" xs rule: join.induct) (auto simp: split_on_id split_on_append)

lemma split_on_inj: "split_on c s = split_on c t \<Longrightarrow> s = t"
  by (metis join_split_on)

lemma set_join: "set (join sep xs) \<subseteq> set sep \<union> (\<Union>x \<in> set xs. set x)"
  by (induction sep xs rule: join.induct) auto


section \<open>Ordered maps\<close>

text \<open>
  A \<open>BTreeMap\<close> is an association list whose keys increase strictly: the list order is
  the iteration order of the code. \<open>bt_insert\<close> is \<open>BTreeMap::insert\<close>, \<^const>\<open>map_of\<close>
  is \<open>get\<close>.
\<close>

fun bt_insert :: "'k::linorder \<Rightarrow> 'v \<Rightarrow> ('k \<times> 'v) list \<Rightarrow> ('k \<times> 'v) list" where
  "bt_insert k v [] = [(k, v)]"
| "bt_insert k v ((k', v') # m) =
     (if k < k' then (k, v) # (k', v') # m
      else if k = k' then (k, v) # m
      else (k', v') # bt_insert k v m)"

definition bt_remove :: "'k \<Rightarrow> ('k \<times> 'v) list \<Rightarrow> ('k \<times> 'v) list" where
  "bt_remove k m = filter (\<lambda>(k', _). k' \<noteq> k) m"

definition bt_wf :: "('k::linorder \<times> 'v) list \<Rightarrow> bool" where
  "bt_wf m \<longleftrightarrow> sorted_wrt (<) (map fst m)"

lemma bt_wf_Nil [simp]: "bt_wf []"
  by (simp add: bt_wf_def)

lemma bt_wf_Cons [simp]: "bt_wf (p # m) \<longleftrightarrow> (\<forall>k \<in> fst ` set m. fst p < k) \<and> bt_wf m"
  by (auto simp: bt_wf_def)

lemma bt_wf_distinct: "bt_wf m \<Longrightarrow> distinct (map fst m)"
  by (induction m) auto

lemma map_of_bt_insert [simp]: "map_of (bt_insert k v m) = (map_of m)(k \<mapsto> v)"
  if "bt_wf m"
  using that
proof (induction k v m rule: bt_insert.induct)
  case (2 k v k' v' m)
  then show ?case by (auto simp: fun_eq_iff)
qed simp

lemma set_keys_bt_insert [simp]: "fst ` set (bt_insert k v m) = insert k (fst ` set m)"
  by (induction k v m rule: bt_insert.induct) auto

lemma set_bt_insert_subset: "set (bt_insert k v m) \<subseteq> insert (k, v) (set m)"
  by (induction k v m rule: bt_insert.induct) auto

lemma bt_wf_insert [simp]: "bt_wf m \<Longrightarrow> bt_wf (bt_insert k v m)"
proof (induction k v m rule: bt_insert.induct)
  case (2 k v k' v' m)
  then have "bt_wf (bt_insert k v m)" if "\<not> k < k'" "k \<noteq> k'" using that by simp
  with "2.prems" show ?case by (auto simp del: set_map intro: less_trans)
qed simp

lemma map_of_bt_remove [simp]: "map_of (bt_remove k m) = (map_of m)(k := None)"
  by (induction m) (auto simp: bt_remove_def fun_eq_iff)

lemma set_bt_remove [simp]: "set (bt_remove k m) = {p \<in> set m. fst p \<noteq> k}"
  by (auto simp: bt_remove_def)

lemma bt_wf_remove [simp]: "bt_wf m \<Longrightarrow> bt_wf (bt_remove k m)"
  by (induction m) (auto simp: bt_remove_def)

lemma bt_wf_repr:
  assumes "bt_wf m"
  shows "m = map (\<lambda>k. (k, the (map_of m k))) (map fst m)"
proof -
  have "map (\<lambda>p. (fst p, the (map_of m (fst p)))) m = m"
    using bt_wf_distinct[OF assms] by (intro map_idI) (auto dest: map_of_is_SomeI)
  then show ?thesis by (simp add: comp_def)
qed

text \<open>Two ordered maps with the same entries are the same list.\<close>

lemma bt_wf_unique:
  assumes wf: "bt_wf m" "bt_wf m'" and eq: "map_of m = map_of m'"
  shows "m = m'"
proof -
  have "set (map fst m) = set (map fst m')"
    using eq by (metis dom_map_of_conv_image_fst set_map)
  then have "map fst m = map fst m'"
    using wf unfolding bt_wf_def by (meson strict_sorted_equal)
  then show ?thesis using bt_wf_repr[OF wf(1)] bt_wf_repr[OF wf(2)] eq by simp
qed


text \<open>Collecting entries into a map: a later entry replaces an earlier one with the same key.\<close>

definition bt_of_list :: "('k::linorder \<times> 'v) list \<Rightarrow> ('k \<times> 'v) list" where
  "bt_of_list ps = fold (\<lambda>(k, v). bt_insert k v) ps []"

text \<open>
  The loop \<open>if map.insert(k, v).is_some() { return Err(..) }\<close> over a sequence of entries:
  it fails at the first repeated key.
\<close>

fun collect_unique :: "('k::linorder \<times> 'v) list \<Rightarrow> ('k \<times> 'v) list \<Rightarrow> ('k \<times> 'v) list option" where
  "collect_unique [] m = Some m"
| "collect_unique ((k, v) # ps) m =
     (if map_of m k \<noteq> None then None else collect_unique ps (bt_insert k v m))"


section \<open>Interfaces\<close>

text \<open>What a client of an ordered map relies on.\<close>

locale ordered_map =
  fixes empty :: 'm
    and ins :: "'k \<Rightarrow> 'v \<Rightarrow> 'm \<Rightarrow> 'm"
    and look :: "'m \<Rightarrow> 'k \<Rightarrow> 'v option"
    and invar :: "'m \<Rightarrow> bool"
  assumes look_empty: "look empty = (\<lambda>_. None)"
    and look_ins: "invar m \<Longrightarrow> look (ins k v m) = (look m)(k \<mapsto> v)"
    and invar_empty: "invar empty"
    and invar_ins: "invar m \<Longrightarrow> invar (ins k v m)"
begin

lemma invar_fold: "invar m \<Longrightarrow> invar (fold (\<lambda>(k, v). ins k v) ps m)"
  by (induction ps arbitrary: m) (auto simp: invar_ins)

lemma look_fold: "invar m \<Longrightarrow> look (fold (\<lambda>(k, v). ins k v) ps m) = look m ++ map_of (rev ps)"
  by (induction ps arbitrary: m) (auto simp: look_ins invar_ins)

lemma look_fold_distinct:
  assumes "distinct (map fst ps)"
  shows "look (fold (\<lambda>(k, v). ins k v) ps empty) = map_of ps"
proof -
  have "map_of (rev ps) = map_of ps"
    using assms map_of_inject_set[of "rev ps" ps] by (simp flip: rev_map)
  then show ?thesis by (simp add: look_fold invar_empty look_empty)
qed

end

interpretation bt: ordered_map "[]" bt_insert map_of bt_wf
  by unfold_locales (auto simp: fun_eq_iff)

lemma collect_unique_iff_gen:
  assumes "bt_wf m"
  shows "collect_unique ps m = Some m' \<longleftrightarrow>
    distinct (map fst ps) \<and> fst ` set ps \<inter> fst ` set m = {} \<and> m' = fold (\<lambda>(k, v). bt_insert k v) ps m"
  using assms
proof (induction ps m rule: collect_unique.induct)
  case (2 k v ps m)
  have "map_of m k \<noteq> None \<longleftrightarrow> k \<in> fst ` set m"
    by (metis map_of_eq_None_iff)
  with 2 show ?case by auto
qed auto

text \<open>The loop succeeds exactly when no key repeats; the map it builds is then the given one.\<close>

lemma collect_unique_iff:
  "collect_unique ps [] = Some m \<longleftrightarrow> distinct (map fst ps) \<and> m = bt_of_list ps"
  by (simp add: collect_unique_iff_gen bt_of_list_def)

lemma bt_wf_of_list [simp]: "bt_wf (bt_of_list ps)"
  unfolding bt_of_list_def by (rule bt.invar_fold[OF bt.invar_empty])

lemma map_of_bt_of_list: "map_of (bt_of_list ps) = map_of (rev ps)"
  unfolding bt_of_list_def using bt.look_fold[OF bt.invar_empty] by simp

lemma map_of_bt_of_list_distinct: "distinct (map fst ps) \<Longrightarrow> map_of (bt_of_list ps) = map_of ps"
  unfolding bt_of_list_def by (rule bt.look_fold_distinct)

lemma set_bt_of_list: "set (bt_of_list ps) \<subseteq> set ps"
proof -
  have "set (fold (\<lambda>(k, v). bt_insert k v) ps m) \<subseteq> set ps \<union> set m" for m
  proof (induction ps arbitrary: m)
    case (Cons p ps)
    then show ?case using set_bt_insert_subset by (cases p) fastforce
  qed simp
  from this[of "[]"] show ?thesis by (simp add: bt_of_list_def)
qed

lemma collect_unique_lookup:
  assumes "collect_unique ps [] = Some m"
  shows "bt_wf m" and "map_of m = map_of ps"
  using assms by (auto simp: collect_unique_iff map_of_bt_of_list_distinct)

lemma collect_unique_None: "collect_unique ps [] = None \<longleftrightarrow> \<not> distinct (map fst ps)"
  using collect_unique_iff[of ps] by (metis option.exhaust option.distinct(1))

lemma collect_unique_sorted: "bt_wf ps \<Longrightarrow> collect_unique ps [] = Some ps"
  using bt_wf_unique bt_wf_distinct collect_unique_iff collect_unique_lookup by metis

text \<open>
  A textual format: what a client of a printer and its parser relies on. The second
  locale adds that the parser accepts canonical text only.
\<close>

locale codec =
  fixes encode :: "'x \<Rightarrow> string"
    and decode :: "string \<Rightarrow> ('e, 'x) outcome"
    and valid :: "'x \<Rightarrow> bool"
  assumes decode_encode: "valid x \<Longrightarrow> decode (encode x) = Ok x"
begin

lemma encode_inj: "valid x \<Longrightarrow> valid y \<Longrightarrow> encode x = encode y \<Longrightarrow> x = y"
  by (metis decode_encode outcome.inject(1))

end

locale canonical_codec = codec +
  assumes decode_canonical: "decode s = Ok x \<Longrightarrow> valid x \<and> encode x = s"
begin

lemma decode_iff: "decode s = Ok x \<longleftrightarrow> valid x \<and> s = encode x"
  by (metis decode_canonical decode_encode)

lemma decode_inj: "decode s = Ok x \<Longrightarrow> decode t = Ok x \<Longrightarrow> s = t"
  by (metis decode_canonical)

end

text \<open>A transition system with an inductive invariant.\<close>

locale invariant_system =
  fixes init :: "'s \<Rightarrow> bool"
    and step :: "'s \<Rightarrow> 's \<Rightarrow> bool"
    and inv :: "'s \<Rightarrow> bool"
  assumes init_inv: "init s \<Longrightarrow> inv s"
    and step_inv: "step s t \<Longrightarrow> inv s \<Longrightarrow> inv t"
begin

lemma steps_inv: "step\<^sup>*\<^sup>* s t \<Longrightarrow> inv s \<Longrightarrow> inv t"
  by (induction rule: rtranclp_induct) (auto intro: step_inv)

lemma reachable_inv: "init s \<Longrightarrow> step\<^sup>*\<^sup>* s t \<Longrightarrow> inv t"
  using init_inv steps_inv by blast

end

end
