(* ===== verification/Sqlrest_Error.thy ===== *)
theory Sqlrest_Error
  imports Prelude
begin

text \<open>
  \<^verbatim>\<open>src/error.rs\<close>: the one error type of the program, its constructors, and the
  part of it that reaches a client.
\<close>

record sqlrest_error =
  err_code :: string
  err_message :: string
  err_parameter :: "string option"
  err_status :: "16 word"
  err_allowed_methods :: "string option"
  err_diagnostic :: "string option"

type_synonym 'a result = "(sqlrest_error, 'a) outcome"

definition new_error :: "16 word \<Rightarrow> string \<Rightarrow> string \<Rightarrow> sqlrest_error" where
  "new_error status code message =
     \<lparr>err_code = code, err_message = message, err_parameter = None, err_status = status,
      err_allowed_methods = None, err_diagnostic = None\<rparr>"

text \<open>\<open>with_diagnostic\<close>: \<open>detail\<close> is the \<open>Debug\<close> text of the driver error.\<close>

definition with_diagnostic :: "string \<Rightarrow> string \<Rightarrow> sqlrest_error \<Rightarrow> sqlrest_error" where
  "with_diagnostic backend detail e = e\<lparr>err_diagnostic := Some (backend @ '': '' @ detail)\<rparr>"

definition with_allowed_methods :: "string \<Rightarrow> sqlrest_error \<Rightarrow> sqlrest_error" where
  "with_allowed_methods methods e = e\<lparr>err_allowed_methods := Some methods\<rparr>"

definition definition_error :: "string \<Rightarrow> sqlrest_error" where
  "definition_error message = new_error 400 ''invalid_definition'' message"

definition parameter_error :: "string \<Rightarrow> string \<Rightarrow> string \<Rightarrow> sqlrest_error" where
  "parameter_error code path message = (new_error 400 code message)\<lparr>err_parameter := Some path\<rparr>"

definition contract_error :: "string \<Rightarrow> sqlrest_error" where
  "contract_error message = new_error 500 ''response_contract_mismatch'' message"

text \<open>The \<open>Display\<close> implementation derived by \<open>thiserror\<close>: \<open>"{code}: {message}"\<close>.\<close>

definition error_display :: "sqlrest_error \<Rightarrow> string" where
  "error_display e = err_code e @ '': '' @ err_message e"

lemmas error_defs = new_error_def with_diagnostic_def with_allowed_methods_def
  definition_error_def parameter_error_def contract_error_def

lemma err_simps [simp]:
  "err_code (new_error s c m) = c" "err_status (new_error s c m) = s"
  "err_message (new_error s c m) = m" "err_diagnostic (new_error s c m) = None"
  "err_allowed_methods (new_error s c m) = None" "err_parameter (new_error s c m) = None"
  "err_code (with_diagnostic b d e) = err_code e"
  "err_status (with_diagnostic b d e) = err_status e"
  "err_message (with_diagnostic b d e) = err_message e"
  "err_parameter (with_diagnostic b d e) = err_parameter e"
  "err_allowed_methods (with_diagnostic b d e) = err_allowed_methods e"
  "err_code (with_allowed_methods ms e) = err_code e"
  "err_status (with_allowed_methods ms e) = err_status e"
  "err_message (with_allowed_methods ms e) = err_message e"
  "err_allowed_methods (with_allowed_methods ms e) = Some ms"
  "err_code (definition_error m) = ''invalid_definition''"
  "err_status (definition_error m) = 400"
  "err_code (parameter_error c p m) = c" "err_status (parameter_error c p m) = 400"
  "err_code (contract_error m) = ''response_contract_mismatch''"
  "err_status (contract_error m) = 500"
  by (simp_all add: error_defs)

end
