(* ===== verification/Json.thy ===== *)
theory Json
  imports Sqlrest_Error
begin

text \<open>
  The JSON values the program computes with (\<open>serde_json::Value\<close>: objects are
  \<open>BTreeMap\<close>s, numbers are \<open>u64\<close>, negative \<open>i64\<close> or finite \<open>f64\<close>), and the
  duplicate-rejecting deserializer \<open>UniqueJson\<close> of \<^verbatim>\<open>src/params.rs\<close>. The textual
  parser is \<open>serde_json\<close>'s and is a parameter: it delivers a document as the tree of
  the visitor calls it makes.
\<close>

unbundle bit_operations_syntax

type_synonym u8 = "8 word"
type_synonym u64 = "64 word"
type_synonym i64 = "64 word"
text \<open>An \<open>f64\<close> is its IEEE 754 bit pattern.\<close>
type_synonym f64 = "64 word"

definition is_finite :: "f64 \<Rightarrow> bool" where
  "is_finite x \<longleftrightarrow> drop_bit 52 x AND 2047 \<noteq> 2047"

datatype number = PosInt u64 | NegInt i64 | Float f64

datatype json =
    JNull
  | JBool bool
  | JNumber number
  | JString string
  | JArray "json list"
  | JObject "(string \<times> json) list"

definition number_of_i64 :: "i64 \<Rightarrow> number" where
  "number_of_i64 v = (if v <s 0 then NegInt v else PosInt v)"

text \<open>\<open>Number::from_f64\<close>: only finite values are JSON numbers.\<close>

definition number_from_f64 :: "f64 \<Rightarrow> number option" where
  "number_from_f64 v = (if is_finite v then Some (Float v) else None)"

text \<open>\<open>Number::as_i64\<close>: a \<open>u64\<close> above \<open>i64::MAX\<close> and a float have none.\<close>

fun number_as_i64 :: "number \<Rightarrow> i64 option" where
  "number_as_i64 (PosInt n) = (if uint n < 2 ^ 63 then Some n else None)"
| "number_as_i64 (NegInt n) = Some n"
| "number_as_i64 (Float _) = None"

fun as_i64 :: "json \<Rightarrow> i64 option" where
  "as_i64 (JNumber n) = number_as_i64 n"
| "as_i64 _ = None"

fun as_str :: "json \<Rightarrow> string option" where
  "as_str (JString s) = Some s"
| "as_str _ = None"

fun as_bool :: "json \<Rightarrow> bool option" where
  "as_bool (JBool b) = Some b"
| "as_bool _ = None"

fun as_array :: "json \<Rightarrow> json list option" where
  "as_array (JArray xs) = Some xs"
| "as_array _ = None"

fun as_object :: "json \<Rightarrow> (string \<times> json) list option" where
  "as_object (JObject m) = Some m"
| "as_object _ = None"

text \<open>\<open>Value::get\<close> with a string index.\<close>

definition json_get :: "string \<Rightarrow> json \<Rightarrow> json option" where
  "json_get k v = (case v of JObject m \<Rightarrow> map_of m k | _ \<Rightarrow> None)"

text \<open>The \<open>json!\<close> object literal.\<close>

definition json_obj :: "(string \<times> json) list \<Rightarrow> json" where
  "json_obj kvs = JObject (bt_of_list kvs)"

text \<open>
  A value as the library keeps it: object keys increase strictly, \<open>NegInt\<close> is negative,
  floats are finite.
\<close>

fun number_wf :: "number \<Rightarrow> bool" where
  "number_wf (PosInt n) = True"
| "number_wf (NegInt n) = (n <s 0)"
| "number_wf (Float x) = is_finite x"

fun json_wf :: "json \<Rightarrow> bool" where
  "json_wf (JNumber n) = number_wf n"
| "json_wf (JArray xs) = list_all json_wf xs"
| "json_wf (JObject m) = (bt_wf m \<and> list_all json_wf (map snd m))"
| "json_wf _ = True"

lemma number_wf_of_i64 [simp]: "number_wf (number_of_i64 v)"
  by (simp add: number_of_i64_def)

lemma number_wf_from_f64: "number_from_f64 v = Some n \<Longrightarrow> number_wf n"
  by (auto simp: number_from_f64_def split: if_splits)

lemma sint_nonneg_uint:
  fixes v :: i64
  assumes "0 \<le> sint v"
  shows "uint v = sint v" and "uint v < 2 ^ 63"
proof -
  have lt: "sint v < 2 ^ 63" using sint_less[of v] by simp
  have "uint v = take_bit 64 (sint v)"
    using uint_lt2p[of v] by (simp add: sint_uint take_bit_signed_take_bit take_bit_int_eq_self)
  also have "\<dots> = sint v" using assms lt by (intro take_bit_int_eq_self) simp_all
  finally show *: "uint v = sint v" .
  show "uint v < 2 ^ 63" using lt * by simp
qed

lemma uint_nonneg_i64: "\<not> (v :: i64) <s 0 \<Longrightarrow> uint v < 2 ^ 63"
  using sint_nonneg_uint[of v] by (simp add: word_sless_alt)

text \<open>An \<open>i64\<close> stored in a JSON number is read back unchanged.\<close>

lemma as_i64_of_i64 [simp]: "number_as_i64 (number_of_i64 v) = Some v"
  using uint_nonneg_i64[of v] by (auto simp: number_of_i64_def)


section \<open>Documents with unique keys\<close>

text \<open>The visitor calls a parser makes for one document; object entries in document order.\<close>

datatype raw =
    RUnit
  | RBool bool
  | RI64 i64
  | RU64 u64
  | RF64 f64
  | RStr string
  | RSeq "raw list"
  | RMap "(string \<times> raw) list"

fun unique_json :: "raw \<Rightarrow> json option"
  and visit_seq :: "raw list \<Rightarrow> json list option"
  and visit_map :: "(string \<times> raw) list \<Rightarrow> (string \<times> json) list \<Rightarrow> (string \<times> json) list option"
where
  "unique_json RUnit = Some JNull"
| "unique_json (RBool v) = Some (JBool v)"
| "unique_json (RI64 v) = Some (JNumber (number_of_i64 v))"
| "unique_json (RU64 v) = Some (JNumber (PosInt v))"
| "unique_json (RF64 v) = map_option JNumber (number_from_f64 v)"
| "unique_json (RStr v) = Some (JString v)"
| "unique_json (RSeq xs) = map_option JArray (visit_seq xs)"
| "unique_json (RMap kvs) = map_option JObject (visit_map kvs [])"
| "visit_seq [] = Some []"
| "visit_seq (x # xs) =
     (case unique_json x of None \<Rightarrow> None | Some v \<Rightarrow> map_option (Cons v) (visit_seq xs))"
| "visit_map [] obj = Some obj"
| "visit_map ((k, x) # kvs) obj =
     (case unique_json x of
        None \<Rightarrow> None
      | Some v \<Rightarrow> if map_of obj k \<noteq> None then None else visit_map kvs (bt_insert k v obj))"

text \<open>The reference: which documents have unique keys at every depth, and their value.\<close>

fun raw_ok :: "raw \<Rightarrow> bool" where
  "raw_ok (RF64 v) = is_finite v"
| "raw_ok (RSeq xs) = list_all raw_ok xs"
| "raw_ok (RMap kvs) = (distinct (map fst kvs) \<and> list_all raw_ok (map snd kvs))"
| "raw_ok _ = True"

fun raw_value :: "raw \<Rightarrow> json" where
  "raw_value RUnit = JNull"
| "raw_value (RBool v) = JBool v"
| "raw_value (RI64 v) = JNumber (number_of_i64 v)"
| "raw_value (RU64 v) = JNumber (PosInt v)"
| "raw_value (RF64 v) = JNumber (Float v)"
| "raw_value (RStr v) = JString v"
| "raw_value (RSeq xs) = JArray (map raw_value xs)"
| "raw_value (RMap kvs) = JObject (bt_of_list (map (\<lambda>(k, v). (k, raw_value v)) kvs))"

lemma visit_unique:
  "unique_json r = (if raw_ok r then Some (raw_value r) else None)"
  "visit_seq rs = (if list_all raw_ok rs then Some (map raw_value rs) else None)"
  "bt_wf obj \<Longrightarrow> visit_map kvs obj =
     (if list_all raw_ok (map snd kvs)
      then collect_unique (map (\<lambda>(k, v). (k, raw_value v)) kvs) obj else None)"
proof (induction r and rs and kvs obj rule: unique_json_visit_seq_visit_map.induct)
  case (5 v)
  then show ?case by (simp add: number_from_f64_def)
next
  case (8 kvs)
  have keys: "map fst (map (\<lambda>(k, v). (k, raw_value v)) kvs) = map fst kvs"
    by (simp add: case_prod_beta comp_def)
  show ?case
  proof (cases "list_all raw_ok (map snd kvs) \<and> distinct (map fst kvs)")
    case True
    then have "collect_unique (map (\<lambda>(k, v). (k, raw_value v)) kvs) [] =
        Some (bt_of_list (map (\<lambda>(k, v). (k, raw_value v)) kvs))"
      using collect_unique_iff keys by metis
    with 8 True show ?thesis by simp
  next
    case False
    moreover have "collect_unique (map (\<lambda>(k, v). (k, raw_value v)) kvs) [] = None"
      if "\<not> distinct (map fst kvs)"
      using that keys collect_unique_None by metis
    ultimately show ?thesis using 8 by auto
  qed
next
  case (12 k x kvs obj)
  then show ?case by (cases "raw_ok x") auto
qed auto

text \<open>
  The body parser accepts exactly the documents in which no object, at any depth,
  repeats a key (and every float is finite), and returns the document's value.
\<close>

lemma unique_json_iff: "unique_json r = Some v \<longleftrightarrow> raw_ok r \<and> v = raw_value r"
  by (auto simp: visit_unique)

lemma raw_value_wf: "raw_ok r \<Longrightarrow> json_wf (raw_value r)"
proof (induction r)
  case (RMap kvs)
  let ?kvs = "map (\<lambda>(k, v). (k, raw_value v)) kvs"
  have vals: "\<forall>p \<in> set ?kvs. json_wf (snd p)"
    using RMap by (fastforce simp: list_all_iff)
  then have "\<forall>p \<in> set (bt_of_list ?kvs). json_wf (snd p)"
    using set_bt_of_list by blast
  then show ?case by (auto simp: list_all_iff)
qed (auto simp: list_all_iff)

end
