(* ===== verification/Params.thy ===== *)
theory Params
  imports Json
begin

text \<open>
  \<^verbatim>\<open>src/params.rs\<close>: the types of typed SQL references, their textual syntax, reading
  and checking a parameter of a request, assembling the request input from query string
  and body, and the consistency check of all references of one interface.
\<close>

section \<open>Numbers as the standard library reads them\<close>

definition digit_value :: "char \<Rightarrow> nat" where
  "digit_value c = of_char c - of_char CHR ''0''"

definition decimal_value :: "string \<Rightarrow> nat" where
  "decimal_value s = foldl (\<lambda>n c. 10 * n + digit_value c) 0 s"

text \<open>\<open>str::parse::<i64>\<close>: an optional sign, at least one digit, no overflow.\<close>

definition parse_i64 :: "string \<Rightarrow> i64 option" where
  "parse_i64 s =
     (let (neg, digits) =
        (if starts_with s ''-'' then (True, tl s)
         else if starts_with s ''+'' then (False, tl s)
         else (False, s))
      in if digits = [] \<or> \<not> list_all is_ascii_digit digits then None
         else let n = (if neg then - int (decimal_value digits) else int (decimal_value digits))
              in if - (2 ^ 63) \<le> n \<and> n < 2 ^ 63 then Some (word_of_int n) else None)"

text \<open>
  The cast \<open>as f64\<close> of an integer: round to nearest, ties to even. \<open>f64_of_mag\<close> gives the
  bit pattern of a magnitude below \<open>2 ^ 64\<close>.
\<close>

fun floor_log2 :: "nat \<Rightarrow> nat" where
  "floor_log2 n = (if n \<le> 1 then 0 else Suc (floor_log2 (n div 2)))"

declare floor_log2.simps [simp del]

definition f64_of_mag :: "nat \<Rightarrow> nat" where
  "f64_of_mag n =
     (if n = 0 then 0
      else let e = floor_log2 n;
               q = (if e \<le> 52 then n * 2 ^ (52 - e)
                    else let d = 2 ^ (e - 52); q = n div d; r = n mod d
                         in if d < 2 * r \<or> (d = 2 * r \<and> odd q) then q + 1 else q)
           in (e + 1023) * 2 ^ 52 + (q - 2 ^ 52))"

fun number_as_f64 :: "number \<Rightarrow> f64" where
  "number_as_f64 (PosInt n) = of_nat (f64_of_mag (unat n))"
| "number_as_f64 (NegInt n) = of_nat (2 ^ 63 + f64_of_mag (nat (- sint n)))"
| "number_as_f64 (Float x) = x"

fun as_f64 :: "json \<Rightarrow> f64 option" where
  "as_f64 (JNumber n) = Some (number_as_f64 n)"
| "as_f64 _ = None"

text \<open>\<open>str::trim\<close>: the UTF-8 encodings of the characters with the \<open>White_Space\<close> property.\<close>

definition whitespace :: "string list" where
  "whitespace =
     map (\<lambda>n. [char_of n]) [9, 10, 11, 12, 13, 32 :: nat] @
     [[CHR 0xC2, CHR 0x85], [CHR 0xC2, CHR 0xA0], [CHR 0xE1, CHR 0x9A, CHR 0x80]] @
     map (\<lambda>n. [CHR 0xE2, CHR 0x80, char_of n])
       [128, 129, 130, 131, 132, 133, 134, 135, 136, 137, 138, 168, 169, 175 :: nat] @
     [[CHR 0xE2, CHR 0x81, CHR 0x9F], [CHR 0xE3, CHR 0x80, CHR 0x80]]"

function strip_leading :: "string list \<Rightarrow> string \<Rightarrow> string" where
  "strip_leading ws s =
     (case find (\<lambda>w. w \<noteq> [] \<and> starts_with s w) ws of
        Some w \<Rightarrow> strip_leading ws (drop (length w) s)
      | None \<Rightarrow> s)"
  by pat_completeness auto
termination
  by (relation "measure (\<lambda>(ws, s). length s)")
    (auto simp: find_Some_iff str_simps prefix_def)

definition trim :: "string \<Rightarrow> string" where
  "trim s = rev (strip_leading (map rev whitespace) (rev (strip_leading whitespace s)))"


section \<open>Types\<close>

datatype ptype =
    String_T
  | Boolean_T
  | Int64_T
  | Float64_T
  | Array_T ptype
  | Nullable_T ptype

fun scalar :: "ptype \<Rightarrow> bool" where
  "scalar String_T = True"
| "scalar Boolean_T = True"
| "scalar Int64_T = True"
| "scalar Float64_T = True"
| "scalar _ = False"

fun is_nullable :: "ptype \<Rightarrow> bool" where
  "is_nullable (Nullable_T _) = True"
| "is_nullable _ = False"

text \<open>\<open>Type::parse\<close>.\<close>

function Type_parse :: "string \<Rightarrow> ptype result" where
  "Type_parse s =
     (if s = ''string'' then Ok String_T
      else if s = ''boolean'' then Ok Boolean_T
      else if s = ''int64'' then Ok Int64_T
      else if s = ''float64'' then Ok Float64_T
      else if starts_with s ''array<'' \<and> ends_with s ''>'' then
        and_then (Type_parse (slice 6 (length s - 1) s)) (\<lambda>inner.
          if \<not> scalar inner
          then Err (definition_error ''array elements must be non-null scalars'')
          else Ok (Array_T inner))
      else if starts_with s ''nullable<'' \<and> ends_with s ''>'' then
        and_then (Type_parse (slice 9 (length s - 1) s)) (\<lambda>inner.
          if is_nullable inner
          then Err (definition_error ''nested nullable is not supported'')
          else Ok (Nullable_T inner))
      else Err (definition_error (''unknown parameter type: '' @ s)))"
  by pat_completeness auto
termination
  by (relation "measure length")
    (auto simp: slice_def starts_with_def ends_with_def min_def dest!: arg_cong[of _ _ length]
      split: if_splits)

declare Type_parse.simps [simp del]

text \<open>\<open>Type::schema\<close>.\<close>

fun Type_schema :: "ptype \<Rightarrow> json" where
  "Type_schema String_T = json_obj [(''type'', JString ''string'')]"
| "Type_schema Boolean_T = json_obj [(''type'', JString ''boolean'')]"
| "Type_schema Int64_T = json_obj [(''type'', JString ''integer''), (''format'', JString ''int64''),
     (''minimum'', JNumber (number_of_i64 (- (2 ^ 63)))),
     (''maximum'', JNumber (number_of_i64 (2 ^ 63 - 1)))]"
| "Type_schema Float64_T = json_obj [(''type'', JString ''number''), (''format'', JString ''double'')]"
| "Type_schema (Array_T t) = json_obj [(''type'', JString ''array''), (''items'', Type_schema t)]"
| "Type_schema (Nullable_T t) =
     json_obj [(''anyOf'', JArray [Type_schema t, json_obj [(''type'', JString ''null'')]])]"

text \<open>\<open>Type::check\<close>.\<close>

fun Type_check :: "ptype \<Rightarrow> json \<Rightarrow> bool" where
  "Type_check String_T v = (as_str v \<noteq> None)"
| "Type_check Boolean_T v = (as_bool v \<noteq> None)"
| "Type_check Int64_T v = (as_i64 v \<noteq> None)"
| "Type_check Float64_T v = (case as_f64 v of Some x \<Rightarrow> is_finite x | None \<Rightarrow> False)"
| "Type_check (Array_T t) v = (case as_array v of Some xs \<Rightarrow> list_all (Type_check t) xs | None \<Rightarrow> False)"
| "Type_check (Nullable_T t) v = (v = JNull \<or> Type_check t v)"


section \<open>Parameters\<close>

fun is_identifier :: "string \<Rightarrow> bool" where
  "is_identifier [] = False"
| "is_identifier (c # cs) = ((is_ascii_alphabetic c \<or> c = CHR ''_'') \<and>
     list_all (\<lambda>c. is_ascii_alphanumeric c \<or> c = CHR ''_'') cs)"

record parameter =
  p_source :: string
  p_fields :: "string list"
  p_ty :: ptype

text \<open>\<open>Parameter::parse\<close>.\<close>

definition Parameter_parse :: "string \<Rightarrow> parameter result" where
  "Parameter_parse s =
     and_then (ok_or (definition_error ''parameter type is required'') (split_once CHR '':'' s))
       (\<lambda>(path, ty_text).
          let parts = split_on CHR ''.'' path;
              source = hd parts;
              fields = tl parts
          in and_then (Type_parse ty_text) (\<lambda>ty.
               if source \<notin> {''path'', ''query'', ''body''} \<or> fields = []
                  \<or> list_ex (\<lambda>f. \<not> is_identifier f) fields
               then Err (definition_error (''invalid parameter path: '' @ path))
               else if source \<noteq> ''body'' \<and> (length fields \<noteq> 1 \<or> \<not> scalar ty)
               then Err (definition_error ''path/query require one scalar field'')
               else Ok \<lparr>p_source = source, p_fields = fields, p_ty = ty\<rparr>))"

text \<open>\<open>Parameter::path\<close>.\<close>

definition Parameter_path :: "parameter \<Rightarrow> string" where
  "Parameter_path p = p_source p @ ''.'' @ join ''.'' (p_fields p)"


section \<open>Request input\<close>

record input =
  in_path :: "(string \<times> string) list"
  in_query :: "(string \<times> string) list"
  in_body :: json

text \<open>
  The library calls of this module. \<open>lib_from_str\<close> is \<open>serde_json::from_str::<Value>\<close>;
  \<open>lib_visit\<close> parses a document and yields the visitor calls; \<open>lib_percent_decode\<close> is
  \<open>percent_decode_str(..).decode_utf8()\<close>; \<open>lib_form_parse\<close> is
  \<open>url::form_urlencoded::parse\<close>.
\<close>

record params_libs =
  lib_from_str :: "string \<Rightarrow> json option"
  lib_visit :: "string \<Rightarrow> raw option"
  lib_percent_decode :: "string \<Rightarrow> string option"
  lib_form_parse :: "string \<Rightarrow> (string \<times> string) list"

definition parameter_missing :: "string \<Rightarrow> sqlrest_error" where
  "parameter_missing path = parameter_error ''parameter_missing'' path ''Required parameter is missing''"

definition parameter_mismatch :: "string \<Rightarrow> sqlrest_error" where
  "parameter_mismatch path =
     parameter_error ''parameter_type_mismatch'' path ''Parameter does not match its declared type''"

fun descend :: "string \<Rightarrow> string list \<Rightarrow> json \<Rightarrow> json result" where
  "descend path [] v = Ok v"
| "descend path (f # fs) v =
     and_then (ok_or (parameter_mismatch path) (as_object v)) (\<lambda>m.
       and_then (ok_or (parameter_missing path) (map_of m f)) (descend path fs))"

definition read_text :: "params_libs \<Rightarrow> string \<Rightarrow> ptype \<Rightarrow> string \<Rightarrow> json result" where
  "read_text libs path ty text =
     (let mismatch = parameter_mismatch path in
      case ty of
        String_T \<Rightarrow> Ok (JString text)
      | Boolean_T \<Rightarrow>
          if text = ''true'' then Ok (JBool True)
          else if text = ''false'' then Ok (JBool False)
          else Err mismatch
      | Int64_T \<Rightarrow>
          (let digits = (case strip_prefix ''-'' text of Some d \<Rightarrow> d | None \<Rightarrow> text) in
           if digits = [] \<or> \<not> list_all is_ascii_digit digits then Err mismatch
           else and_then (ok_or mismatch (parse_i64 text)) (\<lambda>n. Ok (JNumber (number_of_i64 n))))
      | Float64_T \<Rightarrow>
          if trim text \<noteq> text then Err mismatch
          else and_then (ok_or mismatch (lib_from_str libs text)) (\<lambda>v.
            case v of
              JNumber _ \<Rightarrow> if \<not> Type_check ty v then Err mismatch else Ok v
            | _ \<Rightarrow> Err mismatch)
      | _ \<Rightarrow> Panic)"

text \<open>\<open>Parameter::read\<close>.\<close>

definition Parameter_read :: "params_libs \<Rightarrow> parameter \<Rightarrow> input \<Rightarrow> json result" where
  "Parameter_read libs p request =
     (let path = Parameter_path p in
      if p_source p = ''body'' then
        and_then (descend path (p_fields p) (in_body request)) (\<lambda>v.
          if Type_check (p_ty p) v then Ok v else Err (parameter_mismatch path))
      else
        let m = (if p_source p = ''path'' then in_path request else in_query request) in
        case p_fields p of
          [] \<Rightarrow> Panic
        | f # _ \<Rightarrow> and_then (ok_or (parameter_missing path) (map_of m f))
                     (read_text libs path (p_ty p)))"

text \<open>The percent-encoding scan shared by the query string and the request path.\<close>

fun percent_ok :: "string \<Rightarrow> bool" where
  "percent_ok [] = True"
| "percent_ok (c # cs) =
     ((c = CHR ''%'' \<longrightarrow>
        (case cs of a # b # _ \<Rightarrow> is_ascii_hexdigit a \<and> is_ascii_hexdigit b | _ \<Rightarrow> False))
      \<and> percent_ok cs)"

text \<open>\<open>Input::from_http\<close>.\<close>

definition Input_from_http :: "params_libs \<Rightarrow> string \<Rightarrow> string \<Rightarrow> input result" where
  "Input_from_http libs query body =
     (if \<not> percent_ok query
      then Err (new_error 400 ''invalid_query'' ''Invalid query percent encoding'')
      else and_then (ok_or (new_error 400 ''invalid_query'' ''Query is not valid UTF-8'')
             (lib_percent_decode libs query)) (\<lambda>_.
        and_then (ok_or (new_error 400 ''duplicate_parameter'' ''Duplicate query parameter'')
             (collect_unique (lib_form_parse libs query) [])) (\<lambda>fields.
          and_then
            (if body = [] then Ok (JObject [])
             else ok_or (new_error 400 ''invalid_json'' ''Invalid JSON or duplicate object key'')
                    (Option.bind (lib_visit libs body) unique_json)) (\<lambda>b.
            Ok \<lparr>in_path = [], in_query = fields, in_body = b\<rparr>))))"


section \<open>Consistency of all references\<close>

definition compatible_check :: "parameter \<Rightarrow> parameter \<Rightarrow> unit result" where
  "compatible_check a b =
     (if p_source a \<noteq> p_source b then Ok ()
      else if p_fields a = p_fields b \<and> p_ty a \<noteq> p_ty b
      then Err (definition_error ''conflicting parameter types'')
      else if p_fields a \<noteq> p_fields b
           \<and> (prefix (p_fields b) (p_fields a) \<or> prefix (p_fields a) (p_fields b))
      then Err (definition_error ''parameter is both a value and an object parent'')
      else Ok ())"

fun validate_from :: "parameter list \<Rightarrow> parameter list \<Rightarrow> unit result" where
  "validate_from seen [] = Ok ()"
| "validate_from seen (a # rest) =
     and_then (try_each (compatible_check a) seen) (\<lambda>_. validate_from (seen @ [a]) rest)"

definition validate_parameters :: "parameter list \<Rightarrow> unit result" where
  "validate_parameters params = validate_from [] params"



section \<open>Facts about numbers\<close>

lemma is_finite_iff: "is_finite x \<longleftrightarrow> (unat x div 2 ^ 52) mod 2048 \<noteq> 2047"
proof -
  have "drop_bit 52 x AND 2047 = take_bit 11 (drop_bit 52 x)"
    by (simp add: take_bit_eq_mask mask_eq_exp_minus_1)
  moreover have "unat (take_bit 11 (drop_bit 52 x)) = (unat x div 2 ^ 52) mod 2 ^ 11"
    by (simp only: unsigned_take_bit_eq unsigned_drop_bit_eq)
      (simp add: take_bit_eq_mod drop_bit_eq_div mod_less[OF unsigned_less[of x, where 'a = nat, simplified]])
  ultimately have "unat (drop_bit 52 x AND 2047) = (unat x div 2 ^ 52) mod 2048"
    by simp
  then show ?thesis unfolding is_finite_def by (auto simp: word_unat_eq_iff)
qed
lemma floor_log2_bounds: "0 < n \<Longrightarrow> 2 ^ floor_log2 n \<le> n \<and> n < 2 ^ Suc (floor_log2 n)"
proof (induction n rule: floor_log2.induct)
  case (1 n)
  show ?case
  proof (cases "n \<le> 1")
    case True
    with 1 show ?thesis by (simp add: floor_log2.simps[of n])
  next
    case False
    with 1 have "2 ^ floor_log2 (n div 2) \<le> n div 2 \<and> n div 2 < 2 ^ Suc (floor_log2 (n div 2))"
      by simp
    then have "2 * 2 ^ floor_log2 (n div 2) \<le> n \<and> n < 4 * 2 ^ floor_log2 (n div 2)"
      by auto
    with False show ?thesis by (simp add: floor_log2.simps[of n])
  qed
qed

lemma f64_of_mag_bound:
  assumes "n < 2 ^ 64"
  shows "f64_of_mag n \<le> 1087 * 2 ^ 52"
proof (cases "n = 0")
  case False
  define e where "e = floor_log2 n"
  have b: "2 ^ e \<le> n" "n < 2 ^ Suc e" using floor_log2_bounds[of n] False by (auto simp: e_def)
  have e: "e \<le> 63"
  proof (rule ccontr)
    assume "\<not> e \<le> 63"
    then have "(2::nat) ^ 64 \<le> 2 ^ e" by (intro power_increasing) auto
    with b assms show False by linarith
  qed
  define q where "q = (if e \<le> 52 then n * 2 ^ (52 - e)
      else let d = 2 ^ (e - 52); q = n div d; r = n mod d
           in if d < 2 * r \<or> (d = 2 * r \<and> odd q) then q + 1 else q)"
  have "q \<le> 2 ^ 53"
  proof (cases "e \<le> 52")
    case True
    have "n * 2 ^ (52 - e) \<le> 2 ^ Suc e * 2 ^ (52 - e)" using b by (intro mult_right_mono) auto
    also have "\<dots> = 2 ^ 53" using True by (simp flip: power_add)
    finally show ?thesis using True by (simp add: q_def)
  next
    case False
    have "(2::nat) ^ 53 * 2 ^ (e - 52) = 2 ^ (53 + (e - 52))" by (rule power_add[symmetric])
    also have "53 + (e - 52) = Suc e" using False by simp
    finally have "n < 2 ^ 53 * 2 ^ (e - 52)" using b by simp
    then have "n div 2 ^ (e - 52) < 2 ^ 53" by (simp add: less_mult_imp_div_less)
    then show ?thesis using False by (auto simp: q_def Let_def)
  qed
  moreover have "f64_of_mag n = (e + 1023) * 2 ^ 52 + (q - 2 ^ 52)"
    using False by (simp add: f64_of_mag_def e_def q_def Let_def)
  ultimately show ?thesis using e by simp
qed (simp add: f64_of_mag_def)

lemma number_as_f64_finite: "number_wf n \<Longrightarrow> is_finite (number_as_f64 n)"
proof -
  have small: "is_finite (of_nat k)" "is_finite (of_nat (2 ^ 63 + k))" if "k \<le> 1087 * 2 ^ 52" for k
  proof -
    have "k div 2 ^ 52 \<le> 1087" using that by (simp add: div_le_mono)
    moreover have "(2 ^ 63 + k) div 2 ^ 52 = 2048 + k div 2 ^ 52" by simp
    moreover have "unat (of_nat k :: f64) = k" "unat (of_nat (2 ^ 63 + k) :: f64) = 2 ^ 63 + k"
      using that by (simp_all only: unat_of_nat) simp_all
    ultimately show "is_finite (of_nat k)" "is_finite (of_nat (2 ^ 63 + k))"
      by (simp_all only: is_finite_iff) simp_all
  qed
  assume wf: "number_wf n"
  show ?thesis
  proof (cases n)
    case (PosInt m)
    then show ?thesis using small(1)[OF f64_of_mag_bound[of "unat m"]] unsigned_less[of m, where 'a = nat] by simp
  next
    case (NegInt m)
    have "nat (- sint m) \<le> 2 ^ 63" using sint_greater_eq[of m] by simp
    then have "nat (- sint m) < 2 ^ 64" by simp
    then show ?thesis using NegInt small(2)[OF f64_of_mag_bound] by simp
  next
    case (Float x)
    then show ?thesis using wf by simp
  qed
qed


section \<open>The syntax of types and parameters\<close>

text \<open>The reference: which types exist, and how one is written.\<close>

fun wf_type :: "ptype \<Rightarrow> bool" where
  "wf_type (Array_T t) = scalar t"
| "wf_type (Nullable_T t) = (\<not> is_nullable t \<and> wf_type t)"
| "wf_type _ = True"

fun type_text :: "ptype \<Rightarrow> string" where
  "type_text String_T = ''string''"
| "type_text Boolean_T = ''boolean''"
| "type_text Int64_T = ''int64''"
| "type_text Float64_T = ''float64''"
| "type_text (Array_T t) = ''array<'' @ type_text t @ ''>''"
| "type_text (Nullable_T t) = ''nullable<'' @ type_text t @ ''>''"

lemma enclosed:
  assumes "starts_with s p" "ends_with s [c]" "p \<noteq> []" "last p \<noteq> c"
  shows "s = p @ slice (length p) (length s - 1) s @ [c]"
proof -
  obtain r where r: "s = p @ r" using assms(1) by (auto simp: str_simps prefix_def)
  have "r \<noteq> []" using assms r by (auto simp: str_simps suffix_def)
  then obtain r' d where "r = r' @ [d]" by (metis rev_exhaust)
  then show ?thesis using r assms(2) by (auto simp: slice_def str_simps suffix_def)
qed

lemma scalar_wf: "scalar t \<Longrightarrow> wf_type t"
  by (cases t) auto

lemma Type_parse_Array:
  "Type_parse (''array<'' @ u @ ''>'') =
     and_then (Type_parse u) (\<lambda>inner.
       if \<not> scalar inner then Err (definition_error ''array elements must be non-null scalars'')
       else Ok (Array_T inner))"
  by (subst Type_parse.simps) (simp add: slice_def str_simps suffix_def numeral_eq_Suc)

lemma Type_parse_Nullable:
  "Type_parse (''nullable<'' @ u @ ''>'') =
     and_then (Type_parse u) (\<lambda>inner.
       if is_nullable inner then Err (definition_error ''nested nullable is not supported'')
       else Ok (Nullable_T inner))"
  by (subst Type_parse.simps) (simp add: slice_def str_simps suffix_def numeral_eq_Suc)

lemma Type_parse_text: "wf_type t \<Longrightarrow> Type_parse (type_text t) = Ok t"
proof (induction t)
  case (Array_T t)
  then show ?case using Type_parse_Array[of "type_text t"] by (simp add: scalar_wf)
next
  case (Nullable_T t)
  then show ?case using Type_parse_Nullable[of "type_text t"] by simp
qed (simp_all add: Type_parse.simps)

lemma Type_parse_sound: "Type_parse s = Ok t \<Longrightarrow> wf_type t \<and> type_text t = s"
proof (induction s arbitrary: t rule: Type_parse.induct)
  case (1 s)
  consider "s \<in> {''string'', ''boolean'', ''int64'', ''float64''}"
    | (array) "starts_with s ''array<''" "ends_with s ''>''" "s \<notin> {''string'', ''boolean'', ''int64'', ''float64''}"
    | (nullable) "\<not> (starts_with s ''array<'' \<and> ends_with s ''>'')"
        "starts_with s ''nullable<''" "ends_with s ''>''" "s \<notin> {''string'', ''boolean'', ''int64'', ''float64''}"
    using "1.prems" by (subst (asm) Type_parse.simps) (auto split: if_splits)
  then show ?case
  proof cases
    case 1
    then show ?thesis using "1.prems" by (auto simp: Type_parse.simps)
  next
    case array
    let ?u = "slice 6 (length s - 1) s"
    have s: "s = ''array<'' @ ?u @ ''>''" using enclosed[OF array(1,2)] by (simp add: numeral_eq_Suc)
    obtain t' where t': "Type_parse ?u = Ok t'" "scalar t'" "t = Array_T t'"
      using "1.prems" array by (subst (asm) Type_parse.simps) (auto simp: outcome_simps split: if_splits)
    have "type_text t' = ?u" using "1.IH"(1) array t' by simp
    then show ?thesis using s t' by simp
  next
    case nullable
    let ?u = "slice 9 (length s - 1) s"
    have s: "s = ''nullable<'' @ ?u @ ''>''" using enclosed[OF nullable(2,3)] by (simp add: numeral_eq_Suc)
    obtain t' where t': "Type_parse ?u = Ok t'" "\<not> is_nullable t'" "t = Nullable_T t'"
      using "1.prems" nullable by (subst (asm) Type_parse.simps) (auto simp: outcome_simps split: if_splits)
    have "type_text t' = ?u \<and> wf_type t'" using "1.IH"(2) nullable t' by simp
    then show ?thesis using s t' by simp
  qed
qed

interpretation type_codec: canonical_codec type_text Type_parse wf_type
  by unfold_locales (auto simp: Type_parse_text dest: Type_parse_sound)

lemma Type_parse_not_Panic: "Type_parse s \<noteq> Panic"
  by (induction s rule: Type_parse.induct)
    (subst Type_parse.simps, auto simp: outcome_simps split: if_splits)

definition wf_parameter :: "parameter \<Rightarrow> bool" where
  "wf_parameter p \<longleftrightarrow> p_source p \<in> {''path'', ''query'', ''body''} \<and> p_fields p \<noteq> []
     \<and> list_all is_identifier (p_fields p) \<and> wf_type (p_ty p)
     \<and> (p_source p \<noteq> ''body'' \<longrightarrow> length (p_fields p) = 1 \<and> scalar (p_ty p))"

definition parameter_text :: "parameter \<Rightarrow> string" where
  "parameter_text p = Parameter_path p @ '':'' @ type_text (p_ty p)"

lemma identifier_chars:
  "is_identifier s \<Longrightarrow> CHR ''.'' \<notin> set s \<and> CHR '':'' \<notin> set s"
  by (cases s) (auto simp: list_all_iff ascii_defs)

lemma Parameter_path_split:
  assumes "wf_parameter p"
  shows "split_on CHR ''.'' (Parameter_path p) = p_source p # p_fields p"
    and "CHR '':'' \<notin> set (Parameter_path p)"
proof -
  have src: "CHR ''.'' \<notin> set (p_source p)" "CHR '':'' \<notin> set (p_source p)"
    using assms by (auto simp: wf_parameter_def)
  have flds: "\<forall>f \<in> set (p_fields p). CHR ''.'' \<notin> set f \<and> CHR '':'' \<notin> set f"
    using assms identifier_chars by (auto simp: wf_parameter_def list_all_iff)
  show "split_on CHR ''.'' (Parameter_path p) = p_source p # p_fields p"
    using src flds assms split_on_append split_on_join
    by (simp add: Parameter_path_def wf_parameter_def)
  show "CHR '':'' \<notin> set (Parameter_path p)"
    using src flds set_join[of "''.''" "p_fields p"] by (auto simp: Parameter_path_def)
qed

lemma Parameter_parse_text: "wf_parameter p \<Longrightarrow> Parameter_parse (parameter_text p) = Ok p"
proof -
  assume wf: "wf_parameter p"
  have "split_once CHR '':'' (parameter_text p) = Some (Parameter_path p, type_text (p_ty p))"
    using Parameter_path_split(2)[OF wf] by (simp add: split_once_iff parameter_text_def)
  moreover have "Type_parse (type_text (p_ty p)) = Ok (p_ty p)"
    using wf by (simp add: Type_parse_text wf_parameter_def)
  ultimately show ?thesis
    using wf Parameter_path_split(1)[OF wf]
    by (auto simp: Parameter_parse_def Let_def wf_parameter_def list_ex_iff list_all_iff)
qed

lemma Parameter_parse_sound: "Parameter_parse s = Ok p \<Longrightarrow> wf_parameter p \<and> parameter_text p = s"
proof -
  assume ok: "Parameter_parse s = Ok p"
  then obtain path ty_text where 1: "split_once CHR '':'' s = Some (path, ty_text)"
    by (auto simp: Parameter_parse_def outcome_simps)
  with ok obtain ty where 2: "Type_parse ty_text = Ok ty"
    by (auto simp: Parameter_parse_def outcome_simps Let_def)
  have 3: "wf_type ty" "type_text ty = ty_text" using Type_parse_sound[OF 2] by auto
  have p: "p = \<lparr>p_source = hd (split_on CHR ''.'' path), p_fields = tl (split_on CHR ''.'' path), p_ty = ty\<rparr>"
    using ok 1 2 by (simp add: Parameter_parse_def Let_def split: if_splits)
  have wf: "p_source p \<in> {''path'', ''query'', ''body''}" "p_fields p \<noteq> []"
      "list_all is_identifier (p_fields p)"
      "p_source p \<noteq> ''body'' \<longrightarrow> length (p_fields p) = 1 \<and> scalar ty"
    using ok 1 2 p
    by (simp_all add: Parameter_parse_def Let_def list_ex_iff list_all_iff split: if_splits) blast
  have "join ''.'' (p_source p # p_fields p) = path"
    using p join_split_on[of "CHR ''.''" path] by (cases "split_on CHR ''.'' path") auto
  then have "Parameter_path p = path"
    using wf(2) by (cases "p_fields p") (auto simp: Parameter_path_def)
  then show ?thesis using 1 3 p wf by (simp add: wf_parameter_def parameter_text_def split_once_iff)
qed

interpretation parameter_codec: canonical_codec parameter_text Parameter_parse wf_parameter
  by unfold_locales (auto simp: Parameter_parse_text dest: Parameter_parse_sound)


section \<open>Reading parameters\<close>

lemma read_text_check: "read_text libs path ty text = Ok v \<Longrightarrow> Type_check ty v"
  by (cases ty) (auto simp: read_text_def Let_def outcome_simps split: if_splits json.splits)

lemma Parameter_read_check: "Parameter_read libs p i = Ok v \<Longrightarrow> Type_check (p_ty p) v"
  by (auto simp: Parameter_read_def Let_def outcome_simps dest: read_text_check
      split: if_splits list.splits)

lemma descend_not_Panic: "descend path fs v \<noteq> Panic"
  by (induction path fs v rule: descend.induct) (auto simp: outcome_simps)

lemma read_text_not_Panic: "scalar ty \<Longrightarrow> read_text libs path ty text \<noteq> Panic"
  by (cases ty) (auto simp: read_text_def Let_def outcome_simps split: if_splits json.splits)

lemma Parameter_read_not_Panic: "wf_parameter p \<Longrightarrow> Parameter_read libs p i \<noteq> Panic"
  by (auto simp: Parameter_read_def Let_def outcome_simps wf_parameter_def descend_not_Panic
      read_text_not_Panic split: list.splits)

text \<open>The reference for textual integers: an optional minus sign and decimal digits.\<close>

definition decimal_int :: "string \<Rightarrow> int option" where
  "decimal_int s =
     (let (neg, d) = (case strip_prefix ''-'' s of Some d \<Rightarrow> (True, d) | None \<Rightarrow> (False, s))
      in if d = [] \<or> \<not> list_all is_ascii_digit d then None
         else Some (if neg then - int (decimal_value d) else int (decimal_value d)))"

lemma parse_i64_decimal:
  assumes "decimal_int s = Some n"
  shows "parse_i64 s = (if - (2 ^ 63) \<le> n \<and> n < 2 ^ 63 then Some (word_of_int n) else None)"
proof (cases s)
  case (Cons c cs)
  have "c \<noteq> CHR ''+''" using assms Cons
    by (auto simp: decimal_int_def strip_prefix_def starts_with_def ascii_defs split: if_splits)
  then show ?thesis
    using assms Cons
    by (cases "c = CHR ''-''")
      (auto simp: decimal_int_def parse_i64_def strip_prefix_def starts_with_def Let_def split: if_splits)
qed (use assms in \<open>simp add: decimal_int_def strip_prefix_def starts_with_def\<close>)

lemma sint_word_of_int: "- (2 ^ 63) \<le> n \<Longrightarrow> n < 2 ^ 63 \<Longrightarrow> sint (word_of_int n :: i64) = n"
  by (simp add: signed_take_bit_int_eq_self_iff sint_sbintrunc')

lemma read_text_int64_iff:
  "read_text libs path Int64_T text = Ok v \<longleftrightarrow>
     (\<exists>w :: i64. decimal_int text = Some (sint w) \<and> v = JNumber (number_of_i64 w))"
proof -
  have digits: "(let digits = (case strip_prefix ''-'' text of Some d \<Rightarrow> d | None \<Rightarrow> text)
      in digits = [] \<or> \<not> list_all is_ascii_digit digits) \<longleftrightarrow> decimal_int text = None"
    by (auto simp: decimal_int_def split: option.splits)
  have range: "- (2 ^ 63) \<le> sint w" "sint w < 2 ^ 63" for w :: i64
    using sint_greater_eq[of w] sint_less[of w] by simp_all
  have word_of_sint: "word_of_int (sint w) = w" for w :: i64 by simp
  show ?thesis
  proof (cases "decimal_int text")
    case None
    then show ?thesis using digits by (simp add: read_text_def Let_def)
  next
    case (Some n)
    then have "read_text libs path Int64_T text =
        and_then (ok_or (parameter_mismatch path) (parse_i64 text)) (\<lambda>n. Ok (JNumber (number_of_i64 n)))"
      using digits by (simp add: read_text_def Let_def)
    then have "read_text libs path Int64_T text = Ok v \<longleftrightarrow>
        - (2 ^ 63) \<le> n \<and> n < 2 ^ 63 \<and> v = JNumber (number_of_i64 (word_of_int n))"
      using parse_i64_decimal[OF Some] by (auto simp: outcome_simps split: if_splits)
    moreover have "\<dots> \<longleftrightarrow> (\<exists>w :: i64. n = sint w \<and> v = JNumber (number_of_i64 w))"
      using range sint_word_of_int[of n] word_of_sint by metis
    ultimately show ?thesis using Some by simp
  qed
qed

section \<open>Consistency of references\<close>

text \<open>The reference: no type conflict, and no field that is both a value and a parent.\<close>

definition conflict_free :: "parameter list \<Rightarrow> bool" where
  "conflict_free ps \<longleftrightarrow> (\<forall>a \<in> set ps. \<forall>b \<in> set ps. p_source a = p_source b \<longrightarrow>
     (p_fields a = p_fields b \<longrightarrow> p_ty a = p_ty b) \<and>
     (prefix (p_fields a) (p_fields b) \<longrightarrow> p_fields a = p_fields b))"

lemma compatible_check_Ok: "compatible_check a b = Ok u \<longleftrightarrow> (p_source a = p_source b \<longrightarrow>
     (p_fields a = p_fields b \<longrightarrow> p_ty a = p_ty b) \<and>
     (prefix (p_fields a) (p_fields b) \<or> prefix (p_fields b) (p_fields a) \<longrightarrow> p_fields a = p_fields b))"
  by (auto simp: compatible_check_def)

lemma compatible_check_sym: "compatible_check a b = Ok () \<longleftrightarrow> compatible_check b a = Ok ()"
  unfolding compatible_check_Ok by metis

lemma conflict_free_alt:
  "conflict_free ps \<longleftrightarrow> (\<forall>a \<in> set ps. \<forall>b \<in> set ps. compatible_check a b = Ok ())"
  unfolding compatible_check_Ok conflict_free_def by metis

lemma compatible_check_refl [simp]: "compatible_check a a = Ok ()"
  by (simp add: compatible_check_def)

lemma validate_from_iff:
  "conflict_free seen \<Longrightarrow> validate_from seen rest = Ok u \<longleftrightarrow> conflict_free (seen @ rest)"
proof (induction rest arbitrary: seen)
  case (Cons a rest)
  have "conflict_free (seen @ [a]) \<longleftrightarrow> (\<forall>b \<in> set seen. compatible_check a b = Ok ())"
    using Cons.prems compatible_check_sym[of a] by (auto simp: conflict_free_alt)
  moreover have "conflict_free (seen @ a # rest) \<Longrightarrow> conflict_free (seen @ [a])"
    unfolding conflict_free_alt by simp
  ultimately show ?case using Cons.IH[of "seen @ [a]"] by (auto simp: outcome_simps)
qed simp

lemma validate_parameters_iff: "validate_parameters ps = Ok u \<longleftrightarrow> conflict_free ps"
  unfolding validate_parameters_def by (subst validate_from_iff) (simp_all add: conflict_free_def)

lemma validate_parameters_not_Panic: "validate_parameters ps \<noteq> Panic"
proof -
  have "validate_from seen ps \<noteq> Panic" for seen
  proof (induction ps arbitrary: seen)
    case (Cons a ps)
    have "try_each (compatible_check a) seen \<noteq> Panic"
      by (rule try_each_not_Panic) (simp add: compatible_check_def)
    with Cons show ?case by (auto simp: outcome_simps)
  qed simp
  then show ?thesis by (simp add: validate_parameters_def)
qed

lemma Input_from_http_iff:
  "Input_from_http libs query body = Ok i \<longleftrightarrow>
     percent_ok query \<and> lib_percent_decode libs query \<noteq> None \<and>
     distinct (map fst (lib_form_parse libs query)) \<and>
     in_path i = [] \<and> in_query i = bt_of_list (lib_form_parse libs query) \<and>
     (if body = [] then in_body i = JObject []
      else \<exists>r. lib_visit libs body = Some r \<and> raw_ok r \<and> in_body i = raw_value r)"
  by (cases i) (auto simp: Input_from_http_def outcome_simps collect_unique_iff unique_json_iff
      bind_eq_Some_conv split: if_splits)

text \<open>The scan means: every percent sign is followed by two hexadecimal digits.\<close>

lemma percent_ok_iff:
  "percent_ok s \<longleftrightarrow> (\<forall>i < length s. s ! i = CHR ''%'' \<longrightarrow>
     i + 2 < length s \<and> is_ascii_hexdigit (s ! (i + 1)) \<and> is_ascii_hexdigit (s ! (i + 2)))"
proof (induction s)
  case (Cons c cs)
  have "(\<forall>i < length (c # cs). P i) \<longleftrightarrow> P 0 \<and> (\<forall>i < length cs. P (Suc i))" for P
    by (metis Suc_less_eq length_Cons not0_implies_Suc zero_less_Suc)
  then show ?case using Cons.IH
    by (auto split: list.splits)
qed simp


section \<open>Properties\<close>

text \<open>\<open>Type::parse\<close> accepts exactly the texts of the supported types (scalars, arrays of
  scalars, and nullable non-nullable types), and reads each as the type it denotes.\<close>

theorem type_syntax: "Type_parse s = Ok t \<longleftrightarrow> wf_type t \<and> s = type_text t"
  by (rule type_codec.decode_iff)

text \<open>C38: \<open>Parameter::parse\<close> accepts exactly the references \<open>source.field...:type\<close> with a
  known source, identifier fields and, outside the body, one scalar field; the reference
  determines the parameter and the parameter its text.\<close>

theorem parameter_syntax: "Parameter_parse s = Ok p \<longleftrightarrow> wf_parameter p \<and> s = parameter_text p"
  by (rule parameter_codec.decode_iff)


text \<open>reading a parameter that was parsed never reaches \<open>unreachable!\<close> or an index out of
  range.\<close>

theorem parsed_parameter_read_total: "Parameter_parse s = Ok p \<Longrightarrow> Parameter_read libs p i \<noteq> Panic"
  using Parameter_parse_sound Parameter_read_not_Panic by blast

text \<open>C39: a textual \<open>int64\<close> is accepted exactly when it is an optionally signed decimal numeral
  whose value fits a signed 64-bit integer, and is read as that integer.\<close>

theorem int64_text_exact:
  "read_text libs path Int64_T text = Ok v \<longleftrightarrow>
     (\<exists>w :: i64. decimal_int text = Some (sint w) \<and> v = JNumber (number_of_i64 w))"
  by (rule read_text_int64_iff)

text \<open>\<open>validate_parameters\<close> accepts exactly the reference lists in which equal fields have
  equal types and no field path of a source properly extends another.\<close>

theorem parameters_conflict_free: "validate_parameters ps = Ok () \<longleftrightarrow> conflict_free ps"
  by (rule validate_parameters_iff)

text \<open>request input is accepted exactly when the query is well encoded and repeats no key
  and the body, if any, is a document that repeats no key at any depth; the input holds
  exactly the decoded query entries and the value of the body.\<close>

theorem input_from_http_exact:
  "Input_from_http libs query body = Ok i \<longleftrightarrow>
     percent_ok query \<and> lib_percent_decode libs query \<noteq> None \<and>
     distinct (map fst (lib_form_parse libs query)) \<and>
     in_path i = [] \<and> in_query i = bt_of_list (lib_form_parse libs query) \<and>
     (if body = [] then in_body i = JObject []
      else \<exists>r. lib_visit libs body = Some r \<and> raw_ok r \<and> in_body i = raw_value r)"
  by (rule Input_from_http_iff)

section \<open>Witnesses\<close>

definition example_libs :: params_libs where
  "example_libs = \<lparr>lib_from_str = (\<lambda>_. None), lib_visit = (\<lambda>_. None),
     lib_percent_decode = Some, lib_form_parse = (\<lambda>_. [])\<rparr>"

definition example_input :: input where
  "example_input = \<lparr>in_path = [], in_query = [(''id'', ''-7'')], in_body = JObject []\<rparr>"

definition example_parameter :: parameter where
  "example_parameter = \<lparr>p_source = ''query'', p_fields = [''id''], p_ty = Int64_T\<rparr>"

lemma example_read: "Parameter_read example_libs example_parameter example_input = Ok (JNumber (NegInt (- 7)))"
  by (simp add: Parameter_read_def example_parameter_def example_input_def read_text_def
      strip_prefix_def starts_with_def parse_i64_def ascii_defs decimal_value_def digit_value_def
      number_of_i64_def word_sless_alt)


lemma example_parse: "Parameter_parse ''query.id:int64'' = Ok example_parameter"
  by (simp add: Parameter_parse_def example_parameter_def Type_parse.simps ascii_defs)

theorem parsed_parameter_read_total_witness:
  "Parameter_read example_libs example_parameter example_input \<noteq> Panic"
  by (rule parsed_parameter_read_total[OF example_parse])

end
