(* ===== verification/Sql.thy ===== *)
theory Sql
  imports Params
begin

text \<open>
  \<^verbatim>\<open>src/sql.rs\<close>: splitting an SQL source into statements and replacing its typed
  references by positional parameters, then classifying the parsed statements. The
  tokenizer and the parser are \<open>sqlparser\<close>'s and are parameters.
\<close>

datatype backend = Turso | Postgres

record statement =
  s_sql :: string
  s_parameters :: "parameter list"
  s_returns_rows :: bool

section \<open>What the sources use of the SQL parser\<close>

text \<open>Tokens: those the code distinguishes, and any other with its \<open>Display\<close> text.\<close>

datatype token = SemiColon | Placeholder string | Colon | AtSign | Question | Other_token string

fun token_text :: "token \<Rightarrow> string" where
  "token_text SemiColon = '';''"
| "token_text (Placeholder p) = p"
| "token_text Colon = '':''"
| "token_text AtSign = ''@''"
| "token_text Question = ''?''"
| "token_text (Other_token t) = t"

datatype object_type = Table_object | View_object | Index_object | Other_object

text \<open>
  Statements: \<open>Query into\<close> tells whether the body is a \<open>SELECT ... INTO\<close>, the data
  modifying statements whether they have a \<open>RETURNING\<close> clause, \<open>CreateIndex\<close> whether it
  is \<open>CONCURRENTLY\<close>.
\<close>

datatype sql_kind =
    Query bool
  | Insert bool
  | Update bool
  | Delete bool
  | CreateTable
  | CreateView
  | AlterTable
  | CreateIndex bool
  | Drop object_type
  | Other_statement

text \<open>A parsed statement with the placeholder names of its value expressions, in visiting order.\<close>

record sql_ast =
  ast_kind :: sql_kind
  ast_placeholders :: "string list"

record sql_libs =
  lib_tokenize :: "backend \<Rightarrow> string \<Rightarrow> (string, token list) outcome"
  lib_parse_statements :: "backend \<Rightarrow> token list \<Rightarrow> (string, sql_ast list) outcome"

definition transaction_statement :: "sql_kind \<Rightarrow> bool" where
  "transaction_statement k =
     (case k of
        Query _ \<Rightarrow> True
      | Insert _ \<Rightarrow> True
      | Update _ \<Rightarrow> True
      | Delete _ \<Rightarrow> True
      | CreateTable \<Rightarrow> True
      | CreateView \<Rightarrow> True
      | AlterTable \<Rightarrow> True
      | CreateIndex concurrently \<Rightarrow> \<not> concurrently
      | Drop obj \<Rightarrow> obj \<in> {Table_object, Index_object, View_object}
      | Other_statement \<Rightarrow> False)"

definition returns_rows :: "sql_kind \<Rightarrow> bool" where
  "returns_rows k =
     (case k of
        Query into \<Rightarrow> \<not> into
      | Insert returning \<Rightarrow> returning
      | Delete returning \<Rightarrow> returning
      | Update returning \<Rightarrow> returning
      | _ \<Rightarrow> False)"


section \<open>Scanning the source\<close>

text \<open>
  One iteration of the scanning loop recognizes one lexeme: text that is copied, a typed
  reference \<open>${...}\<close>, a statement separator, or PostgreSQL's \<open>?\<close> operator (with a flag
  for the blank inserted after it in the rewritten text).
\<close>

datatype lexeme = Verbatim string | Reference string | Separator | Question_op bool

text \<open>Bytes up to the end of a block comment, nested \<open>depth\<close> deep.\<close>

function comment_end :: "nat \<Rightarrow> string \<Rightarrow> nat option" where
  "comment_end depth s =
     (if depth = 0 then Some 0
      else if s = [] then None
      else if starts_with s ''/*'' then map_option ((+) 2) (comment_end (Suc depth) (drop 2 s))
      else if starts_with s ''*/'' then map_option ((+) 2) (comment_end (depth - 1) (drop 2 s))
      else map_option Suc (comment_end depth (tl s)))"
  by pat_completeness auto
termination
  by (relation "measure (\<lambda>(d, s). length s)") (auto simp: neq_Nil_conv)

declare comment_end.simps [simp del]

text \<open>Bytes from after an opening quote to after the closing one; a doubled quote stands for itself.\<close>

fun quote_end :: "bool \<Rightarrow> char \<Rightarrow> string \<Rightarrow> nat option" where
  "quote_end escaped q [] = None"
| "quote_end escaped q (c # cs) =
     (if escaped \<and> c = CHR 0x5C then
        (case cs of [] \<Rightarrow> None | _ # ds \<Rightarrow> map_option ((+) 2) (quote_end escaped q ds))
      else if c = q then
        (case cs of
           [] \<Rightarrow> Some 1
         | d # ds \<Rightarrow> if d = q then map_option ((+) 2) (quote_end escaped q ds) else Some 1)
      else map_option Suc (quote_end escaped q cs))"

text \<open>\<open>str::find\<close> with a string pattern: the offset of the first occurrence.\<close>

fun find_str :: "string \<Rightarrow> string \<Rightarrow> nat option" where
  "find_str p [] = (if p = [] then Some 0 else None)"
| "find_str p (c # cs) =
     (if starts_with (c # cs) p then Some 0 else map_option Suc (find_str p cs))"

definition tag_char :: "char \<Rightarrow> bool" where
  "tag_char c \<longleftrightarrow> is_ascii_alphanumeric c \<or> c = CHR ''_''"

text \<open>
  The branches of the loop body, in the order of the code. The result is the lexeme at the
  start of the (nonempty) rest of the source; \<open>prev\<close> is the byte before it, if any.
\<close>

definition next_lexeme :: "backend \<Rightarrow> char option \<Rightarrow> string \<Rightarrow> lexeme result" where
  "next_lexeme b prev s =
     (let c = hd s; verbatim = (\<lambda>n. Verbatim (take n s)) in
      if starts_with s ''--'' then
        Ok (verbatim (2 + length (takeWhile (\<lambda>c. c \<noteq> CHR 0x0A) (drop 2 s))))
      else if starts_with s ''/*'' then
        (case comment_end 1 (drop 2 s) of
           None \<Rightarrow> Err (definition_error ''unterminated comment'')
         | Some n \<Rightarrow> Ok (verbatim (2 + n)))
      else if c \<in> {CHR 0x27, CHR 0x22, CHR 0x60} \<or> (b = Turso \<and> c = CHR ''['') then
        (let q = (if c = CHR ''['' then CHR '']'' else c);
             escaped = (b = Postgres \<and> q = CHR 0x27 \<and> prev \<in> {Some CHR ''e'', Some CHR ''E''})
         in case quote_end escaped q (tl s) of
              None \<Rightarrow> Err (definition_error ''unterminated quoted SQL'')
            | Some n \<Rightarrow> Ok (verbatim (1 + n)))
      else if starts_with s ''${'' then
        (case find_str ''}'' (drop 2 s) of
           None \<Rightarrow> Err (definition_error ''unterminated parameter'')
         | Some n \<Rightarrow> Ok (Reference (take n (drop 2 s))))
      else if c = CHR ''$'' \<and> b = Postgres then
        (let tag = takeWhile tag_char (tl s); rest = dropWhile tag_char (tl s) in
         if rest \<noteq> [] \<and> hd rest = CHR ''$'' \<and> (tag = [] \<or> \<not> is_ascii_digit (hd tag)) then
           (let delimiter = ''$'' @ tag @ ''$'' in
            case find_str delimiter (tl rest) of
              None \<Rightarrow> Err (definition_error ''unterminated dollar quote'')
            | Some close \<Rightarrow> Ok (verbatim (length delimiter + close + length delimiter)))
         else Err (definition_error ''native or invalid SQL parameter''))
      else if c = CHR '';'' then Ok Separator
      else if b = Postgres \<and> c = CHR ''?'' then
        Ok (Question_op (tl s = [] \<or> hd (tl s) \<notin> {CHR ''|'', CHR ''&'', CHR ''-'', CHR ''#''}))
      else if c = CHR ''$'' then Err (definition_error ''native SQL parameter'')
      else Ok (verbatim 1))"

fun lexeme_source :: "lexeme \<Rightarrow> string" where
  "lexeme_source (Verbatim t) = t"
| "lexeme_source (Reference t) = ''${'' @ t @ ''}''"
| "lexeme_source Separator = '';''"
| "lexeme_source (Question_op _) = ''?''"

text \<open>The local variables of the scanning loop.\<close>

record scan_state =
  sc_rewritten :: string
  sc_parameters :: "parameter list"
  sc_original :: string
  sc_originals :: "string list"
  sc_local_parameters :: nat

definition internal_prefix :: string where
  "internal_prefix = ''$sqlrest_internal_''"

definition scan_step :: "lexeme \<Rightarrow> scan_state \<Rightarrow> scan_state result" where
  "scan_step l st =
     (case l of
        Verbatim t \<Rightarrow> Ok (st\<lparr>sc_rewritten := sc_rewritten st @ t, sc_original := sc_original st @ t\<rparr>)
      | Reference t \<Rightarrow>
          and_then (Parameter_parse t) (\<lambda>p.
            let ps = sc_parameters st @ [p]; n = sc_local_parameters st + 1 in
            Ok (st\<lparr>sc_parameters := ps,
                  sc_rewritten := sc_rewritten st @ internal_prefix @ show_nat (length ps),
                  sc_local_parameters := n,
                  sc_original := sc_original st @ ''$'' @ show_nat n\<rparr>))
      | Separator \<Rightarrow>
          Ok (st\<lparr>sc_originals := sc_originals st @ [sc_original st], sc_original := [],
                sc_local_parameters := 0, sc_rewritten := sc_rewritten st @ '';''\<rparr>)
      | Question_op blank \<Rightarrow>
          Ok (st\<lparr>sc_original := sc_original st @ ''?'',
                sc_rewritten := sc_rewritten st @ ''?'' @ (if blank then '' '' else [])\<rparr>))"

lemma next_lexeme_progress:
  "next_lexeme b prev s = Ok l \<Longrightarrow> s \<noteq> [] \<Longrightarrow> 0 < length (lexeme_source l)"
  by (auto simp: next_lexeme_def Let_def split: if_splits option.splits)

function scan :: "backend \<Rightarrow> char option \<Rightarrow> string \<Rightarrow> scan_state \<Rightarrow> scan_state result" where
  "scan b prev s st =
     (if s = [] then Ok st
      else and_then (next_lexeme b prev s) (\<lambda>l.
        and_then (scan_step l st) (\<lambda>st'.
          scan b (Some (last (lexeme_source l))) (drop (length (lexeme_source l)) s) st')))"
  by pat_completeness auto
termination
  by (relation "measure (\<lambda>(b, prev, s, st). length s)")
    (auto dest: next_lexeme_progress)

declare scan.simps [simp del]

definition scan_init :: scan_state where
  "scan_init = \<lparr>sc_rewritten = [], sc_parameters = [], sc_original = [], sc_originals = [],
     sc_local_parameters = 0\<rparr>"


section \<open>Compiling the statements\<close>

text \<open>\<open>ParameterVisitor\<close>: counts the internal placeholders and stops at a native one.\<close>

fun visit_placeholders :: "string list \<Rightarrow> nat \<Rightarrow> nat result" where
  "visit_placeholders [] count = Ok count"
| "visit_placeholders (name # names) count =
     (if \<not> starts_with name internal_prefix
      then Err (definition_error ''Native SQL parameters cannot be mixed with typed references'')
      else visit_placeholders names (count + 1))"

text \<open>\<open>str::parse::<usize>\<close> (64 bits).\<close>

definition parse_usize :: "string \<Rightarrow> nat option" where
  "parse_usize s =
     (let digits = (if starts_with s ''+'' then tl s else s)
      in if digits = [] \<or> \<not> list_all is_ascii_digit digits \<or> 2 ^ 64 \<le> int (decimal_value digits)
         then None else Some (decimal_value digits))"

text \<open>The local variables of the token loop.\<close>

record token_state =
  tk_output :: "statement list"
  tk_text :: string
  tk_bound :: "parameter list"
  tk_tokens :: "token list"
  tk_originals :: "string list"

definition token_reset :: "token_state \<Rightarrow> token_state" where
  "token_reset st = st\<lparr>tk_text := [], tk_tokens := [], tk_bound := []\<rparr>"

definition finish_statement :: "sql_libs \<Rightarrow> backend \<Rightarrow> token_state \<Rightarrow> token_state result" where
  "finish_statement libs b st =
     (case tk_originals st of
        [] \<Rightarrow> Err (definition_error ''SQL statement boundary mismatch'')
      | original # originals \<Rightarrow>
          (let st = st\<lparr>tk_originals := originals\<rparr> in
           if trim (tk_text st) = [] then Ok (token_reset st)
           else and_then (map_err definition_error (lib_parse_statements libs b (tk_tokens st))) (\<lambda>ast.
             if ast = [] then Ok (token_reset st)
             else and_then (visit_placeholders (concat (map ast_placeholders ast)) 0) (\<lambda>count.
               if count \<noteq> length (tk_bound st)
               then Err (definition_error ''Parameters may only bind SQL values, not identifiers'')
               else if list_ex (\<lambda>s. \<not> transaction_statement (ast_kind s)) ast
               then Err (definition_error
                 ''SQL statement is unsupported inside a managed request transaction'')
               else Ok (token_reset (st\<lparr>tk_output := tk_output st @
                 [\<lparr>s_sql = original, s_parameters = tk_bound st,
                   s_returns_rows = returns_rows (ast_kind (hd ast))\<rparr>]\<rparr>))))))"

definition native_mixed :: sqlrest_error where
  "native_mixed = definition_error ''native SQL parameters cannot be mixed with typed references''"

definition token_step ::
  "sql_libs \<Rightarrow> backend \<Rightarrow> parameter list \<Rightarrow> token \<Rightarrow> token_state \<Rightarrow> token_state result" where
  "token_step libs b parameters token st =
     (if token = SemiColon then finish_statement libs b st
      else
        let st = st\<lparr>tk_tokens := tk_tokens st @ [token]\<rparr> in
        case token of
          Placeholder p \<Rightarrow>
            (if b = Postgres \<and> p = ''?'' then Ok (st\<lparr>tk_text := tk_text st @ ''?''\<rparr>)
             else case Option.bind (strip_prefix internal_prefix p) parse_usize of
               Some n \<Rightarrow>
                 (if n = 0 \<or> length parameters < n
                  then Err (definition_error ''invalid internal parameter'')
                  else let bound = tk_bound st @ [parameters ! (n - 1)] in
                    Ok (st\<lparr>tk_bound := bound, tk_text := tk_text st @ ''$'' @ show_nat (length bound)\<rparr>))
             | None \<Rightarrow> Err native_mixed)
        | _ \<Rightarrow>
            (if b = Turso \<and> token \<in> {Colon, AtSign} then Err native_mixed
             else Ok (st\<lparr>tk_text := tk_text st @ token_text token @ (if token = Question then '' '' else [])\<rparr>)))"

text \<open>\<open>sql::compile\<close>.\<close>

definition compile :: "sql_libs \<Rightarrow> string \<Rightarrow> backend \<Rightarrow> statement list result" where
  "compile libs source b =
     and_then (scan b None source scan_init) (\<lambda>sc.
       let originals = sc_originals sc @ [sc_original sc]; parameters = sc_parameters sc in
       and_then (validate_parameters parameters) (\<lambda>_.
         and_then (map_err definition_error (lib_tokenize libs b (sc_rewritten sc))) (\<lambda>tokens.
           and_then (try_fold (token_step libs b parameters) (tokens @ [SemiColon])
             \<lparr>tk_output = [], tk_text = [], tk_bound = [], tk_tokens = [], tk_originals = originals\<rparr>) (\<lambda>st.
               let output = tk_output st in
               if output = [] then Err (definition_error ''empty endpoint'')
               else if sum_list (map (length \<circ> s_parameters) output) \<noteq> length parameters
               then Err (definition_error ''Typed references must be standalone SQL values'')
               else Ok output))))"

section \<open>What the scanner computes\<close>

text \<open>
  The reference: the source as a sequence of lexemes, its groups between separators, the
  references of a group, and its text with the references numbered from \<open>$1\<close>.
\<close>

function lexemes :: "backend \<Rightarrow> char option \<Rightarrow> string \<Rightarrow> lexeme list result" where
  "lexemes b prev s =
     (if s = [] then Ok []
      else and_then (next_lexeme b prev s) (\<lambda>l.
        map_ok (Cons l) (lexemes b (Some (last (lexeme_source l))) (drop (length (lexeme_source l)) s))))"
  by pat_completeness auto
termination
  by (relation "measure (\<lambda>(b, prev, s). length s)") (auto dest: next_lexeme_progress)

declare lexemes.simps [simp del]

fun groups :: "lexeme list \<Rightarrow> lexeme list list" where
  "groups [] = [[]]"
| "groups (l # ls) =
     (if l = Separator then [] # groups ls
      else (case groups ls of [] \<Rightarrow> [[l]] | g # gs \<Rightarrow> (l # g) # gs))"

fun refs :: "lexeme list \<Rightarrow> string list" where
  "refs [] = []"
| "refs (Reference t # ls) = t # refs ls"
| "refs (_ # ls) = refs ls"

fun render :: "nat \<Rightarrow> lexeme list \<Rightarrow> string" where
  "render n [] = []"
| "render n (Reference t # ls) = ''$'' @ show_nat (n + 1) @ render (n + 1) ls"
| "render n (l # ls) = lexeme_source l @ render n ls"

lemma find_str_Some: "find_str p s = Some n \<Longrightarrow> prefix p (drop n s) \<and> n \<le> length s"
proof (induction p s arbitrary: n rule: find_str.induct)
  case (2 p c cs)
  then show ?case by (auto simp: str_simps split: if_splits)
qed (auto split: if_splits)

lemma take_prefix: "take n s = p \<Longrightarrow> take (length p) s = p"
  by (metis append_eq_conv_conj append_take_drop_id)

lemma lexeme_source_prefix:
  assumes "next_lexeme b prev s = Ok l" "s \<noteq> []"
  shows "take (length (lexeme_source l)) s = lexeme_source l"
proof (cases l)
  case (Verbatim t)
  then have "\<exists>n. take n s = t" using assms
    by (auto simp: next_lexeme_def Let_def split: if_splits option.splits)
  then show ?thesis using Verbatim take_prefix by auto
next
  case (Reference t)
  then obtain n where s: "starts_with s ''${''" and n: "find_str ''}'' (drop 2 s) = Some n"
    and t: "t = take n (drop 2 s)"
    using assms by (auto simp: next_lexeme_def Let_def split: if_splits option.splits)
  from find_str_Some[OF n] obtain u where u: "drop n (drop 2 s) = ''}'' @ u" and len: "n \<le> length (drop 2 s)"
    by (auto simp: prefix_def)
  have "s = ''${'' @ drop 2 s" using s by (auto simp: str_simps prefix_def)
  also have "drop 2 s = t @ ''}'' @ u" using u t by (metis append_take_drop_id)
  finally show ?thesis using Reference len by simp
qed (use assms in \<open>cases s; auto simp: next_lexeme_def Let_def split: if_splits option.splits\<close>)+

lemma lexemes_source: "lexemes b prev s = Ok ls \<Longrightarrow> concat (map lexeme_source ls) = s"
proof (induction b prev s arbitrary: ls rule: lexemes.induct)
  case (1 b prev s)
  show ?case
  proof (cases "s = []")
    case True
    then show ?thesis using "1.prems" by (simp add: lexemes.simps)
  next
    case False
    then obtain l ls' where l: "next_lexeme b prev s = Ok l" and ls: "ls = l # ls'"
      and ls': "lexemes b (Some (last (lexeme_source l))) (drop (length (lexeme_source l)) s) = Ok ls'"
      using "1.prems" by (auto simp: lexemes.simps[of b prev s] outcome_simps)
    have "concat (map lexeme_source ls') = drop (length (lexeme_source l)) s"
      using "1.IH"[OF False l ls'] .
    then show ?thesis
      using ls lexeme_source_prefix[OF l False]
      by simp (metis append_take_drop_id)
  qed
qed

lemma scan_lexemes:
  "scan b prev s st = Ok st' \<Longrightarrow> \<exists>ls. lexemes b prev s = Ok ls \<and> try_fold scan_step ls st = Ok st'"
proof (induction b prev s st rule: scan.induct)
  case (1 b prev s st)
  show ?case
  proof (cases "s = []")
    case True
    then show ?thesis using "1.prems" by (simp add: scan.simps lexemes.simps)
  next
    case False
    then obtain l st1 where l: "next_lexeme b prev s = Ok l" and st1: "scan_step l st = Ok st1"
      and rest: "scan b (Some (last (lexeme_source l))) (drop (length (lexeme_source l)) s) st1 = Ok st'"
      using "1.prems" by (auto simp: scan.simps[of b prev s] outcome_simps)
    from "1.IH"[OF False l st1 rest] obtain ls where
      "lexemes b (Some (last (lexeme_source l))) (drop (length (lexeme_source l)) s) = Ok ls"
      "try_fold scan_step ls st1 = Ok st'" by blast
    then show ?thesis using False l st1
      by (auto simp: lexemes.simps[of b prev s] intro!: exI[of _ "l # ls"])
  qed
qed

lemma groups_not_Nil [simp]: "groups ls \<noteq> []"
  by (cases ls) (auto split: list.splits)

lemma groups_snoc:
  "groups (ls @ [l]) = (if l = Separator then groups ls @ [[]]
     else butlast (groups ls) @ [last (groups ls) @ [l]])"
proof (induction ls)
  case (Cons a ls)
  then show ?case by (cases "groups ls") auto
qed auto

lemma refs_append [simp]: "refs (xs @ ys) = refs xs @ refs ys"
  by (induction xs rule: refs.induct) auto

lemma render_append: "render n (xs @ ys) = render n xs @ render (n + length (refs xs)) ys"
  by (induction n xs rule: render.induct) auto

lemma scan_fold:
  "try_fold scan_step ls scan_init = Ok st \<Longrightarrow>
     sc_originals st = map (render 0) (butlast (groups ls)) \<and>
     sc_original st = render 0 (last (groups ls)) \<and>
     sc_local_parameters st = length (refs (last (groups ls))) \<and>
     list_all2 (\<lambda>t p. Parameter_parse t = Ok p) (refs ls) (sc_parameters st)"
proof (induction ls arbitrary: st rule: rev_induct)
  case Nil
  then show ?case by (auto simp: scan_init_def)
next
  case (snoc l ls)
  then obtain st1 where st1: "try_fold scan_step ls scan_init = Ok st1" and st: "scan_step l st1 = Ok st"
    by (auto simp: try_fold_append outcome_simps)
  note IH = snoc.IH[OF st1]
  have snoc_map: "map f (butlast xs) @ [f (last xs)] = map f xs" if "xs \<noteq> []"
    for f :: "lexeme list \<Rightarrow> string" and xs
    using that by (metis append_butlast_last_id list.simps(8,9) map_append)
  show ?case
    using IH st snoc_map[OF groups_not_Nil, of "render 0" ls]
    by (cases l) (auto simp: scan_step_def groups_snoc render_append outcome_simps list_all2_append
        Let_def list_all2_appendI)
qed

lemma groups_concat:
  "join '';'' (map (\<lambda>g. concat (map lexeme_source g)) (groups ls)) = concat (map lexeme_source ls)"
proof (induction ls)
  case (Cons l ls)
  obtain g gs where g: "groups ls = g # gs" by (cases "groups ls") auto
  then show ?case using Cons by (cases gs) auto
qed simp

lemma groups_refs: "concat (map refs (groups ls)) = refs ls"
proof (induction ls)
  case (Cons l ls)
  then show ?case by (cases l; cases "groups ls") auto
qed simp

lemma render_no_refs: "refs g = [] \<Longrightarrow> render n g = concat (map lexeme_source g)"
  by (induction g rule: refs.induct) auto

lemma scan_Ok:
  assumes "scan b None s scan_init = Ok sc"
  obtains ls where "lexemes b None s = Ok ls" "concat (map lexeme_source ls) = s"
    "sc_originals sc @ [sc_original sc] = map (render 0) (groups ls)"
    "list_all2 (\<lambda>t p. Parameter_parse t = Ok p) (refs ls) (sc_parameters sc)"
proof -
  from scan_lexemes[OF assms] obtain ls where ls: "lexemes b None s = Ok ls"
    and fold: "try_fold scan_step ls scan_init = Ok sc" by blast
  have "map (render 0) (butlast (groups ls)) @ [render 0 (last (groups ls))] = map (render 0) (groups ls)"
    by (metis append_butlast_last_id groups_not_Nil list.simps(8,9) map_append)
  then show thesis using that[OF ls lexemes_source[OF ls]] scan_fold[OF fold] by simp
qed

lemma scan_retains_text:
  assumes "scan b None s scan_init = Ok sc" "sc_parameters sc = []"
  shows "join '';'' (sc_originals sc @ [sc_original sc]) = s"
proof -
  obtain ls where ls: "concat (map lexeme_source ls) = s"
    "sc_originals sc @ [sc_original sc] = map (render 0) (groups ls)"
    "list_all2 (\<lambda>t p. Parameter_parse t = Ok p) (refs ls) (sc_parameters sc)"
    using scan_Ok[OF assms(1)] by blast
  then have "refs ls = []" using assms(2) by simp
  then have "\<forall>g \<in> set (groups ls). refs g = []"
    using groups_refs[of ls] by (metis concat_eq_Nil_conv imageI image_set)
  then have "map (render 0) (groups ls) = map (\<lambda>g. concat (map lexeme_source g)) (groups ls)"
    by (simp add: render_no_refs)
  then show ?thesis using groups_concat[of ls] ls(1,2) by metis
qed


section \<open>What the compiled statements bind\<close>

text \<open>
  The boundaries and internal placeholders of a token sequence, and those the scanner wrote:
  \<open>Some n\<close> is the placeholder with number \<open>n\<close>, \<open>None\<close> a statement separator.
\<close>

fun token_marks :: "token list \<Rightarrow> nat option list" where
  "token_marks [] = []"
| "token_marks (SemiColon # ts) = None # token_marks ts"
| "token_marks (Placeholder p # ts) =
     (case Option.bind (strip_prefix internal_prefix p) parse_usize of
        Some n \<Rightarrow> Some n # token_marks ts
      | None \<Rightarrow> token_marks ts)"
| "token_marks (_ # ts) = token_marks ts"

fun lexeme_marks :: "nat \<Rightarrow> lexeme list \<Rightarrow> nat option list" where
  "lexeme_marks n [] = []"
| "lexeme_marks n (Separator # ls) = None # lexeme_marks n ls"
| "lexeme_marks n (Reference t # ls) = Some (n + 1) # lexeme_marks (n + 1) ls"
| "lexeme_marks n (_ # ls) = lexeme_marks n ls"

fun mark_groups :: "nat option list \<Rightarrow> nat list list" where
  "mark_groups [] = [[]]"
| "mark_groups (None # ms) = [] # mark_groups ms"
| "mark_groups (Some n # ms) = (case mark_groups ms of [] \<Rightarrow> [[n]] | g # gs \<Rightarrow> (n # g) # gs)"

lemma mark_groups_not_Nil [simp]: "mark_groups ms \<noteq> []"
  by (cases ms rule: mark_groups.cases) (auto split: list.splits)

lemma mark_groups_snoc:
  "mark_groups (ms @ [None]) = mark_groups ms @ [[]]"
  "mark_groups (ms @ [Some n]) = butlast (mark_groups ms) @ [last (mark_groups ms) @ [n]]"
proof (induction ms rule: mark_groups.induct)
  case (3 m ms)
  { case 1 show ?case using "3.IH"(1) by (cases "mark_groups ms") auto }
  { case 2 show ?case using "3.IH"(2) by (cases "mark_groups ms") auto }
qed auto

lemma token_marks_append [simp]: "token_marks (xs @ ys) = token_marks xs @ token_marks ys"
  by (induction xs rule: token_marks.induct) (auto split: option.splits)

text \<open>The parameters a list of placeholder numbers selects.\<close>

definition select :: "parameter list \<Rightarrow> nat list \<Rightarrow> parameter list" where
  "select ps ns = map (\<lambda>n. ps ! (n - 1)) ns"

definition binds :: "parameter list \<Rightarrow> string \<times> nat list \<Rightarrow> statement \<Rightarrow> bool" where
  "binds ps = (\<lambda>(original, ns) s. s_sql s = original \<and> s_parameters s = select ps ns)"

definition token_inv :: "parameter list \<Rightarrow> string list \<Rightarrow> nat option list \<Rightarrow> token_state \<Rightarrow> bool" where
  "token_inv ps originals ms st \<longleftrightarrow>
     length (mark_groups ms) - 1 \<le> length originals \<and>
     tk_originals st = drop (length (mark_groups ms) - 1) originals \<and>
     tk_bound st = select ps (last (mark_groups ms)) \<and>
     (\<exists>sel. subseq sel (zip originals (butlast (mark_groups ms))) \<and>
        list_all2 (binds ps) sel (tk_output st))"

lemma finish_statement_Ok:
  assumes "finish_statement libs b st = Ok st'"
  obtains original where "tk_originals st = original # tk_originals st'" "tk_bound st' = []"
    "tk_output st' = tk_output st \<or> (\<exists>s. tk_output st' = tk_output st @ [s] \<and>
       s_sql s = original \<and> s_parameters s = tk_bound st)"
  using assms that
  by (fastforce simp: finish_statement_def Let_def token_reset_def outcome_simps
      split: list.splits if_splits)

lemma token_inv_separator:
  assumes inv: "token_inv ps originals ms st" and fin: "finish_statement libs b st = Ok st'"
  shows "token_inv ps originals (ms @ [None]) st'"
proof -
  obtain original where o: "tk_originals st = original # tk_originals st'" and b: "tk_bound st' = []"
    and out: "tk_output st' = tk_output st \<or> (\<exists>s. tk_output st' = tk_output st @ [s] \<and>
       s_sql s = original \<and> s_parameters s = tk_bound st)"
    using finish_statement_Ok[OF fin] by metis
  define k where "k = length (mark_groups ms) - 1"
  have len: "length (mark_groups ms) = Suc k" by (simp add: k_def)
  have k: "drop k originals = original # tk_originals st'"
    using inv o by (simp add: token_inv_def k_def)
  then have k_len: "k < length originals" and nth: "originals ! k = original"
    by (metis drop_all list.distinct(1) not_le) (metis k nth_via_drop)
  obtain sel where sel: "subseq sel (zip originals (butlast (mark_groups ms)))"
    "list_all2 (binds ps) sel (tk_output st)"
    using inv by (auto simp: token_inv_def)
  have "zip originals (mark_groups ms) =
      zip originals (butlast (mark_groups ms)) @ [(original, last (mark_groups ms))]"
  proof -
    have "zip originals (butlast (mark_groups ms) @ [last (mark_groups ms)]) =
        zip (take k originals) (butlast (mark_groups ms)) @ zip (drop k originals) [last (mark_groups ms)]"
      using len by (subst zip_append2) simp
    also have "zip (take k originals) (butlast (mark_groups ms)) = zip originals (butlast (mark_groups ms))"
    proof -
      have "zip (take k originals @ drop k originals) (butlast (mark_groups ms)) =
          zip (take k originals) (butlast (mark_groups ms))"
        using len k_len by (subst zip_append1) simp
      then show ?thesis by simp
    qed
    finally show ?thesis using k by simp
  qed
  moreover have "\<exists>sel'. subseq sel' (zip originals (butlast (mark_groups ms)) @ [(original, last (mark_groups ms))])
      \<and> list_all2 (binds ps) sel' (tk_output st')"
    using out
  proof
    assume "tk_output st' = tk_output st"
    then show ?thesis using sel subseq_rev_drop_many by (metis)
  next
    assume "\<exists>s. tk_output st' = tk_output st @ [s] \<and> s_sql s = original \<and> s_parameters s = tk_bound st"
    then obtain s where s: "tk_output st' = tk_output st @ [s]" "s_sql s = original" "s_parameters s = tk_bound st"
      by blast
    have "binds ps (original, last (mark_groups ms)) s"
      using s inv by (simp add: binds_def token_inv_def)
    then show ?thesis
      using s(1) sel by (intro exI[of _ "sel @ [(original, last (mark_groups ms))]"])
        (simp add: list_all2_appendI subseq_append')
  qed
  ultimately show ?thesis
    using b k k_len len
    by (auto simp: token_inv_def mark_groups_snoc select_def drop_Suc tl_drop[symmetric])
qed

lemma token_inv_step:
  assumes inv: "token_inv ps originals ms st" and step: "token_step libs b ps t st = Ok st'"
  shows "token_inv ps originals (ms @ token_marks [t]) st'"
proof (cases t)
  case SemiColon
  then show ?thesis using token_inv_separator[OF inv] step by (simp add: token_step_def)
next
  case (Placeholder p)
  show ?thesis
  proof (cases "Option.bind (strip_prefix internal_prefix p) parse_usize")
    case None
    then show ?thesis using Placeholder step inv
      by (auto simp: token_step_def token_inv_def Let_def split: if_splits)
  next
    case (Some n)
    have "p \<noteq> ''?''" using Some by (auto simp: internal_prefix_def strip_prefix_def starts_with_def)
    then have st': "tk_bound st' = tk_bound st @ [ps ! (n - 1)]" "tk_originals st' = tk_originals st"
      "tk_output st' = tk_output st"
      using Placeholder step Some by (auto simp: token_step_def Let_def split: if_splits)
    show ?thesis using Placeholder Some inv st'
      by (auto simp: token_inv_def mark_groups_snoc select_def)
  qed
qed (use step inv in \<open>auto simp: token_step_def token_inv_def Let_def split: if_splits\<close>)

lemma token_inv_fold:
  "token_inv ps originals ms st \<Longrightarrow> try_fold (token_step libs b ps) ts st = Ok st' \<Longrightarrow>
     token_inv ps originals (ms @ token_marks ts) st'"
proof (induction ts arbitrary: ms st)
  case (Cons t ts)
  then obtain st1 where "token_step libs b ps t st = Ok st1"
    and rest: "try_fold (token_step libs b ps) ts st1 = Ok st'" by (auto simp: outcome_simps)
  from token_inv_step[OF Cons.prems(1) this(1)] have "token_inv ps originals (ms @ token_marks [t]) st1" .
  from Cons.IH[OF this rest] show ?case
    by (metis append.assoc append_Cons append_Nil token_marks_append)
qed simp

text \<open>The numbers the scanner wrote select, group by group, the parameters it parsed.\<close>

lemma lexeme_marks_groups:
  assumes "list_all2 (\<lambda>t p. Parameter_parse t = Ok p) (refs ls) (drop n ps)"
  shows "list_all2 (\<lambda>g ns. list_all2 (\<lambda>t p. Parameter_parse t = Ok p) (refs g) (select ps ns))
           (groups ls) (mark_groups (lexeme_marks n ls))"
  using assms
proof (induction n ls rule: lexeme_marks.induct)
  case (3 n t ls)
  then obtain p where p: "drop n ps = p # drop (Suc n) ps" "Parameter_parse t = Ok p"
    by (auto simp: list_all2_Cons1) (metis Cons_nth_drop_Suc drop_all list.distinct(1) list.inject not_le)
  then have nth: "ps ! n = p" by (metis nth_via_drop)
  have "list_all2 (\<lambda>t p. Parameter_parse t = Ok p) (refs ls) (drop (n + 1) ps)"
    using "3.prems" p by simp
  from "3.IH"[OF this] show ?case using p nth
    by (cases "groups ls"; cases "mark_groups (lexeme_marks (n + 1) ls)") (auto simp: select_def)
qed (auto simp: select_def list_all2_Cons1 split: list.splits)

text \<open>A statement compiled from a group: its text with the references numbered from \<open>$1\<close>, and
  the parameters of these references in the same order.\<close>

definition compiled_from :: "lexeme list \<Rightarrow> statement \<Rightarrow> bool" where
  "compiled_from g s \<longleftrightarrow> s_sql s = render 0 g \<and>
     list_all2 (\<lambda>t p. Parameter_parse t = Ok p) (refs g) (s_parameters s)"

lemma subseq_zip_compiled:
  assumes "list_all2 (\<lambda>g ns. list_all2 (\<lambda>t p. Parameter_parse t = Ok p) (refs g) (select ps ns)) gs ms"
    and "subseq sel (zip (map (render 0) gs) ms)" "list_all2 (binds ps) sel out"
  shows "\<exists>gs'. subseq gs' gs \<and> list_all2 compiled_from gs' out"
proof -
  let ?z = "zip (map (render 0) gs) ms"
  have zip: "?z = map (\<lambda>(g, ns). (render 0 g, ns)) (zip gs ms)"
    by (simp add: zip_map1)
  from assms(2) obtain sel0 where sel0: "subseq sel0 (zip gs ms)" "sel = map (\<lambda>(g, ns). (render 0 g, ns)) sel0"
    unfolding zip by (auto simp: subseq_conv_nths nths_map)
  have mem: "\<forall>x \<in> set sel0. list_all2 (\<lambda>t p. Parameter_parse t = Ok p) (refs (fst x)) (select ps (snd x))"
  proof
    fix x assume "x \<in> set sel0"
    then have "x \<in> set (zip gs ms)" using sel0(1) by (metis notin_set_nthsI subseq_conv_nths)
    then show "list_all2 (\<lambda>t p. Parameter_parse t = Ok p) (refs (fst x)) (select ps (snd x))"
      using assms(1) unfolding list_all2_iff[of _ gs] by (auto split: prod.splits)
  qed
  have "subseq (map fst sel0) gs"
    using sel0(1) assms(1) by (metis list_all2_lengthD map_fst_zip subseq_map)
  moreover have "list_all2 compiled_from (map fst sel0) out"
    using assms(3) mem unfolding sel0(2) list_all2_map1
    by (elim list.rel_mono_strong) (auto simp: compiled_from_def binds_def)
  ultimately show ?thesis by blast
qed

lemma compile_binds:
  assumes compile: "compile libs source b = Ok out"
    and lex: "lexemes b None source = Ok ls"
    and scan: "scan b None source scan_init = Ok sc"
    and tokens: "lib_tokenize libs b (sc_rewritten sc) = Ok tokens"
    and marks: "token_marks tokens = lexeme_marks 0 ls"
  shows "\<exists>gs. subseq gs (groups ls) \<and> list_all2 compiled_from gs out"
proof -
  let ?os = "sc_originals sc @ [sc_original sc]"
  let ?init = "\<lparr>tk_output = [], tk_text = [], tk_bound = [], tk_tokens = [], tk_originals = ?os\<rparr>"
  have os: "?os = map (render 0) (groups ls)"
    and ps: "list_all2 (\<lambda>t p. Parameter_parse t = Ok p) (refs ls) (sc_parameters sc)"
    using scan_Ok[OF scan] lex by (metis outcome.inject(1))+
  obtain st where st: "try_fold (token_step libs b (sc_parameters sc)) (tokens @ [SemiColon]) ?init = Ok st"
    and out: "out = tk_output st"
    using compile scan tokens by (auto simp: compile_def Let_def outcome_simps split: if_splits)
  have "token_inv (sc_parameters sc) ?os [] ?init"
    by (simp add: token_inv_def select_def)
  from token_inv_fold[OF this st] have "token_inv (sc_parameters sc) ?os (token_marks tokens @ [None]) st"
    by simp
  then obtain sel where "subseq sel (zip ?os (mark_groups (lexeme_marks 0 ls)))"
    "list_all2 (binds (sc_parameters sc)) sel out"
    using marks out by (auto simp: token_inv_def mark_groups_snoc)
  then show ?thesis
    using subseq_zip_compiled[OF lexeme_marks_groups[of ls 0 "sc_parameters sc"]] ps os by simp
qed

lemma compile_counts:
  assumes "compile libs source b = Ok out"
  obtains sc where "scan b None source scan_init = Ok sc" "conflict_free (sc_parameters sc)" "out \<noteq> []"
    "sum_list (map (length \<circ> s_parameters) out) = length (sc_parameters sc)"
  using assms that
  by (auto simp: compile_def Let_def outcome_simps validate_parameters_iff split: if_splits)


lemma visit_placeholders_Ok:
  "visit_placeholders names n = Ok m \<longleftrightarrow>
     list_all (\<lambda>x. starts_with x internal_prefix) names \<and> m = n + length names"
  by (induction names n rule: visit_placeholders.induct) auto

text \<open>What acceptance of a statement guarantees about its parse.\<close>

definition accepted_statement :: "sql_libs \<Rightarrow> backend \<Rightarrow> statement \<Rightarrow> bool" where
  "accepted_statement libs b s \<longleftrightarrow> (\<exists>tokens ast.
     lib_parse_statements libs b tokens = Ok ast \<and> ast \<noteq> [] \<and>
     list_all (\<lambda>a. transaction_statement (ast_kind a)) ast \<and>
     s_returns_rows s = returns_rows (ast_kind (hd ast)) \<and>
     list_all (\<lambda>x. starts_with x internal_prefix) (concat (map ast_placeholders ast)) \<and>
     length (concat (map ast_placeholders ast)) = length (s_parameters s))"

lemma finish_statement_accepted:
  assumes fin: "finish_statement libs b st = Ok st'"
  shows "tk_output st' = tk_output st \<or>
    (\<exists>s. tk_output st' = tk_output st @ [s] \<and> accepted_statement libs b s)"
proof -
  obtain original originals where os: "tk_originals st = original # originals"
    using fin by (auto simp: finish_statement_def Let_def split: list.splits)
  show ?thesis
  proof (cases "trim (tk_text st) = []")
    case True
    then show ?thesis using fin os by (auto simp: finish_statement_def Let_def token_reset_def)
  next
    case False
    then obtain ast where ast: "lib_parse_statements libs b (tk_tokens st) = Ok ast"
      using fin os by (auto simp: finish_statement_def Let_def outcome_simps)
    show ?thesis
    proof (cases "ast = []")
      case True
      then show ?thesis using fin os False ast by (auto simp: finish_statement_def Let_def token_reset_def)
    next
      case nonempty: False
      obtain count where c: "visit_placeholders (concat (map ast_placeholders ast)) 0 = Ok count"
        "count = length (tk_bound st)" "\<not> list_ex (\<lambda>s. \<not> transaction_statement (ast_kind s)) ast"
        and out: "tk_output st' = tk_output st @ [\<lparr>s_sql = original, s_parameters = tk_bound st,
            s_returns_rows = returns_rows (ast_kind (hd ast))\<rparr>]"
        using fin os False nonempty ast
        by (auto simp: finish_statement_def Let_def outcome_simps token_reset_def split: if_splits)
      have "accepted_statement libs b \<lparr>s_sql = original, s_parameters = tk_bound st,
            s_returns_rows = returns_rows (ast_kind (hd ast))\<rparr>"
        unfolding accepted_statement_def
        using ast nonempty c by (intro exI[of _ "tk_tokens st"] exI[of _ ast])
          (simp add: visit_placeholders_Ok list_ex_iff list_all_iff)
      then show ?thesis using out by blast
    qed
  qed
qed

lemma token_step_accepted:
  assumes "token_step libs b ps t st = Ok st'" "list_all (accepted_statement libs b) (tk_output st)"
  shows "list_all (accepted_statement libs b) (tk_output st')"
proof (cases "t = SemiColon")
  case True
  then have "finish_statement libs b st = Ok st'" using assms(1) by (simp add: token_step_def)
  then show ?thesis using assms(2) finish_statement_accepted by fastforce
next
  case False
  then have "tk_output st' = tk_output st"
    using assms(1) by (auto simp: token_step_def Let_def split: token.splits if_splits option.splits)
  then show ?thesis using assms(2) by simp
qed

lemma compile_accepted:
  assumes "compile libs source b = Ok out"
  shows "list_all (accepted_statement libs b) out"
proof -
  obtain ps tokens os st where
    st: "try_fold (token_step libs b ps) (tokens @ [SemiColon])
      \<lparr>tk_output = [], tk_text = [], tk_bound = [], tk_tokens = [], tk_originals = os\<rparr> = Ok st"
    and out: "out = tk_output st"
    using assms by (auto simp: compile_def Let_def outcome_simps split: if_splits)
  have "list_all (accepted_statement libs b) (tk_output st)"
    by (rule try_fold_invariant[OF st, where P = "\<lambda>st. list_all (accepted_statement libs b) (tk_output st)"])
      (auto intro: token_step_accepted)
  then show ?thesis using out by simp
qed

lemma quote_end_plain:
  assumes "q \<notin> set body" "rest = [] \<or> hd rest \<noteq> q"
  shows "quote_end False q (body @ q # rest) = Some (length body + 1)"
  using assms(1)
proof (induction body)
  case Nil
  then show ?case using assms(2) by (cases rest) auto
qed auto

lemma next_lexeme_quoted:
  assumes "q \<in> {CHR 0x27, CHR 0x22, CHR 0x60}" "q \<notin> set body" "rest = [] \<or> hd rest \<noteq> q"
    and "\<not> (b = Postgres \<and> q = CHR 0x27 \<and> prev \<in> {Some CHR ''e'', Some CHR ''E''})"
  shows "next_lexeme b prev (q # body @ q # rest) = Ok (Verbatim (q # body @ [q]))"
proof -
  have "\<not> starts_with (q # body @ q # rest) ''--''" "\<not> starts_with (q # body @ q # rest) ''/*''"
    "q \<noteq> CHR ''[''"
    using assms(1) by (auto simp: starts_with_def)
  moreover have "(b = Postgres \<and> q = CHR 0x27 \<and> prev \<in> {Some CHR ''e'', Some CHR ''E''}) = False"
    "(if q = CHR ''['' then CHR '']'' else q) = q"
    using assms(1,4) by auto
  ultimately show ?thesis
    unfolding next_lexeme_def Let_def list.sel
    using assms(1) quote_end_plain[OF assms(2,3)] by (simp only: if_False if_True simp_thms) simp
qed

section \<open>Properties\<close>

text \<open>the scanner retains the source text: without typed references, the statement texts
  joined by semicolons are the source, byte for byte.\<close>

theorem scan_preserves_source:
  "scan b None source scan_init = Ok sc \<Longrightarrow> sc_parameters sc = [] \<Longrightarrow>
     join '';'' (sc_originals sc @ [sc_original sc]) = source"
  by (rule scan_retains_text)



text \<open>quoted text is opaque: a quoted literal or identifier without embedded quotes is
  copied as one piece, whatever references, comments or separators it contains.\<close>

theorem quoted_text_opaque:
  assumes "q \<in> {CHR 0x27, CHR 0x22, CHR 0x60}" and "q \<notin> set body"
    and "rest = [] \<or> hd rest \<noteq> q"
    and "\<not> (b = Postgres \<and> q = CHR 0x27 \<and> prev \<in> {Some CHR ''e'', Some CHR ''E''})"
  shows "next_lexeme b prev (q # body @ q # rest) = Ok (Verbatim (q # body @ [q]))"
  using assms by (rule next_lexeme_quoted)

section \<open>Witnesses\<close>

definition example_source :: string where
  "example_source = ''SELECT ${query.n:int64};''"

definition example_sql_libs :: sql_libs where
  "example_sql_libs = \<lparr>
     lib_tokenize = (\<lambda>_ s. Ok (if s = '''' then [] else
       [Other_token ''SELECT'', Other_token '' '', Placeholder (internal_prefix @ ''1''), SemiColon])),
     lib_parse_statements = (\<lambda>_ ts. Ok [\<lparr>ast_kind = Query False,
       ast_placeholders = [internal_prefix @ ''1'']\<rparr>])\<rparr>"

definition example_n :: parameter where
  "example_n = \<lparr>p_source = ''query'', p_fields = [''n''], p_ty = Int64_T\<rparr>"

definition example_out :: "statement list" where
  "example_out = [\<lparr>s_sql = ''SELECT $1'', s_parameters = [example_n], s_returns_rows = True\<rparr>]"

definition example_lexemes :: "lexeme list" where
  "example_lexemes = map (\<lambda>c. Verbatim [c]) ''SELECT '' @ [Reference ''query.n:int64'', Separator]"

definition example_scan :: scan_state where
  "example_scan = \<lparr>sc_rewritten = ''SELECT $sqlrest_internal_1;'', sc_parameters = [example_n],
     sc_original = [], sc_originals = [''SELECT $1''], sc_local_parameters = 0\<rparr>"

lemma example_scan_eq: "scan Turso None example_source scan_init = Ok example_scan"
  by code_simp

lemma example_lexemes_eq: "lexemes Turso None example_source = Ok example_lexemes"
  by code_simp

lemma example_compile_eq: "compile example_sql_libs example_source Turso = Ok example_out"
  by code_simp

lemma example_tokens: "lib_tokenize example_sql_libs Turso (sc_rewritten example_scan) =
    Ok [Other_token ''SELECT'', Other_token '' '', Placeholder (internal_prefix @ ''1''), SemiColon]"
  by (simp add: example_sql_libs_def example_scan_def)

lemma example_marks: "token_marks [Other_token ''SELECT'', Other_token '' '',
    Placeholder (internal_prefix @ ''1''), SemiColon] = lexeme_marks 0 example_lexemes"
  by code_simp



lemma example_plain_scan: "scan Turso None ''A;B'' scan_init =
    Ok \<lparr>sc_rewritten = ''A;B'', sc_parameters = [], sc_original = ''B'', sc_originals = [''A''],
        sc_local_parameters = 0\<rparr>"
  by code_simp

theorem scan_preserves_source_witness: "join '';'' [''A'', ''B''] = ''A;B''"
  using scan_preserves_source[OF example_plain_scan] by simp

theorem quoted_text_opaque_witness:
  "next_lexeme Turso None (CHR 0x27 # ''${x};--'' @ CHR 0x27 # []) =
     Ok (Verbatim (CHR 0x27 # ''${x};--'' @ [CHR 0x27]))"
  by (rule quoted_text_opaque) simp_all

text \<open>
  A quoted string counts as an escape string when the byte before it is an \<^verbatim>\<open>E\<close>, even if that byte ends a
  keyword: after \<^verbatim>\<open>ELSE\<close> without a space the one-character string of a backslash is unterminated, which it is
  not after a space.
\<close>

lemma quote_after_keyword:
  "next_lexeme Postgres (Some CHR ''E'') ([CHR 0x27, CHR 0x5C, CHR 0x27] @ '' END'') = Err (definition_error ''unterminated quoted SQL'')"
  "next_lexeme Postgres (Some CHR '' '') ([CHR 0x27, CHR 0x5C, CHR 0x27] @ '' END'') = Ok (Verbatim [CHR 0x27, CHR 0x5C, CHR 0x27])"
  by (simp_all add: next_lexeme_def starts_with_def Let_def)

end
