(* ===== verification/Schema.thy ===== *)
theory Schema
  imports Sql
begin

text \<open>
  \<^verbatim>\<open>src/schema.rs\<close>: walking a JSON schema, normalizing its references, rejecting
  reference cycles that make no progress, and the possible JSON types and the fixed property
  set of a record schema. Percent coding and JSON pointer lookup are library calls and
  parameters.
\<close>

unbundle bit_operations_syntax

section \<open>Keywords\<close>

definition MAPS :: "string list" where
  "MAPS = [''properties'', ''patternProperties'', ''$defs'', ''dependentSchemas'']"

definition LISTS :: "string list" where
  "LISTS = [''allOf'', ''anyOf'', ''oneOf'', ''prefixItems'']"

definition SINGLE :: "string list" where
  "SINGLE = [''items'', ''contains'', ''additionalProperties'', ''unevaluatedProperties'',
     ''unevaluatedItems'', ''propertyNames'', ''not'', ''if'', ''then'', ''else'', ''contentSchema'']"

definition LEAVES :: "string list" where
  "LEAVES = [''$schema'', ''$ref'', ''$anchor'', ''$comment'', ''type'', ''enum'', ''const'', ''title'',
     ''description'', ''default'', ''examples'', ''example'', ''deprecated'', ''readOnly'', ''writeOnly'',
     ''format'', ''contentEncoding'', ''contentMediaType'', ''required'', ''dependentRequired'',
     ''minimum'', ''maximum'', ''exclusiveMinimum'', ''exclusiveMaximum'', ''multipleOf'',
     ''minLength'', ''maxLength'', ''pattern'', ''minItems'', ''maxItems'', ''uniqueItems'',
     ''minContains'', ''maxContains'', ''minProperties'', ''maxProperties'', ''discriminator'',
     ''xml'', ''externalDocs'']"

text \<open>
  \<open>lib_decode\<close> is \<open>percent_decode_str(..).decode_utf8()\<close>, \<open>lib_encode\<close> is
  \<open>utf8_percent_encode(.., FRAGMENT_ENCODING)\<close>, \<open>lib_pointer\<close> is \<open>Value::pointer\<close>.
\<close>

record schema_libs =
  lib_decode :: "string \<Rightarrow> string option"
  lib_encode :: "string \<Rightarrow> string"
  lib_pointer :: "json \<Rightarrow> string \<Rightarrow> json option"

text \<open>The slice \<open>&s[1..]\<close>: a panic when there is no byte, or when it splits a character.\<close>

definition slice_from_1 :: "string \<Rightarrow> string result" where
  "slice_from_1 s =
     (case s of
        [] \<Rightarrow> Panic
      | _ # cs \<Rightarrow> if cs \<noteq> [] \<and> CHR 0x80 \<le> hd cs \<and> hd cs \<le> CHR 0xBF then Panic else Ok cs)"

text \<open>\<open>escape\<close>: the two replacements one after the other.\<close>

definition replace_char :: "char \<Rightarrow> string \<Rightarrow> string \<Rightarrow> string" where
  "replace_char c r s = concat (map (\<lambda>x. if x = c then r else [x]) s)"

definition escape :: "string \<Rightarrow> string" where
  "escape s = replace_char CHR ''/'' ''~1'' (replace_char CHR ''~'' ''~0'' s)"


section \<open>Walking\<close>

type_synonym jmap = "(string \<times> json) list"

text \<open>A visitor threads the captured variables of the closure and may change the object.\<close>

type_synonym 's visitor = "jmap \<Rightarrow> string \<Rightarrow> 's \<Rightarrow> ('s \<times> jmap) result"

fun json_depth :: "json \<Rightarrow> nat" where
  "json_depth (JArray xs) = Suc (fold max (map json_depth xs) 0)"
| "json_depth (JObject m) = Suc (fold max (map json_depth (map snd m)) 0)"
| "json_depth _ = 1"

text \<open>A loop that threads the visitor's state and replaces each element in place.\<close>

fun try_map_st :: "('a \<Rightarrow> 's \<Rightarrow> ('s \<times> 'b) result) \<Rightarrow> 'a list \<Rightarrow> 's \<Rightarrow> ('s \<times> 'b list) result" where
  "try_map_st f [] st = Ok (st, [])"
| "try_map_st f (x # xs) st =
     and_then (f x st) (\<lambda>(st, y). map_ok (\<lambda>(st, ys). (st, y # ys)) (try_map_st f xs st))"

type_synonym 's walker = "json \<Rightarrow> string \<Rightarrow> 's \<Rightarrow> ('s \<times> json) result"

definition walk_children :: "'s walker \<Rightarrow> jmap \<Rightarrow> string \<Rightarrow> 's \<Rightarrow> ('s \<times> jmap) result" where
  "walk_children rec cs path =
     try_map_st (\<lambda>(name, child) st.
       map_ok (\<lambda>(st, child). (st, (name, child))) (rec child (path @ ''/'' @ escape name) st)) cs"

definition walk_items :: "'s walker \<Rightarrow> json list \<Rightarrow> string \<Rightarrow> 's \<Rightarrow> ('s \<times> json list) result" where
  "walk_items rec xs path =
     try_map_st (\<lambda>(i, child) st. rec child (path @ ''/'' @ show_nat i) st) (enumerate 0 xs)"

text \<open>One round of the loop over the keys: the entry \<open>map[&key]\<close> after it.\<close>

definition walk_entry :: "'s walker \<Rightarrow> string \<Rightarrow> string \<times> json \<Rightarrow> 's \<Rightarrow> ('s \<times> string \<times> json) result" where
  "walk_entry rec pointer = (\<lambda>(key, child) st.
     let path = pointer @ ''/'' @ escape key in
     map_ok (\<lambda>(st, child). (st, (key, child)))
       (if key \<in> set MAPS then
          (case child of
             JObject cs \<Rightarrow> map_ok (\<lambda>(st, cs). (st, JObject cs)) (walk_children rec cs path st)
           | _ \<Rightarrow> Err (definition_error (key @ '' must be an object'')))
        else if key \<in> set LISTS then
          (case child of
             JArray xs \<Rightarrow> map_ok (\<lambda>(st, xs). (st, JArray xs)) (walk_items rec xs path st)
           | _ \<Rightarrow> Err (definition_error (key @ '' must be an array'')))
        else if key \<in> set SINGLE then rec child path st
        else Ok (st, child)))"

text \<open>
  \<open>walk\<close> on a value at a pointer: the visitor first, then the entries of the (changed)
  object in key order, each replaced in place. The recursion follows the changed object,
  so it is bounded by fuel; running out of fuel is the outcome \<^const>\<open>Panic\<close>, so that a
  proof that a walk does not panic also shows that its fuel is enough.
\<close>

primrec walk :: "nat \<Rightarrow> 's visitor \<Rightarrow> 's walker" where
  "walk 0 visit = (\<lambda>value pointer st. Panic)"
| "walk (Suc n) visit = (\<lambda>value pointer st.
     case value of
       JBool _ \<Rightarrow> map_ok (\<lambda>(st, _). (st, value)) (visit [] pointer st)
     | JObject m \<Rightarrow>
         and_then (visit m pointer st) (\<lambda>(st, m).
           map_ok (\<lambda>(st, m). (st, JObject m)) (try_map_st (walk_entry (walk n visit) pointer) m st))
     | _ \<Rightarrow> Err (definition_error ''Schema must be an object or boolean''))"

definition schema_walk :: "'s visitor \<Rightarrow> json \<Rightarrow> 's \<Rightarrow> ('s \<times> json) result" where
  "schema_walk visit value st = walk (json_depth value) visit value '''' st"

text \<open>\<open>rewrite_refs\<close>: \<open>$ref\<close> and the targets of a discriminator mapping.\<close>

type_synonym 's rewriter = "string \<Rightarrow> 's \<Rightarrow> ('s \<times> string) result"

definition rewrite_values :: "'s rewriter \<Rightarrow> jmap \<Rightarrow> 's \<Rightarrow> ('s \<times> jmap) result" where
  "rewrite_values rewrite =
     try_map_st (\<lambda>(k, v) st.
       and_then (ok_or (definition_error ''discriminator mapping targets must be local references'')
         (as_str v)) (\<lambda>text.
         map_ok (\<lambda>(st, t). (st, (k, JString t))) (rewrite text st)))"

definition rewrite_ref :: "'s rewriter \<Rightarrow> jmap \<Rightarrow> 's \<Rightarrow> ('s \<times> jmap) result" where
  "rewrite_ref rewrite m st =
     (case map_of m ''$ref'' of
        None \<Rightarrow> Ok (st, m)
      | Some r \<Rightarrow>
          and_then (ok_or (definition_error ''$ref must be a string'') (as_str r)) (\<lambda>text.
            map_ok (\<lambda>(st, t). (st, bt_insert ''$ref'' (JString t) m)) (rewrite text st)))"

definition rewrite_discriminator :: "'s rewriter \<Rightarrow> jmap \<Rightarrow> 's \<Rightarrow> ('s \<times> jmap) result" where
  "rewrite_discriminator rewrite m st =
     (case map_of m ''discriminator'' of
        None \<Rightarrow> Ok (st, m)
      | Some d \<Rightarrow>
          and_then (ok_or (definition_error ''discriminator must be an object'') (as_object d)) (\<lambda>obj.
            if Option.bind (map_of obj ''propertyName'') as_str = None
            then Err (definition_error ''discriminator needs propertyName'')
            else (case map_of obj ''mapping'' of
                None \<Rightarrow> Ok (st, m)
              | Some mapping \<Rightarrow>
                  and_then (ok_or (definition_error ''discriminator mapping must be an object'')
                    (as_object mapping)) (\<lambda>entries.
                    map_ok (\<lambda>(st, entries). (st, bt_insert ''discriminator''
                        (JObject (bt_insert ''mapping'' (JObject entries) obj)) m))
                      (rewrite_values rewrite entries st)))))"

definition rewrite_refs :: "'s rewriter \<Rightarrow> jmap \<Rightarrow> 's \<Rightarrow> ('s \<times> jmap) result" where
  "rewrite_refs rewrite m st =
     and_then (rewrite_ref rewrite m st) (\<lambda>(st, m). rewrite_discriminator rewrite m st)"


section \<open>Normalization\<close>

definition dialect_2020 :: string where
  "dialect_2020 = ''https://json-schema.org/draft/2020-12/schema''"

definition dialect_oas :: string where
  "dialect_oas = ''https://spec.openapis.org/oas/3.1/dialect/base''"

record first_pass =
  fp_anchors :: "(string \<times> string) list"
  fp_locations :: "string set"

definition known_keyword :: "string \<Rightarrow> bool" where
  "known_keyword key \<longleftrightarrow> key \<in> set MAPS \<or> key \<in> set LISTS \<or> key \<in> set SINGLE \<or> key \<in> set LEAVES
     \<or> starts_with key ''x-''"

text \<open>The closure of the first walk: keywords, dialect and anchors.\<close>

definition visit_anchors :: "first_pass visitor" where
  "visit_anchors m pointer st =
     (let st = st\<lparr>fp_locations := insert pointer (fp_locations st)\<rparr> in
      case find (\<lambda>k. \<not> known_keyword k) (map fst m) of
        Some key \<Rightarrow> Err (definition_error (''Unsupported schema keyword: '' @ key))
      | None \<Rightarrow>
          and_then
            (case map_of m ''$schema'' of
               None \<Rightarrow> Ok m
             | Some v \<Rightarrow>
                 (let uri = (case as_str v of Some s \<Rightarrow> s | None \<Rightarrow> '''') in
                  if uri \<noteq> dialect_2020 \<and> uri \<noteq> dialect_oas
                  then Err (definition_error ''Response schema must use the 2020-12 / OpenAPI 3.1 dialect'')
                  else Ok (bt_insert ''$schema'' (JString dialect_2020) m)))
            (\<lambda>m. case map_of m ''$anchor'' of
               None \<Rightarrow> Ok (st, m)
             | Some a \<Rightarrow>
                 and_then (ok_or (definition_error ''Invalid schema anchor'') (as_str a)) (\<lambda>anchor.
                   if anchor = [] \<or> \<not> list_all (\<lambda>c. is_ascii_alphanumeric c \<or> c \<in> {CHR ''_'', CHR ''-'', CHR ''.''}) anchor
                      \<or> map_of (fp_anchors st) anchor \<noteq> None
                   then Err (definition_error ''Invalid or duplicate schema anchor'')
                   else Ok (st\<lparr>fp_anchors := bt_insert anchor pointer (fp_anchors st)\<rparr>, m))))"

text \<open>The closure of the second walk: every reference becomes an encoded document pointer.\<close>

definition normalize_reference ::
  "schema_libs \<Rightarrow> (string \<times> string) list \<Rightarrow> string set \<Rightarrow> json \<Rightarrow> string \<Rightarrow> string result" where
  "normalize_reference libs anchors locations root reference =
     and_then (ok_or (definition_error ''External schema references are prohibited'')
       (strip_prefix ''#'' reference)) (\<lambda>fragment.
       and_then (ok_or (definition_error ''Invalid UTF-8 in schema reference'')
         (lib_decode libs fragment)) (\<lambda>fragment.
         and_then (if fragment = [] \<or> starts_with fragment ''/'' then Ok fragment
                   else ok_or (definition_error ''Unknown local schema anchor'') (map_of anchors fragment))
           (\<lambda>pointer.
             if lib_pointer libs root pointer = None
                \<or> \<not> (pointer \<in> locations \<and> lib_pointer libs root pointer \<noteq> None)
             then Err (definition_error (''Reference does not target a schema: '' @ reference))
             else Ok (''#'' @ lib_encode libs pointer))))"

definition visit_references ::
  "schema_libs \<Rightarrow> (string \<times> string) list \<Rightarrow> string set \<Rightarrow> json \<Rightarrow> unit visitor" where
  "visit_references libs anchors locations root m pointer st =
     map_ok (\<lambda>(st, m). (st, bt_remove ''$anchor'' m))
       (rewrite_refs (\<lambda>r st. map_ok (Pair st) (normalize_reference libs anchors locations root r)) m st)"

text \<open>\<open>target\<close>: the schema node a normalized reference denotes.\<close>

definition target :: "schema_libs \<Rightarrow> json \<Rightarrow> string \<Rightarrow> json result" where
  "target libs root reference =
     and_then (slice_from_1 reference) (\<lambda>fragment.
       and_then (ok_or (definition_error ''Invalid reference encoding'') (lib_decode libs fragment)) (\<lambda>pointer.
         ok_or (definition_error ''Unresolved schema reference'') (lib_pointer libs root pointer)))"

text \<open>The edges that a value does not have to shrink along: references and in-place applicators.\<close>

definition edges_of :: "schema_libs \<Rightarrow> jmap \<Rightarrow> string \<Rightarrow> string list result" where
  "edges_of libs m pointer =
     and_then
       (case Option.bind (map_of m ''$ref'') as_str of
          None \<Rightarrow> Ok []
        | Some r \<Rightarrow> and_then (slice_from_1 r) (\<lambda>f.
            map_ok (\<lambda>p. [p]) (ok_or (definition_error ''Invalid reference encoding'') (lib_decode libs f))))
       (\<lambda>refs. Ok (refs
          @ concat (map (\<lambda>keyword.
              case Option.bind (map_of m keyword) as_array of
                None \<Rightarrow> []
              | Some children \<Rightarrow> map (\<lambda>i. pointer @ ''/'' @ keyword @ ''/'' @ show_nat i) [0..<length children])
              [''allOf'', ''anyOf'', ''oneOf''])
          @ concat (map (\<lambda>keyword.
              if map_of m keyword \<noteq> None then [pointer @ ''/'' @ keyword] else [])
              [''not'', ''if'', ''then'', ''else''])
          @ (case Option.bind (map_of m ''dependentSchemas'') as_object of
               None \<Rightarrow> []
             | Some children \<Rightarrow> map (\<lambda>(key, _). pointer @ ''/dependentSchemas/'' @ escape key) children)))"

type_synonym graph = "(string \<times> string list) list"

definition visit_edges :: "schema_libs \<Rightarrow> graph visitor" where
  "visit_edges libs m pointer g =
     map_ok (\<lambda>edges. (bt_insert pointer edges g, m)) (edges_of libs m pointer)"

text \<open>The depth-first search: entries to enter (\<open>False\<close>) or to leave (\<open>True\<close>), top first.\<close>

definition cycle_error :: sqlrest_error where
  "cycle_error =
     definition_error ''Schema reference cycle must descend through an object property or array item''"

definition successors :: "graph \<Rightarrow> string \<Rightarrow> string list" where
  "successors g node = (case map_of g node of None \<Rightarrow> [] | Some es \<Rightarrow> es)"

function search :: "graph \<Rightarrow> (string \<times> bool) list \<Rightarrow> string set \<Rightarrow> string set \<Rightarrow> string set result" where
  "search g [] active complete = Ok complete"
| "search g ((node, leaving) # stack) active complete =
     (if leaving then search g stack (active - {node}) (insert node complete)
      else if node \<in> complete then search g stack active complete
      else if node \<in> active then Err cycle_error
      else search g (rev (map (\<lambda>next. (next, False)) (successors g node)) @ (node, True) # stack)
             (insert node active) complete)"
  by pat_completeness auto
termination
proof (relation "inv_image (less_than <*lex*> less_than) (\<lambda>(g, stack, active, complete).
    (card (fst ` set g - (active \<union> complete)),
     sum_list (map (\<lambda>(n, leaving). if leaving then 1 else 2) stack)))", goal_cases)
  case (2 g node leaving stack active complete)
  have "card (fst ` set g - (active - {node} \<union> insert node complete))
      \<le> card (fst ` set g - (active \<union> complete))"
    by (rule card_mono) auto
  then show ?case using 2 by auto
next
  case (4 g node leaving stack active complete)
  show ?case
  proof (cases "node \<in> fst ` set g")
    case True
    have "fst ` set g - (insert node active \<union> complete) \<subset> fst ` set g - (active \<union> complete)"
      using True 4 by blast
    then have "card (fst ` set g - (insert node active \<union> complete)) < card (fst ` set g - (active \<union> complete))"
      by (rule psubset_card_mono[rotated]) simp
    then show ?thesis by simp
  next
    case False
    then have "successors g node = []" by (simp add: successors_def map_of_eq_None_iff[THEN iffD2])
    moreover have "fst ` set g - (insert node active \<union> complete) = fst ` set g - (active \<union> complete)"
      using False by auto
    ultimately show ?thesis using 4 by simp
  qed
qed auto

fun search_all :: "graph \<Rightarrow> string list \<Rightarrow> string set \<Rightarrow> unit result" where
  "search_all g [] complete = Ok ()"
| "search_all g (start # starts) complete =
     and_then (search g [(start, False)] {} complete) (search_all g starts)"

definition reject_cycles :: "graph \<Rightarrow> unit result" where
  "reject_cycles g = search_all g (map fst g) {}"

definition reject_nonprogressing_cycles :: "schema_libs \<Rightarrow> json \<Rightarrow> unit result" where
  "reject_nonprogressing_cycles libs root =
     and_then (schema_walk (visit_edges libs) root []) (\<lambda>(g, _). reject_cycles g)"

text \<open>\<open>normalize\<close>.\<close>

definition normalize :: "schema_libs \<Rightarrow> json \<Rightarrow> json result" where
  "normalize libs schema =
     and_then (schema_walk visit_anchors schema \<lparr>fp_anchors = [], fp_locations = {}\<rparr>) (\<lambda>(st, root).
       and_then (schema_walk (visit_references libs (fp_anchors st) (fp_locations st) root) root ()) (\<lambda>(_, schema).
         and_then (reject_nonprogressing_cycles libs schema) (\<lambda>_. Ok schema)))"


section \<open>Types and properties\<close>

definition STRING :: u8 where "STRING = 1"
definition BOOLEAN :: u8 where "BOOLEAN = 2"
definition NUMBER :: u8 where "NUMBER = 4"
definition OBJECT :: u8 where "OBJECT = 8"
definition ARRAY :: u8 where "ARRAY = 16"
definition NULL :: u8 where "NULL = 32"

definition ALL_TYPES :: u8 where
  "ALL_TYPES = STRING OR BOOLEAN OR NUMBER OR OBJECT OR ARRAY OR NULL"

lemmas type_bit_defs = STRING_def BOOLEAN_def NUMBER_def OBJECT_def ARRAY_def NULL_def

definition type_bit :: "string \<Rightarrow> u8 result" where
  "type_bit item =
     (if item = ''string'' then Ok STRING
      else if item = ''boolean'' then Ok BOOLEAN
      else if item = ''number'' \<or> item = ''integer'' then Ok NUMBER
      else if item = ''object'' then Ok OBJECT
      else if item = ''array'' then Ok ARRAY
      else if item = ''null'' then Ok NULL
      else Err (definition_error ''Unknown schema type''))"

text \<open>The \<open>type\<close> keyword of a node.\<close>

definition type_items :: "json \<Rightarrow> string list result" where
  "type_items ty =
     (case as_str ty of
        Some s \<Rightarrow> Ok [s]
      | None \<Rightarrow>
          and_then (ok_or (definition_error ''Invalid schema type'') (as_array ty))
            (try_map (\<lambda>v. ok_or (definition_error ''Invalid schema type'') (as_str v))))"

definition types_keyword :: "json \<Rightarrow> u8 result" where
  "types_keyword node =
     (case json_get ''type'' node of
        None \<Rightarrow> Ok ALL_TYPES
      | Some ty \<Rightarrow> and_then (type_items ty) (\<lambda>items.
          try_fold (\<lambda>item result. map_ok (\<lambda>b. result OR b) (type_bit item)) items 0))"

text \<open>A \<open>$ref\<close> whose reference is not being expanded already.\<close>

definition fresh_ref :: "json \<Rightarrow> string set \<Rightarrow> string option" where
  "fresh_ref node active =
     (case Option.bind (json_get ''$ref'' node) as_str of
        None \<Rightarrow> None
      | Some r \<Rightarrow> if r \<in> active then None else Some r)"

definition branches_of :: "string \<Rightarrow> json \<Rightarrow> json list option" where
  "branches_of keyword node = Option.bind (json_get keyword node) as_array"

text \<open>
  \<open>types\<close>. The set \<open>active\<close> is restored before every successful return, so it is passed
  down only. The recursion through references is bounded by fuel.
\<close>

primrec types :: "nat \<Rightarrow> schema_libs \<Rightarrow> json \<Rightarrow> json \<Rightarrow> string set \<Rightarrow> u8 result" where
  "types 0 libs root = (\<lambda>node active. Panic)"
| "types (Suc n) libs root = (\<lambda>node active.
     if node = JBool False then Ok 0
     else if node = JBool True then Ok ALL_TYPES
     else
       and_then (types_keyword node) (\<lambda>result.
       and_then (case fresh_ref node active of
           None \<Rightarrow> Ok result
         | Some r \<Rightarrow> and_then (target libs root r) (\<lambda>t.
             map_ok (\<lambda>b. result AND b) (types n libs root t (insert r active)))) (\<lambda>result.
       and_then (case branches_of ''allOf'' node of
           None \<Rightarrow> Ok result
         | Some branches \<Rightarrow>
             try_fold (\<lambda>branch result. map_ok (\<lambda>b. result AND b) (types n libs root branch active))
               branches result) (\<lambda>result.
       try_fold (\<lambda>keyword result.
           case branches_of keyword node of
             None \<Rightarrow> Ok result
           | Some branches \<Rightarrow>
               map_ok (\<lambda>union. result AND union)
                 (try_fold (\<lambda>branch union. map_ok (\<lambda>b. union OR b) (types n libs root branch active))
                   branches 0))
         [''anyOf'', ''oneOf''] result))))"

fun json_refs :: "json \<Rightarrow> string list" where
  "json_refs (JArray xs) = concat (map json_refs xs)"
| "json_refs (JObject m) =
     (case Option.bind (map_of m ''$ref'') as_str of None \<Rightarrow> [] | Some r \<Rightarrow> [r])
     @ concat (map json_refs (map snd m))"
| "json_refs _ = []"

definition expansion_fuel :: "json \<Rightarrow> json \<Rightarrow> nat" where
  "expansion_fuel root node =
     length (json_refs root @ json_refs node) * Suc (json_depth root) + json_depth node"

definition schema_types :: "schema_libs \<Rightarrow> json \<Rightarrow> json \<Rightarrow> u8 result" where
  "schema_types libs root node = types (expansion_fuel root node) libs root node {}"

definition merge :: "jmap \<Rightarrow> jmap \<Rightarrow> jmap" where
  "merge into source =
     fold (\<lambda>(key, value) into.
       case map_of into key of
         Some previous \<Rightarrow> bt_insert key (json_obj [(''allOf'', JArray [previous, value])]) (bt_remove key into)
       | None \<Rightarrow> bt_insert key value into) source into"

text \<open>The alternatives of one \<open>anyOf\<close> or \<open>oneOf\<close>, merged into the fields collected so far.\<close>

definition alternatives_keys :: "jmap list \<Rightarrow> string list" where
  "alternatives_keys alternatives =
     map fst (bt_of_list (map (\<lambda>k. (k, ())) (concat (map (map fst) alternatives))))"

definition merge_alternatives :: "jmap list \<Rightarrow> jmap \<Rightarrow> jmap result" where
  "merge_alternatives alternatives into =
     (case alternatives of
        [] \<Rightarrow> Ok into
      | first # _ \<Rightarrow>
          (let expected = fst ` set into \<union> fst ` set first in
           if list_ex (\<lambda>a. fst ` set into \<union> fst ` set a \<noteq> expected) alternatives
           then Err (definition_error ''Record schema unions must have a fixed set of column names'')
           else Ok (merge into (map (\<lambda>key.
               (key, json_obj [(''anyOf'', JArray (map (\<lambda>a.
                  case map_of a key of None \<Rightarrow> JBool True | Some v \<Rightarrow> v) alternatives))]))
               (alternatives_keys alternatives)))))"

primrec collect :: "nat \<Rightarrow> schema_libs \<Rightarrow> json \<Rightarrow> json \<Rightarrow> string set \<Rightarrow> jmap result" where
  "collect 0 libs root = (\<lambda>node active. Panic)"
| "collect (Suc n) libs root = (\<lambda>node active.
     let fields = (case Option.bind (json_get ''properties'' node) as_object of None \<Rightarrow> [] | Some m \<Rightarrow> m) in
       and_then (case fresh_ref node active of
           None \<Rightarrow> Ok fields
         | Some r \<Rightarrow> and_then (target libs root r) (\<lambda>t.
             map_ok (merge fields) (collect n libs root t (insert r active)))) (\<lambda>fields.
       and_then (case branches_of ''allOf'' node of
           None \<Rightarrow> Ok fields
         | Some branches \<Rightarrow>
             try_fold (\<lambda>branch fields. map_ok (merge fields) (collect n libs root branch active))
               branches fields) (\<lambda>fields.
       try_fold (\<lambda>keyword fields.
           case branches_of keyword node of
             None \<Rightarrow> Ok fields
           | Some branches \<Rightarrow>
               and_then (try_map (\<lambda>branch. collect n libs root branch active) branches)
                 (\<lambda>alternatives. merge_alternatives alternatives fields))
         [''anyOf'', ''oneOf''] fields)))"

definition properties :: "schema_libs \<Rightarrow> json \<Rightarrow> jmap result" where
  "properties libs root =
     and_then (schema_types libs root root) (\<lambda>t.
       if t \<noteq> OBJECT then Err (definition_error ''Record schema must explicitly describe objects'')
       else collect (expansion_fuel root root) libs root root {})"

section \<open>Pointers\<close>

definition escape_char :: "char \<Rightarrow> string" where
  "escape_char c = (if c = CHR ''~'' then ''~0'' else if c = CHR ''/'' then ''~1'' else [c])"

lemma escape_chars: "escape s = concat (map escape_char s)"
  by (induction s) (auto simp: escape_def replace_char_def escape_char_def)

lemma escape_char_prefix: "escape_char c @ s = escape_char d @ t \<Longrightarrow> c = d \<and> s = t"
  by (auto simp: escape_char_def split: if_splits)

lemma escape_char_not_Nil: "escape_char c \<noteq> []"
  by (simp add: escape_char_def)

lemma escape_inj: "escape s = escape t \<Longrightarrow> s = t"
proof (induction s arbitrary: t)
  case Nil
  then show ?case by (cases t) (auto simp: escape_chars escape_char_not_Nil)
next
  case (Cons c s)
  then obtain d t' where t: "t = d # t'"
    by (cases t) (auto simp: escape_chars escape_char_not_Nil)
  have "escape_char c @ escape s = escape_char d @ escape t'"
    using Cons.prems by (simp add: t escape_chars)
  then have "c = d \<and> escape s = escape t'" by (rule escape_char_prefix)
  then show ?case using Cons.IH t by simp
qed

lemma escape_no_slash: "CHR ''/'' \<notin> set (escape s)"
  by (auto simp: escape_chars escape_char_def)


section \<open>Cycles\<close>

text \<open>The edge relation of the graph the code builds.\<close>

definition edges :: "graph \<Rightarrow> (string \<times> string) set" where
  "edges g = {(a, b). b \<in> set (successors g a)}"

lemma successors_outside: "n \<notin> fst ` set g \<Longrightarrow> successors g n = []"
  by (simp add: successors_def map_of_eq_None_iff[THEN iffD2])

lemma edges_accI:
  assumes "set (successors g n) \<subseteq> Wellfounded.acc ((edges g)\<inverse>)"
  shows "n \<in> Wellfounded.acc ((edges g)\<inverse>)"
proof (rule accI)
  fix s assume "(s, n) \<in> (edges g)\<inverse>"
  then show "s \<in> Wellfounded.acc ((edges g)\<inverse>)" using assms by (auto simp: edges_def)
qed

text \<open>Every node on its way out has its successors finished or still above it.\<close>

fun pending :: "graph \<Rightarrow> string set \<Rightarrow> (string \<times> bool) list \<Rightarrow> string set \<Rightarrow> bool" where
  "pending g complete [] over = True"
| "pending g complete ((n, leaving) # stack) over =
     ((leaving \<longrightarrow> set (successors g n) \<subseteq> complete \<union> over) \<and> pending g complete stack (insert n over))"

lemma pending_mono:
  "pending g complete stack over \<Longrightarrow> complete \<union> over \<subseteq> complete' \<union> over' \<Longrightarrow>
   pending g complete' stack over'"
proof (induction stack arbitrary: over over')
  case (Cons e stack)
  obtain n l where e: "e = (n, l)" by force
  have "complete \<union> insert n over \<subseteq> complete' \<union> insert n over'"
    using Cons.prems(2) by blast
  moreover have "pending g complete stack (insert n over)" using Cons.prems(1) by (simp add: e)
  ultimately have "pending g complete' stack (insert n over')" by (rule Cons.IH[rotated])
  then show ?case using Cons.prems by (auto simp: e)
qed simp

lemma pending_push:
  "pending g complete (rev (map (\<lambda>s. (s, False)) ss) @ stack) over \<longleftrightarrow>
   pending g complete stack (set ss \<union> over)"
  by (induction ss arbitrary: stack) auto

declare search.simps(2) [simp del]

lemma search_acc:
  assumes "search g stack active complete = Ok c"
    and "pending g complete stack {}" and "complete \<subseteq> Wellfounded.acc ((edges g)\<inverse>)"
  shows "complete \<union> fst ` set stack \<subseteq> c \<and> c \<subseteq> Wellfounded.acc ((edges g)\<inverse>)"
  using assms
proof (induction g stack active complete rule: search.induct)
  case (2 g node leaving stack active complete)
  consider (leave) leaving | (seen) "\<not> leaving" "node \<in> complete"
    | (enter) "\<not> leaving" "node \<notin> complete" "node \<notin> active"
    using "2.prems"(1) by (auto simp: search.simps(2) split: if_splits)
  then show ?case
  proof cases
    case leave
    have sub: "set (successors g node) \<subseteq> complete" and "pending g complete stack {node}"
      using "2.prems"(2) leave by auto
    then have p: "pending g (insert node complete) stack {}" by (elim pending_mono) auto
    have "node \<in> Wellfounded.acc ((edges g)\<inverse>)"
      using sub "2.prems"(3) by (intro edges_accI) blast
    moreover have "search g stack (active - {node}) (insert node complete) = Ok c"
      using "2.prems"(1) leave by (simp add: search.simps(2))
    ultimately show ?thesis using "2.IH"(1)[OF leave _ p] "2.prems"(3) by simp
  next
    case seen
    have "pending g complete stack {node}" using "2.prems"(2) by simp
    then have "pending g complete stack {}" by (rule pending_mono) (use seen in auto)
    moreover have "search g stack active complete = Ok c"
      using "2.prems"(1) seen by (simp add: search.simps(2))
    ultimately show ?thesis using "2.IH"(2)[OF seen] "2.prems"(3) seen by auto
  next
    case enter
    let ?stack = "rev (map (\<lambda>next. (next, False)) (successors g node)) @ (node, True) # stack"
    have "pending g complete stack {node}" using "2.prems"(2) by simp
    then have "pending g complete stack (insert node (set (successors g node)))"
      by (rule pending_mono) auto
    then have "pending g complete ?stack {}" by (simp add: pending_push)
    moreover have "search g ?stack (insert node active) complete = Ok c"
      using "2.prems"(1) enter by (simp add: search.simps(2))
    ultimately show ?thesis using "2.IH"(3)[OF enter] "2.prems"(3) by auto
  qed
qed simp

lemma search_all_acc:
  assumes "search_all g starts complete = Ok u" and "complete \<subseteq> Wellfounded.acc ((edges g)\<inverse>)"
  shows "set starts \<subseteq> Wellfounded.acc ((edges g)\<inverse>)"
  using assms
proof (induction starts arbitrary: complete)
  case (Cons start starts)
  then obtain c where c: "search g [(start, False)] {} complete = Ok c" and rest: "search_all g starts c = Ok u"
    by (auto simp: outcome_simps)
  have "complete \<union> {start} \<subseteq> c \<and> c \<subseteq> Wellfounded.acc ((edges g)\<inverse>)"
    using search_acc[OF c] Cons.prems by simp
  then show ?case using Cons.IH[OF rest] by auto
qed simp

text \<open>Every entry of the stack is a proper successor of the nodes being left below it.\<close>

definition on_path :: "graph \<Rightarrow> string \<times> bool \<Rightarrow> string \<times> bool \<Rightarrow> bool" where
  "on_path g e e' \<longleftrightarrow> (snd e' \<longrightarrow> (fst e', fst e) \<in> (edges g)\<^sup>+)"

lemma search_acyclic:
  assumes "acyclic (edges g)" and "sorted_wrt (on_path g) stack"
    and "active \<subseteq> {n. (n, True) \<in> set stack}"
  shows "\<exists>c. search g stack active complete = Ok c"
  using assms
proof (induction g stack active complete rule: search.induct)
  case (2 g node leaving stack active complete)
  consider (leave) leaving | (seen) "\<not> leaving" "node \<in> complete"
    | (cycle) "\<not> leaving" "node \<notin> complete" "node \<in> active"
    | (enter) "\<not> leaving" "node \<notin> complete" "node \<notin> active"
    by auto
  then show ?case
  proof cases
    case leave
    then have "\<exists>c. search g stack (active - {node}) (insert node complete) = Ok c"
      using "2.IH"(1)[OF leave] "2.prems" by auto
    then show ?thesis using leave by (simp add: search.simps(2))
  next
    case seen
    then have "\<exists>c. search g stack active complete = Ok c"
      using "2.IH"(2)[OF seen] "2.prems" by auto
    then show ?thesis using seen by (simp add: search.simps(2))
  next
    case cycle
    then have "(node, True) \<in> set stack" using "2.prems"(3) by auto
    then have "(node, node) \<in> (edges g)\<^sup>+" using "2.prems"(2) by (auto simp: on_path_def)
    then show ?thesis using "2.prems"(1) by (simp add: acyclic_def)
  next
    case enter
    let ?new = "rev (map (\<lambda>next. (next, False)) (successors g node))"
    have edge: "(node, s) \<in> edges g" if "s \<in> set (successors g node)" for s
      using that by (simp add: edges_def)
    have below: "\<forall>e \<in> set stack. on_path g (node, leaving) e" and "sorted_wrt (on_path g) stack"
      using "2.prems"(2) by simp_all
    moreover from below have "\<forall>e \<in> set stack. on_path g (node, True) e" by (simp add: on_path_def)
    ultimately have "sorted_wrt (on_path g) ((node, True) # stack)" by simp
    moreover have "sorted_wrt (on_path g) ?new"
      by (induction "successors g node") (auto simp: sorted_wrt_rev sorted_wrt_map on_path_def)
    moreover have "\<forall>e \<in> set ?new. \<forall>e' \<in> set ((node, True) # stack). on_path g e e'"
      using below edge by (auto simp: on_path_def intro: trancl.intros trancl_trans)
    ultimately have "sorted_wrt (on_path g) (?new @ (node, True) # stack)"
      unfolding sorted_wrt_append by blast
    then have "\<exists>c. search g (?new @ (node, True) # stack) (insert node active) complete = Ok c"
      using "2.IH"(3)[OF enter] "2.prems" by auto
    then show ?thesis using enter by (simp add: search.simps(2))
  qed
qed simp

lemma search_all_acyclic: "acyclic (edges g) \<Longrightarrow> search_all g starts complete = Ok ()"
proof (induction starts arbitrary: complete)
  case (Cons start starts)
  then show ?case using search_acyclic[of g "[(start, False)]" "{}" complete] by auto
qed simp

lemma search_err: "search g stack active complete = Err e \<Longrightarrow> e = cycle_error"
  by (induction g stack active complete rule: search.induct) (auto simp: search.simps(2) split: if_splits)

lemma search_not_Panic: "search g stack active complete \<noteq> Panic"
  by (induction g stack active complete rule: search.induct) (auto simp: search.simps(2))

lemma search_all_err: "search_all g starts complete = Err e \<Longrightarrow> e = cycle_error"
  by (induction starts arbitrary: complete) (auto simp: outcome_simps dest: search_err)

lemma search_all_not_Panic: "search_all g starts complete \<noteq> Panic"
  by (induction starts arbitrary: complete) (auto simp: outcome_simps search_not_Panic)

lemma reject_cycles_Ok_iff: "reject_cycles g = Ok () \<longleftrightarrow> acyclic (edges g)"
proof
  assume "reject_cycles g = Ok ()"
  then have keys: "fst ` set g \<subseteq> Wellfounded.acc ((edges g)\<inverse>)"
    using search_all_acc[of g "map fst g" "{}"] by (simp add: reject_cycles_def)
  have "n \<in> Wellfounded.acc ((edges g)\<inverse>)" for n
  proof (cases "n \<in> fst ` set g")
    case False
    then show ?thesis using edges_accI[of g n] by (simp add: successors_outside)
  qed (use keys in auto)
  then have "wf ((edges g)\<inverse>)" by (intro acc_wfI) blast
  then show "acyclic (edges g)" using wf_acyclic acyclic_converse by blast
qed (simp add: reject_cycles_def search_all_acyclic)

text \<open>
  C23: the depth-first search is a decision procedure for the absence of reference cycles: it
  accepts a graph exactly when its edge relation is acyclic, and otherwise it fails with the
  definition error of a non-progressing cycle.
\<close>

theorem reject_cycles_exact:
  "reject_cycles g = (if acyclic (edges g) then Ok () else Err cycle_error)"
  using reject_cycles_Ok_iff[of g] search_all_err search_all_not_Panic
  unfolding reject_cycles_def by (cases "search_all g (map fst g) {}") auto


section \<open>Walks\<close>

lemma try_map_st_Cons_Ok:
  "try_map_st f (x # xs) st = Ok (st', zs) \<longleftrightarrow>
     (\<exists>s y ys. f x st = Ok (s, y) \<and> try_map_st f xs s = Ok (st', ys) \<and> zs = y # ys)"
  by (auto simp: outcome_simps split: prod.splits)

lemma list_all2_right: "list_all2 P xs ys \<Longrightarrow> y \<in> set ys \<Longrightarrow> \<exists>x \<in> set xs. P x y"
  by (induction rule: list_all2_induct) auto

lemma try_map_st_list_all2:
  "try_map_st f xs st = Ok (st', ys) \<Longrightarrow> list_all2 (\<lambda>x y. \<exists>s s'. f x s = Ok (s', y)) xs ys"
proof (induction xs arbitrary: st ys)
  case (Cons x xs)
  from Cons.prems obtain s y ys' where y: "f x st = Ok (s, y)" and r: "try_map_st f xs s = Ok (st', ys')"
    and ys: "ys = y # ys'"
    unfolding try_map_st_Cons_Ok by blast
  have "\<exists>s s'. f x s = Ok (s', y)" using y by blast
  with Cons.IH[OF r] show ?case by (simp add: ys)
qed simp

lemma try_map_st_not_Panic:
  "(\<And>x st. x \<in> set xs \<Longrightarrow> f x st \<noteq> Panic) \<Longrightarrow> try_map_st f xs st \<noteq> Panic"
  by (induction xs arbitrary: st) (auto simp: outcome_simps split: prod.splits)

lemma list_all2_left: "list_all2 P xs ys \<Longrightarrow> x \<in> set xs \<Longrightarrow> \<exists>y \<in> set ys. P x y"
  by (induction rule: list_all2_induct) auto

definition structural :: "string \<Rightarrow> bool" where
  "structural key \<longleftrightarrow> key \<in> set MAPS \<or> key \<in> set LISTS \<or> key \<in> set SINGLE"

text \<open>The schema children of one entry, and the entries that are no schemas.\<close>

definition entry_children :: "string \<times> json \<Rightarrow> json list" where
  "entry_children = (\<lambda>(key, child).
     if key \<in> set MAPS then (case child of JObject cs \<Rightarrow> map snd cs | _ \<Rightarrow> [])
     else if key \<in> set LISTS then (case child of JArray xs \<Rightarrow> xs | _ \<Rightarrow> [])
     else if key \<in> set SINGLE then [child] else [])"

definition leaf_entries :: "jmap \<Rightarrow> jmap" where
  "leaf_entries m = filter (\<lambda>(key, _). \<not> structural key) m"

lemma map_of_leaf_entries: "\<not> structural key \<Longrightarrow> map_of (leaf_entries m) key = map_of m key"
  by (induction m) (auto simp: leaf_entries_def)

text \<open>A property of the leaf entries of every schema object, to a given depth.\<close>

primrec schema_all :: "(jmap \<Rightarrow> bool) \<Rightarrow> nat \<Rightarrow> json \<Rightarrow> bool" where
  "schema_all Q 0 = (\<lambda>j. True)"
| "schema_all Q (Suc n) = (\<lambda>j. case j of
     JObject m \<Rightarrow> Q (leaf_entries m) \<and> list_all (\<lambda>e. list_all (schema_all Q n) (entry_children e)) m
   | _ \<Rightarrow> True)"

lemma fold_max_ge: "x \<in> set xs \<Longrightarrow> (x :: nat) \<le> fold max xs a"
proof (induction xs arbitrary: a)
  case (Cons y ys)
  have "b \<le> fold max ys b" for b :: nat
    by (induction ys arbitrary: b) (auto intro: le_trans[OF max.cobounded2])
  from this[of "max y a"] Cons show ?case by auto
qed simp

lemma json_depth_item: "x \<in> set xs \<Longrightarrow> json_depth x < json_depth (JArray xs)"
  using fold_max_ge[of "json_depth x" "map json_depth xs" 0] by (simp add: less_Suc_eq_le)

lemma json_depth_entry: "(k, v) \<in> set m \<Longrightarrow> json_depth v < json_depth (JObject m)"
  using fold_max_ge[of "json_depth v" "map json_depth (map snd m)" 0]
  by (force simp: less_Suc_eq_le)

lemma json_depth_pos: "0 < json_depth j"
  by (cases j) auto

lemma json_depth_child:
  assumes "e \<in> set m" and "c \<in> set (entry_children e)"
  shows "json_depth c < json_depth (JObject m)"
proof -
  obtain k v where e: "e = (k, v)" by force
  have v: "json_depth v < json_depth (JObject m)" using assms(1) e json_depth_entry by blast
  have "json_depth c \<le> json_depth v"
    using assms(2) json_depth_item json_depth_entry
    by (auto simp: e entry_children_def split: if_splits json.splits intro: less_imp_le)
  with v show ?thesis by simp
qed

definition keeps_children :: "'s visitor \<Rightarrow> bool" where
  "keeps_children visit \<longleftrightarrow> (\<forall>m p st st' m'. visit m p st = Ok (st', m') \<longrightarrow>
     (\<forall>(k, v) \<in> set m'. structural k \<longrightarrow> (k, v) \<in> set m))"

lemma entry_children_leaf: "\<not> structural k \<Longrightarrow> entry_children (k, v) = []"
  by (simp add: entry_children_def structural_def)

lemma walk_entry_not_Panic:
  assumes "\<And>c p st. c \<in> set (entry_children e) \<Longrightarrow> rec c p st \<noteq> Panic"
  shows "walk_entry rec pointer e st \<noteq> Panic"
proof -
  obtain k v where e: "e = (k, v)" by force
  have "walk_children rec cs path st \<noteq> Panic" if "k \<in> set MAPS" "v = JObject cs" for cs path
    unfolding walk_children_def
    by (rule try_map_st_not_Panic)
      (use that assms in \<open>force simp: e entry_children_def outcome_simps\<close>)
  moreover have "walk_items rec xs path st \<noteq> Panic" if "k \<notin> set MAPS" "k \<in> set LISTS" "v = JArray xs" for xs path
    unfolding walk_items_def
    by (rule try_map_st_not_Panic)
      (use that assms in \<open>auto simp: e entry_children_def outcome_simps in_set_enumerate_eq\<close>)
  moreover have "rec v p st \<noteq> Panic" if "k \<notin> set MAPS" "k \<notin> set LISTS" "k \<in> set SINGLE" for p
    using that assms by (simp add: e entry_children_def)
  ultimately show ?thesis
    by (auto simp: e walk_entry_def Let_def outcome_simps split: json.splits)
qed

text \<open>Fuel for the depth of the value is enough: the walk panics only if the visitor does.\<close>

lemma walk_not_Panic:
  assumes keep: "keeps_children visit"
    and visit: "\<And>m p st. Q (leaf_entries m) \<Longrightarrow> visit m p st \<noteq> Panic" and empty: "Q []"
  shows "schema_all Q n j \<Longrightarrow> json_depth j \<le> n \<Longrightarrow> walk n visit j p st \<noteq> Panic"
proof (induction n arbitrary: j p st)
  case 0
  then show ?case using json_depth_pos[of j] by simp
next
  case (Suc n)
  show ?case
  proof (cases j)
    case (JObject m)
    have "walk_entry (walk n visit) p e st' \<noteq> Panic"
      if m': "visit m p st = Ok (s, m')" and e: "e \<in> set m'" for s m' e st'
    proof (rule walk_entry_not_Panic)
      fix c p st assume c: "c \<in> set (entry_children e)"
      have "e \<in> set m"
        using keep m' e c unfolding keeps_children_def by (cases e) (force simp: entry_children_leaf)
      then have "schema_all Q n c" "json_depth c \<le> n"
        using Suc.prems json_depth_child[of e m c] c by (auto simp: JObject list_all_iff)
      then show "walk n visit c p st \<noteq> Panic" by (rule Suc.IH)
    qed
    then have "try_map_st (walk_entry (walk n visit) p) m' st' \<noteq> Panic"
      if "visit m p st = Ok (st', m')" for st' m'
      using that by (intro try_map_st_not_Panic) auto
    moreover have "visit m p st \<noteq> Panic" using Suc.prems(1) visit by (simp add: JObject)
    ultimately show ?thesis by (auto simp: JObject outcome_simps)
  next
    case (JBool b)
    then show ?thesis using visit[of "[]"] empty by (simp add: outcome_simps leaf_entries_def)
  qed auto
qed

lemma walk_entry_Ok:
  assumes "walk_entry rec pointer e st = Ok (st', e')"
  shows "fst e' = fst e" and "\<not> structural (fst e) \<Longrightarrow> e' = e"
    and "c' \<in> set (entry_children e') \<Longrightarrow> \<exists>c p s s'. c \<in> set (entry_children e) \<and> rec c p s = Ok (s', c')"
proof -
  obtain k v where e: "e = (k, v)" by force
  obtain v' where e': "e' = (k, v')"
    using assms by (auto simp: e walk_entry_def Let_def outcome_simps split: prod.splits)
  show "fst e' = fst e" "\<not> structural (fst e) \<Longrightarrow> e' = e"
    using assms by (auto simp: e e' structural_def walk_entry_def Let_def outcome_simps)
  assume c': "c' \<in> set (entry_children e')"
  consider (maps) cs cs' s s' p where "k \<in> set MAPS" "v = JObject cs" "v' = JObject cs'"
      "walk_children rec cs p s = Ok (s', cs')"
    | (lists) xs xs' s s' p where "k \<notin> set MAPS" "k \<in> set LISTS" "v = JArray xs" "v' = JArray xs'"
      "walk_items rec xs p s = Ok (s', xs')"
    | (single) s s' p where "k \<notin> set MAPS" "k \<notin> set LISTS" "k \<in> set SINGLE" "rec v p s = Ok (s', v')"
  proof -
    have c'': "k \<in> set MAPS \<or> k \<in> set LISTS \<or> k \<in> set SINGLE"
      using c' by (auto simp: e' entry_children_def split: if_splits)
    show ?thesis
    proof (cases "k \<in> set MAPS")
      case True
      with assms show ?thesis
        by (cases v) (auto simp: e e' walk_entry_def Let_def outcome_simps intro: that(1))
    next
      case F: False
      show ?thesis
      proof (cases "k \<in> set LISTS")
        case True
        with F assms show ?thesis
          by (cases v) (auto simp: e e' walk_entry_def Let_def outcome_simps intro: that(2))
      next
        case False
        with F c'' assms show ?thesis
          by (auto simp: e e' walk_entry_def Let_def outcome_simps intro: that(3))
      qed
    qed
  qed
  then show "\<exists>c p s s'. c \<in> set (entry_children e) \<and> rec c p s = Ok (s', c')"
  proof cases
    case maps
    have all: "list_all2 (\<lambda>x y. \<exists>s s'. (\<lambda>(name, child) st. map_ok (\<lambda>(st, child). (st, name, child))
        (rec child (p @ ''/'' @ escape name) st)) x s = Ok (s', y)) cs cs'"
      using maps(4) unfolding walk_children_def by (rule try_map_st_list_all2)
    obtain n' where "(n', c') \<in> set cs'" using c' maps(1,3) by (auto simp: e' entry_children_def)
    then obtain nm child where "(nm, child) \<in> set cs" "\<exists>s s'. (\<lambda>(name, child) st. map_ok (\<lambda>(st, child). (st, name, child))
        (rec child (p @ ''/'' @ escape name) st)) (nm, child) s = Ok (s', (n', c'))"
      using list_all2_right[OF all] by fast
    then have "child \<in> set (entry_children e)" "\<exists>s s'. rec child (p @ ''/'' @ escape nm) s = Ok (s', c')"
      using maps(1,2) by (force simp: e entry_children_def, auto simp: outcome_simps)
    then show ?thesis by blast
  next
    case lists
    have all: "list_all2 (\<lambda>x y. \<exists>s s'. (\<lambda>(i, child) st. rec child (p @ ''/'' @ show_nat i) st) x s = Ok (s', y))
        (enumerate 0 xs) xs'"
      using lists(5) unfolding walk_items_def by (rule try_map_st_list_all2)
    have "c' \<in> set xs'" using c' lists(1,2,4) by (auto simp: e' entry_children_def)
    then obtain i child where "(i, child) \<in> set (enumerate 0 xs)"
      "\<exists>s s'. (\<lambda>(i, child) st. rec child (p @ ''/'' @ show_nat i) st) (i, child) s = Ok (s', c')"
      using list_all2_right[OF all] by fast
    then have "child \<in> set (entry_children e)" "\<exists>s s'. rec child (p @ ''/'' @ show_nat i) s = Ok (s', c')"
      using lists(1,2,3) by (auto simp: e entry_children_def in_set_enumerate_eq)
    then show ?thesis by blast
  next
    case single
    then show ?thesis using c' by (auto simp: e e' entry_children_def)
  qed
qed

text \<open>The objects of a well-formed value are ordered maps of well-formed values.\<close>

lemma entry_children_wf:
  "json_wf (JObject m) \<Longrightarrow> e \<in> set m \<Longrightarrow> c \<in> set (entry_children e) \<Longrightarrow> json_wf c"
  by (cases e) (force simp: entry_children_def list_all_iff split: if_splits json.splits)

text \<open>An entry of the result is well-formed when its children are.\<close>

lemma walk_entry_wf:
  assumes w: "walk_entry rec pointer e st = Ok (st', e')" and wf: "json_wf (snd e)"
    and children: "\<And>c'. c' \<in> set (entry_children e') \<Longrightarrow> json_wf c'"
  shows "json_wf (snd e')"
proof -
  obtain k v where e: "e = (k, v)" by force
  obtain v' where e': "e' = (k, v')" using walk_entry_Ok(1)[OF w] by (cases e') (auto simp: e)
  consider (maps) "k \<in> set MAPS" | (lists) "k \<notin> set MAPS" "k \<in> set LISTS"
    | (single) "k \<notin> set MAPS" "k \<notin> set LISTS" "k \<in> set SINGLE" | (leaf) "\<not> structural k"
    by (auto simp: structural_def)
  then show ?thesis
  proof cases
    case maps
    then obtain cs cs' p s s' where v: "v = JObject cs" "v' = JObject cs'" "walk_children rec cs p s = Ok (s', cs')"
      using w by (cases v) (auto simp: e e' walk_entry_def Let_def outcome_simps)
    have "map fst cs' = map fst cs"
      using try_map_st_list_all2[OF v(3)[unfolded walk_children_def]]
      by (induction rule: list_all2_induct) (auto simp: outcome_simps)
    then have "bt_wf cs'" using wf by (simp add: e v bt_wf_def)
    then show ?thesis using children maps by (auto simp: e' v entry_children_def list_all_iff)
  next
    case lists
    then obtain xs xs' where v: "v' = JArray xs'"
      using w by (cases v) (auto simp: e e' walk_entry_def Let_def outcome_simps)
    then show ?thesis using children lists by (auto simp: e' entry_children_def list_all_iff)
  next
    case single
    then show ?thesis using children by (auto simp: e' entry_children_def)
  next
    case leaf
    then show ?thesis using walk_entry_Ok(2)[OF w] wf by (simp add: e)
  qed
qed

lemma walk_children_source:
  assumes keep: "keeps_children visit" and m': "visit m p st = Ok (s, m')"
    and w: "try_map_st (walk_entry rec q) m' s = Ok (st', m'')"
    and e': "e' \<in> set m''" and c': "c' \<in> set (entry_children e')"
  obtains e c p s s' where "e \<in> set m" "c \<in> set (entry_children e)" "rec c p s = Ok (s', c')"
proof -
  obtain e s s' where e: "e \<in> set m'" "walk_entry rec q e s = Ok (s', e')"
    using list_all2_right[OF try_map_st_list_all2[OF w] e'] by blast
  obtain c p s s' where c: "c \<in> set (entry_children e)" "rec c p s = Ok (s', c')"
    using walk_entry_Ok(3)[OF e(2) c'] by blast
  have "e \<in> set m"
    using keep m' e(1) c(1) unfolding keeps_children_def by (cases e) (force simp: entry_children_leaf)
  then show ?thesis using c by (rule that)
qed

lemma walk_leaf_entries:
  assumes "try_map_st (walk_entry rec q) m' s = Ok (st', m'')"
  shows "leaf_entries m'' = leaf_entries m'" and "map fst m'' = map fst m'"
proof -
  have "list_all2 (\<lambda>e e'. \<exists>s s'. walk_entry rec q e s = Ok (s', e')) m' m''"
    using try_map_st_list_all2[OF assms] .
  then have "leaf_entries m'' = leaf_entries m' \<and> map fst m'' = map fst m'"
  proof (induction rule: list_all2_induct)
    case (Cons e es e' es')
    then obtain s s' where "walk_entry rec q e s = Ok (s', e')" by blast
    note walk_entry_Ok(1)[OF this] walk_entry_Ok(2)[OF this]
    then show ?case using Cons by (cases e; cases e') (auto simp: leaf_entries_def)
  qed simp
  then show "leaf_entries m'' = leaf_entries m'" "map fst m'' = map fst m'" by auto
qed

text \<open>What the visitor ensures of the leaf entries holds at every schema object of the result.\<close>

lemma walk_schema_all:
  assumes keep: "keeps_children visit"
    and visit: "\<And>m p st st' m'. bt_wf m \<Longrightarrow> visit m p st = Ok (st', m') \<Longrightarrow> Q (leaf_entries m')"
  shows "walk n visit j p st = Ok (st', j') \<Longrightarrow> json_wf j \<Longrightarrow> schema_all Q k j'"
proof (induction n arbitrary: j p st st' j' k)
  case (Suc n)
  show ?case
  proof (cases "\<exists>m'' k'. j' = JObject m'' \<and> k = Suc k'")
    case True
    then obtain m'' k' where j': "j' = JObject m''" and k: "k = Suc k'" by blast
    obtain m s m' where j: "j = JObject m" and m': "visit m p st = Ok (s, m')"
      and w: "try_map_st (walk_entry (walk n visit) p) m' s = Ok (st', m'')"
      using Suc.prems(1) by (auto simp: j' outcome_simps split: json.splits)
    have "schema_all Q k' c'" if e': "e' \<in> set m''" and c': "c' \<in> set (entry_children e')" for e' c'
      using walk_children_source[OF keep m' w e' c'] Suc.IH entry_children_wf Suc.prems(2) j by metis
    then show ?thesis using visit[OF _ m'] walk_leaf_entries[OF w] Suc.prems(2) j
      by (simp add: k j' list_all_iff)
  next
    case False
    then show ?thesis by (cases k; cases j') auto
  qed
qed simp

lemma walk_wf:
  assumes keep: "keeps_children visit"
    and visit: "\<And>m p st st' m'. json_wf (JObject m) \<Longrightarrow> visit m p st = Ok (st', m') \<Longrightarrow> json_wf (JObject m')"
  shows "walk n visit j p st = Ok (st', j') \<Longrightarrow> json_wf j \<Longrightarrow> json_wf j'"
proof (induction n arbitrary: j p st st' j')
  case (Suc n)
  show ?case
  proof (cases "\<exists>m. j = JObject m")
    case True
    then obtain m where j: "j = JObject m" by blast
    obtain s m' m'' where m': "visit m p st = Ok (s, m')" and j': "j' = JObject m''"
      and w: "try_map_st (walk_entry (walk n visit) p) m' s = Ok (st', m'')"
      using Suc.prems(1) by (auto simp: j outcome_simps split: json.splits)
    have wf: "json_wf (JObject m')" using visit[OF _ m'] Suc.prems(2) j by blast
    have "json_wf (snd e')" if e': "e' \<in> set m''" for e'
    proof -
      obtain e s s' where e: "e \<in> set m'" "walk_entry (walk n visit) p e s = Ok (s', e')"
        using list_all2_right[OF try_map_st_list_all2[OF w] e'] by blast
      have "json_wf (snd e)" using wf e(1) by (auto simp: list_all_iff)
      moreover have "json_wf c'" if "c' \<in> set (entry_children e')" for c'
        using walk_children_source[OF keep m' w e' that] Suc.IH entry_children_wf Suc.prems(2) j by metis
      ultimately show ?thesis by (rule walk_entry_wf[OF e(2)])
    qed
    moreover have "bt_wf m''" using wf walk_leaf_entries(2)[OF w] by (simp add: bt_wf_def)
    ultimately show ?thesis by (auto simp: j' list_all_iff)
  next
    case False
    then show ?thesis using Suc.prems by (auto simp: outcome_simps split: json.splits)
  qed
qed simp


section \<open>Normal form\<close>

lemma leaf_keywords [simp]:
  "\<not> structural ''$schema''" "\<not> structural ''$ref''" "\<not> structural ''discriminator''" "\<not> structural ''$anchor''"
  by (simp_all add: structural_def MAPS_def LISTS_def SINGLE_def)

lemma json_wf_insert: "json_wf (JObject m) \<Longrightarrow> json_wf v \<Longrightarrow> json_wf (JObject (bt_insert k v m))"
  using set_bt_insert_subset[of k v m] by (fastforce simp: list_all_iff)

lemma json_wf_remove: "json_wf (JObject m) \<Longrightarrow> json_wf (JObject (bt_remove k m))"
  by (auto simp: list_all_iff)

lemma json_wf_lookup: "json_wf (JObject m) \<Longrightarrow> map_of m k = Some v \<Longrightarrow> json_wf v"
  by (force simp: list_all_iff dest: map_of_SomeD)

lemma as_object_iff: "as_object v = Some m \<longleftrightarrow> v = JObject m"
  by (cases v) auto

lemma as_str_iff: "as_str v = Some s \<longleftrightarrow> v = JString s"
  by (cases v) auto

lemma as_array_iff: "as_array v = Some s \<longleftrightarrow> v = JArray s"
  by (cases v) auto

text \<open>The first visitor changes \<open>$schema\<close> only.\<close>

lemma visit_anchors_Ok:
  assumes "visit_anchors m p st = Ok (st', m')"
  shows "m' = m \<or> m' = bt_insert ''$schema'' (JString dialect_2020) m"
  using assms unfolding visit_anchors_def Let_def
  by (auto simp: outcome_simps split: option.splits if_splits)

lemma visit_anchors_not_Panic: "visit_anchors m p st \<noteq> Panic"
  unfolding visit_anchors_def Let_def
  by (auto simp: outcome_simps split: option.splits if_splits)

lemma visit_anchors_keeps: "keeps_children visit_anchors"
  unfolding keeps_children_def
proof (intro allI impI ballI, clarify)
  fix m p st st' m' k v
  assume "visit_anchors m p st = Ok (st', m')" "(k, v) \<in> set m'" "structural k"
  then show "(k, v) \<in> set m"
    using visit_anchors_Ok set_bt_insert_subset[of "''$schema''" "JString dialect_2020" m] by fastforce
qed

lemma visit_anchors_wf:
  "json_wf (JObject m) \<Longrightarrow> visit_anchors m p st = Ok (st', m') \<Longrightarrow> json_wf (JObject m')"
  using visit_anchors_Ok[of m p st st' m'] json_wf_insert[of m "JString dialect_2020" "''$schema''"]
  by (auto simp del: json_wf.simps(3))

text \<open>The second one changes \<open>$ref\<close> and \<open>discriminator\<close>, and removes \<open>$anchor\<close>.\<close>

lemma rewrite_values_wf:
  assumes "rewrite_values rewrite m st = Ok (st', m')" and "bt_wf m"
  shows "json_wf (JObject m')"
proof -
  have all: "list_all2 (\<lambda>e e'. fst e' = fst e \<and> json_wf (snd e')) m m'"
    by (rule list_all2_mono[OF try_map_st_list_all2[OF assms(1)[unfolded rewrite_values_def]]])
      (auto simp: outcome_simps)
  then have "map fst m' = map fst m" by (induction rule: list_all2_induct) auto
  moreover have "\<forall>e' \<in> set m'. json_wf (snd e')" using list_all2_right[OF all] by blast
  ultimately show ?thesis using assms(2) by (auto simp: bt_wf_def list_all_iff)
qed

lemma rewrite_ref_Ok:
  assumes "rewrite_ref rewrite m st = Ok (st', m')"
  obtains "m' = m" "map_of m ''$ref'' = None"
  | old t s where "rewrite old st = Ok (s, t)" "m' = bt_insert ''$ref'' (JString t) m"
  using assms unfolding rewrite_ref_def by (auto simp: outcome_simps split: option.splits)

lemma rewrite_discriminator_Ok:
  assumes "rewrite_discriminator rewrite m st = Ok (st', m')"
  obtains "m' = m"
  | obj entries st'' entries' where "map_of m ''discriminator'' = Some (JObject obj)"
      "map_of obj ''mapping'' = Some (JObject entries)"
      "rewrite_values rewrite entries st'' = Ok (st', entries')"
      "m' = bt_insert ''discriminator'' (JObject (bt_insert ''mapping'' (JObject entries') obj)) m"
  using assms unfolding rewrite_discriminator_def
  by (auto simp: outcome_simps as_object_iff split: option.splits if_splits)

lemma rewrite_refs_keeps:
  assumes "rewrite_refs rewrite m st = Ok (st', m')" and "(k, v) \<in> set m'" and "structural k"
  shows "(k, v) \<in> set m"
proof -
  obtain s m1 where m1: "rewrite_ref rewrite m st = Ok (s, m1)" and m': "rewrite_discriminator rewrite m1 s = Ok (st', m')"
    using assms(1) by (auto simp: rewrite_refs_def outcome_simps)
  have k: "k \<noteq> ''$ref''" "k \<noteq> ''discriminator''" using assms(3) by auto
  have "(k, v) \<in> set m1"
    by (rule rewrite_discriminator_Ok[OF m']) (use assms(2) k in \<open>auto dest: set_bt_insert_subset[THEN subsetD]\<close>)
  with m1 show ?thesis
    by (cases rule: rewrite_ref_Ok) (use k in \<open>auto dest: set_bt_insert_subset[THEN subsetD]\<close>)
qed

lemma rewrite_refs_wf:
  assumes "rewrite_refs rewrite m st = Ok (st', m')" and "json_wf (JObject m)"
  shows "json_wf (JObject m')"
proof -
  obtain s m1 where m1: "rewrite_ref rewrite m st = Ok (s, m1)" and m': "rewrite_discriminator rewrite m1 s = Ok (st', m')"
    using assms(1) by (auto simp: rewrite_refs_def outcome_simps)
  have wf1: "json_wf (JObject m1)"
    by (rule rewrite_ref_Ok[OF m1]) (use assms(2) json_wf_insert in \<open>auto simp del: json_wf.simps(3)\<close>)
  from m' show ?thesis
  proof (cases rule: rewrite_discriminator_Ok)
    case (2 obj entries st'' entries')
    have obj: "json_wf (JObject obj)" using json_wf_lookup[OF wf1 2(1)] .
    have "bt_wf entries" using json_wf_lookup[OF obj 2(2)] by simp
    then show ?thesis
      using 2(4) wf1 obj rewrite_values_wf[OF 2(3)] by (simp only: json_wf_insert)
  qed (use wf1 in simp)
qed

text \<open>After the rewriting a \<open>$ref\<close> is a rewritten reference.\<close>

lemma rewrite_refs_ref:
  assumes "rewrite_refs rewrite m st = Ok (st', m')" and wf: "bt_wf m"
    and "map_of m' ''$ref'' = Some v"
  shows "\<exists>old t s s'. rewrite old s = Ok (s', t) \<and> v = JString t"
proof -
  obtain s m1 where m1: "rewrite_ref rewrite m st = Ok (s, m1)" and m': "rewrite_discriminator rewrite m1 s = Ok (st', m')"
    using assms(1) by (auto simp: rewrite_refs_def outcome_simps)
  have "bt_wf m1" by (rule rewrite_ref_Ok[OF m1]) (use wf in auto)
  with m' have ref: "map_of m1 ''$ref'' = Some v"
    by (cases rule: rewrite_discriminator_Ok) (use assms(3) in auto)
  from m1 show ?thesis by (cases rule: rewrite_ref_Ok) (use ref wf in auto)
qed

lemma rewrite_refs_not_Panic:
  assumes "\<And>r s. rewrite r s \<noteq> Panic"
  shows "rewrite_refs rewrite m st \<noteq> Panic"
proof -
  have "rewrite_values rewrite es st \<noteq> Panic" for es st
    unfolding rewrite_values_def
    by (rule try_map_st_not_Panic) (auto simp: outcome_simps assms)
  then have "rewrite_discriminator rewrite m st \<noteq> Panic" for m st
    by (auto simp: rewrite_discriminator_def outcome_simps split: option.splits)
  moreover have "rewrite_ref rewrite m st \<noteq> Panic"
    by (auto simp: rewrite_ref_def outcome_simps assms split: option.splits)
  ultimately show ?thesis by (auto simp: rewrite_refs_def outcome_simps)
qed

lemma normalize_reference_not_Panic: "normalize_reference libs anchors locations root r \<noteq> Panic"
  by (auto simp: normalize_reference_def outcome_simps)

lemma normalize_reference_Ok:
  assumes "normalize_reference libs anchors locations root r = Ok t"
  shows "\<exists>p. t = ''#'' @ lib_encode libs p \<and> p \<in> locations \<and> lib_pointer libs root p \<noteq> None"
  using assms by (auto simp: normalize_reference_def outcome_simps split: if_splits)

lemma visit_references_Ok:
  assumes "visit_references libs anchors locations root m p st = Ok (st', m')"
  obtains m1 where "m' = bt_remove ''$anchor'' m1"
    "rewrite_refs (\<lambda>r st. map_ok (Pair st) (normalize_reference libs anchors locations root r)) m st = Ok (st', m1)"
  using assms by (auto simp: visit_references_def outcome_simps)

lemma visit_references_not_Panic: "visit_references libs anchors locations root m p st \<noteq> Panic"
  unfolding visit_references_def
  by (simp add: outcome_simps rewrite_refs_not_Panic normalize_reference_not_Panic)

lemma visit_references_keeps: "keeps_children (visit_references libs anchors locations root)"
  unfolding keeps_children_def
  by (auto elim!: visit_references_Ok dest: rewrite_refs_keeps)

lemma visit_references_wf:
  assumes "json_wf (JObject m)" "visit_references libs anchors locations root m p st = Ok (st', m')"
  shows "json_wf (JObject m')"
  using assms(2)
proof (cases rule: visit_references_Ok)
  case (1 m1)
  then show ?thesis using rewrite_refs_wf[OF 1(2) assms(1)] json_wf_remove by (simp only:)
qed

text \<open>
  The normal form of one schema object: no anchor, and a reference, if any, is the encoded
  pointer of a schema location.
\<close>

definition normal_refs :: "schema_libs \<Rightarrow> string set \<Rightarrow> json \<Rightarrow> jmap \<Rightarrow> bool" where
  "normal_refs libs locations root m \<longleftrightarrow> map_of m ''$anchor'' = None \<and>
     (\<forall>v. map_of m ''$ref'' = Some v \<longrightarrow>
       (\<exists>p. v = JString (''#'' @ lib_encode libs p) \<and> p \<in> locations \<and> lib_pointer libs root p \<noteq> None))"

lemma visit_references_normal:
  assumes "bt_wf m" and "visit_references libs anchors locations root m p st = Ok (st', m')"
  shows "normal_refs libs locations root (leaf_entries m')"
  using assms(2)
proof (cases rule: visit_references_Ok)
  case (1 m1)
  have "\<exists>p. v = JString (''#'' @ lib_encode libs p) \<and> p \<in> locations \<and> lib_pointer libs root p \<noteq> None"
    if "map_of m1 ''$ref'' = Some v" for v
    using rewrite_refs_ref[OF 1(2) assms(1) that] normalize_reference_Ok by (auto simp: outcome_simps)
  then show ?thesis by (simp add: normal_refs_def map_of_leaf_entries 1)
qed

text \<open>\<open>utf8_percent_encode\<close> produces ASCII text.\<close>

definition ascii_encoding :: "schema_libs \<Rightarrow> bool" where
  "ascii_encoding libs \<longleftrightarrow> (\<forall>p. \<forall>c \<in> set (lib_encode libs p). c < CHR 0x80)"

lemma slice_encoded: "ascii_encoding libs \<Longrightarrow> slice_from_1 (''#'' @ lib_encode libs p) = Ok (lib_encode libs p)"
  by (cases "lib_encode libs p") (auto simp: slice_from_1_def ascii_encoding_def not_le dest!: spec[of _ p])

lemma visit_edges_not_Panic:
  assumes "ascii_encoding libs" and "normal_refs libs locations root (leaf_entries m)"
  shows "visit_edges libs m p g \<noteq> Panic"
proof -
  have "slice_from_1 r \<noteq> Panic" if "map_of m ''$ref'' = Some (JString r)" for r
    using that assms(2) slice_encoded[OF assms(1)] by (auto simp: normal_refs_def map_of_leaf_entries)
  then show ?thesis
    by (auto simp: visit_edges_def edges_of_def outcome_simps bind_eq_Some_conv as_str_iff split: option.splits)
qed

lemma visit_edges_keeps: "keeps_children (visit_edges libs)"
  by (auto simp: keeps_children_def visit_edges_def outcome_simps)

lemma schema_all_True: "schema_all (\<lambda>_. True) n j"
  by (induction n arbitrary: j) (auto simp: list_all_iff split: json.splits)

lemma schema_walk_not_Panic:
  assumes "keeps_children visit" and "\<And>m p st. visit m p st \<noteq> Panic"
  shows "schema_walk visit j st \<noteq> Panic"
  unfolding schema_walk_def
  using walk_not_Panic[OF assms(1), of "\<lambda>_. True"] assms(2) schema_all_True by blast

lemma walk_anchors_wf:
  "schema_walk visit_anchors j st = Ok (st', j') \<Longrightarrow> json_wf j \<Longrightarrow> json_wf j'"
  unfolding schema_walk_def by (rule walk_wf[OF visit_anchors_keeps], erule (1) visit_anchors_wf)

lemma walk_references_wf:
  "schema_walk (visit_references libs anchors locations root) j st = Ok (st', j') \<Longrightarrow> json_wf j \<Longrightarrow> json_wf j'"
  unfolding schema_walk_def by (rule walk_wf[OF visit_references_keeps], erule (1) visit_references_wf)

lemma walk_references_normal:
  "schema_walk (visit_references libs anchors locations root) j st = Ok (st', j') \<Longrightarrow> json_wf j \<Longrightarrow>
   schema_all (normal_refs libs locations root) k j'"
  unfolding schema_walk_def
  by (rule walk_schema_all[OF visit_references_keeps], erule (1) visit_references_normal)

lemma normalize_Ok:
  assumes "normalize libs schema = Ok schema'" and "json_wf schema"
  obtains st root where
    "schema_walk visit_anchors schema \<lparr>fp_anchors = [], fp_locations = {}\<rparr> = Ok (st, root)"
    "json_wf root" "json_wf schema'" "\<And>k. schema_all (normal_refs libs (fp_locations st) root) k schema'"
    "reject_nonprogressing_cycles libs schema' = Ok ()"
proof -
  obtain st root st2 where w1: "schema_walk visit_anchors schema \<lparr>fp_anchors = [], fp_locations = {}\<rparr> = Ok (st, root)"
    and w2: "schema_walk (visit_references libs (fp_anchors st) (fp_locations st) root) root () = Ok (st2, schema')"
    and c: "reject_nonprogressing_cycles libs schema' = Ok ()"
    using assms(1) by (auto simp: normalize_def outcome_simps)
  have wf: "json_wf root"
    using walk_anchors_wf[OF w1 assms(2)] .
  have "json_wf schema'"
    using walk_references_wf[OF w2 wf] .
  moreover have "schema_all (normal_refs libs (fp_locations st) root) k schema'" for k
    using walk_references_normal[OF w2 wf] .
  ultimately show ?thesis using that w1 wf c by blast
qed

text \<open>
  C25: normalization never panics, on any schema document: no walk runs out of fuel, and the
  slices \<open>&reference[1..]\<close> of the cycle check only meet references that the rewriting has
  made start with \<open>#\<close>.
\<close>

theorem normalize_no_panic:
  assumes "json_wf schema" and "ascii_encoding libs"
  shows "normalize libs schema \<noteq> Panic"
proof
  assume panic: "normalize libs schema = Panic"
  obtain st root st2 schema' where
    w1: "schema_walk visit_anchors schema \<lparr>fp_anchors = [], fp_locations = {}\<rparr> = Ok (st, root)"
    and w2: "schema_walk (visit_references libs (fp_anchors st) (fp_locations st) root) root () = Ok (st2, schema')"
    and c: "reject_nonprogressing_cycles libs schema' = Panic"
    using panic schema_walk_not_Panic[OF visit_anchors_keeps visit_anchors_not_Panic]
      schema_walk_not_Panic[OF visit_references_keeps visit_references_not_Panic]
    by (auto simp: normalize_def outcome_simps)
  have wf: "json_wf root"
    using walk_anchors_wf[OF w1 assms(1)] .
  have "schema_all (normal_refs libs (fp_locations st) root) k schema'" for k
    using walk_references_normal[OF w2 wf] .
  then have "schema_walk (visit_edges libs) schema' [] \<noteq> Panic"
    unfolding schema_walk_def
    by (intro walk_not_Panic[OF visit_edges_keeps, of "normal_refs libs (fp_locations st) root"]
        visit_edges_not_Panic[OF assms(2)]) (auto simp: normal_refs_def[of _ _ _ "[]"])
  then show False
    using c search_all_not_Panic by (auto simp: reject_nonprogressing_cycles_def reject_cycles_def outcome_simps)
qed


definition ascii_libs :: schema_libs where
  "ascii_libs = \<lparr>lib_decode = Some, lib_encode = filter (\<lambda>c. c < CHR 0x80),
     lib_pointer = (\<lambda>root p. if p = [] then Some root
        else if p = ''/$defs/n'' then Option.bind (json_get ''$defs'' root) (json_get ''n'') else None)\<rparr>"

definition sample_schema :: json where
  "sample_schema = json_obj [(''$defs'', json_obj [(''n'', json_obj [(''$anchor'', JString ''node''),
      (''properties'', json_obj [(''next'', json_obj [(''$ref'', JString ''#node'')])])])]),
     (''$ref'', JString ''#node'')]"

definition sample_normal :: json where
  "sample_normal = json_obj [(''$defs'', json_obj [(''n'', json_obj [
      (''properties'', json_obj [(''next'', json_obj [(''$ref'', JString ''#/$defs/n'')])])])]),
     (''$ref'', JString ''#/$defs/n'')]"

lemma sample_wf: "json_wf sample_schema"
  by code_simp

lemma sample_normalize: "normalize ascii_libs sample_schema = Ok sample_normal"
  by code_simp

theorem normalize_no_panic_witness: "normalize ascii_libs sample_schema \<noteq> Panic"
  by (rule normalize_no_panic[OF sample_wf]) (simp add: ascii_encoding_def ascii_libs_def)



section \<open>Types of valid instances\<close>

text \<open>The type of an instance, as the bit \<open>types\<close> uses for it.\<close>

fun value_index :: "json \<Rightarrow> nat" where
  "value_index (JString _) = 0"
| "value_index (JBool _) = 1"
| "value_index (JNumber _) = 2"
| "value_index (JObject _) = 3"
| "value_index (JArray _) = 4"
| "value_index JNull = 5"

definition value_bit :: "json \<Rightarrow> u8" where
  "value_bit v = 2 ^ value_index v"

text \<open>
  What a 2020-12 validator promises of the keywords that \<open>types\<close> and \<open>properties\<close> look at.
  \<open>valid node v\<close> is validity of the instance \<open>v\<close> against the schema node.
\<close>

definition type_ok :: "json \<Rightarrow> json \<Rightarrow> bool" where
  "type_ok ty v \<longleftrightarrow> (\<forall>items. type_items ty = Ok items \<longrightarrow> (\<exists>i \<in> set items. type_bit i = Ok (value_bit v)))"

definition narrows :: "schema_libs \<Rightarrow> json \<Rightarrow> (json \<Rightarrow> json \<Rightarrow> bool) \<Rightarrow> bool" where
  "narrows libs root valid \<longleftrightarrow> (\<forall>v. \<not> valid (JBool False) v) \<and>
     (\<forall>node v. valid node v \<longrightarrow>
       (\<forall>ty. json_get ''type'' node = Some ty \<longrightarrow> type_ok ty v) \<and>
       (\<forall>r t. json_get ''$ref'' node = Some (JString r) \<longrightarrow> target libs root r = Ok t \<longrightarrow> valid t v) \<and>
       (\<forall>bs. json_get ''allOf'' node = Some (JArray bs) \<longrightarrow> (\<forall>b \<in> set bs. valid b v)) \<and>
       (\<forall>bs. json_get ''anyOf'' node = Some (JArray bs) \<longrightarrow> (\<exists>b \<in> set bs. valid b v)) \<and>
       (\<forall>bs. json_get ''oneOf'' node = Some (JArray bs) \<longrightarrow> (\<exists>b \<in> set bs. valid b v)))"

definition applies_properties :: "(json \<Rightarrow> json \<Rightarrow> bool) \<Rightarrow> bool" where
  "applies_properties valid \<longleftrightarrow>
     (\<forall>node obj props k s x. valid node (JObject obj) \<longrightarrow> json_get ''properties'' node = Some (JObject props)
        \<longrightarrow> map_of props k = Some s \<longrightarrow> map_of obj k = Some x \<longrightarrow> valid s x)"

definition combines :: "(json \<Rightarrow> json \<Rightarrow> bool) \<Rightarrow> bool" where
  "combines valid \<longleftrightarrow> (\<forall>x. valid (JBool True) x) \<and>
     (\<forall>a b x. valid a x \<longrightarrow> valid b x \<longrightarrow> valid (json_obj [(''allOf'', JArray [a, b])]) x) \<and>
     (\<forall>bs x. (\<exists>b \<in> set bs. valid b x) \<longrightarrow> valid (json_obj [(''anyOf'', JArray bs)]) x)"

lemma branches_of_iff: "branches_of kw node = Some bs \<longleftrightarrow> json_get kw node = Some (JArray bs)"
  by (auto simp: branches_of_def bind_eq_Some_conv as_array_iff)

lemma fresh_ref_iff:
  "fresh_ref node active = Some r \<longleftrightarrow> json_get ''$ref'' node = Some (JString r) \<and> r \<notin> active"
  by (auto simp: fresh_ref_def bind_eq_Some_conv as_str_iff split: option.splits if_splits)

lemma narrowsD:
  assumes "narrows libs root valid" and "valid node v"
  shows "json_get ''type'' node = Some ty \<Longrightarrow> type_ok ty v"
    and "fresh_ref node active = Some r \<Longrightarrow> target libs root r = Ok t \<Longrightarrow> valid t v"
    and "branches_of ''allOf'' node = Some bs \<Longrightarrow> b \<in> set bs \<Longrightarrow> valid b v"
    and "branches_of ''anyOf'' node = Some bs \<Longrightarrow> \<exists>b \<in> set bs. valid b v"
    and "branches_of ''oneOf'' node = Some bs \<Longrightarrow> \<exists>b \<in> set bs. valid b v"
  using assms unfolding narrows_def branches_of_iff fresh_ref_iff by blast+

lemma and_value_bit: "t AND value_bit v \<noteq> 0 \<longleftrightarrow> bit t (value_index v)"
  unfolding value_bit_def using and_exp_eq_0_iff_not_bit[of t "value_index v"] by blast

lemma ALL_TYPES_value: "ALL_TYPES = 63"
  by (simp add: ALL_TYPES_def type_bit_defs)

lemma bit_ALL_TYPES: "bit ALL_TYPES (value_index v)"
  by (cases v) (simp_all add: ALL_TYPES_value bit_numeral_rec)

text \<open>The loops that intersect and unite type sets.\<close>

lemma and_fold_bit:
  assumes "try_fold (\<lambda>b acc. map_ok (\<lambda>t. acc AND t) (f b)) bs (acc :: u8) = Ok t" and "bit acc i"
    and "\<And>b t. b \<in> set bs \<Longrightarrow> f b = Ok t \<Longrightarrow> bit t i"
  shows "bit t i"
  by (rule try_fold_invariant[OF assms(1), of "\<lambda>t. bit t i"])
    (use assms(2,3) in \<open>auto simp: outcome_simps bit_and_iff\<close>)

lemma or_fold_mono:
  "try_fold (\<lambda>b acc. map_ok (\<lambda>t. acc OR t) (f b)) bs (acc :: u8) = Ok t \<Longrightarrow> bit acc i \<Longrightarrow> bit t i"
  by (erule try_fold_invariant[of _ _ _ _ "\<lambda>t. bit t i"]) (auto simp: outcome_simps bit_or_iff)

lemma or_fold_bit:
  assumes "try_fold (\<lambda>b acc. map_ok (\<lambda>t. acc OR t) (f b)) bs (acc :: u8) = Ok t" and "b \<in> set bs"
    and "\<And>t. f b = Ok t \<Longrightarrow> bit t i"
  shows "bit t i"
proof -
  obtain xs ys where bs: "bs = xs @ b # ys" using assms(2) by (meson split_list)
  obtain t0 t1 where "f b = Ok t1"
    and r: "try_fold (\<lambda>b acc. map_ok (\<lambda>t. acc OR t) (f b)) ys (t0 OR t1) = Ok t"
    using assms(1) by (auto simp: bs try_fold_append outcome_simps)
  then show ?thesis using or_fold_mono[OF r] assms(3) by (simp add: bit_or_iff)
qed

lemma types_keyword_sound:
  assumes "types_keyword node = Ok t" and "\<And>ty. json_get ''type'' node = Some ty \<Longrightarrow> type_ok ty v"
  shows "bit t (value_index v)"
proof (cases "json_get ''type'' node")
  case None
  then show ?thesis using assms(1) bit_ALL_TYPES by (simp add: types_keyword_def)
next
  case (Some ty)
  then obtain items where items: "type_items ty = Ok items"
    and f: "try_fold (\<lambda>item result. map_ok (\<lambda>b. result OR b) (type_bit item)) items 0 = Ok t"
    using assms(1) by (auto simp: types_keyword_def outcome_simps)
  obtain i where i: "i \<in> set items" "type_bit i = Ok (value_bit v)"
    using assms(2)[OF Some] items by (auto simp: type_ok_def)
  show ?thesis
    by (rule or_fold_bit[OF f i(1)]) (use i(2) in \<open>auto simp: value_bit_def bit_exp_iff, cases v, auto\<close>)
qed

lemma types_sound:
  assumes laws: "narrows libs root valid"
  shows "types n libs root node active = Ok t \<Longrightarrow> valid node v \<Longrightarrow> bit t (value_index v)"
proof (induction n arbitrary: node active t)
  case (Suc n)
  show ?case
  proof (cases "node = JBool False \<or> node = JBool True")
    case True
    moreover have "node \<noteq> JBool False" using Suc.prems(2) laws unfolding narrows_def by blast
    ultimately have "t = ALL_TYPES" using Suc.prems(1) by simp
    then show ?thesis by (simp add: bit_ALL_TYPES)
  next
    case False
    note valid = narrowsD[OF laws Suc.prems(2)]
    obtain t0 t1 t2 where t0: "types_keyword node = Ok t0"
      and t1: "(case fresh_ref node active of None \<Rightarrow> Ok t0 | Some r \<Rightarrow> and_then (target libs root r) (\<lambda>t.
             map_ok (\<lambda>b. t0 AND b) (types n libs root t (insert r active)))) = Ok t1"
      and t2: "(case branches_of ''allOf'' node of None \<Rightarrow> Ok t1 | Some branches \<Rightarrow>
             try_fold (\<lambda>branch result. map_ok (\<lambda>b. result AND b) (types n libs root branch active)) branches t1) = Ok t2"
      and t3: "try_fold (\<lambda>keyword result.
           case branches_of keyword node of
             None \<Rightarrow> Ok result
           | Some branches \<Rightarrow>
               map_ok (\<lambda>union. result AND union)
                 (try_fold (\<lambda>branch union. map_ok (\<lambda>b. union OR b) (types n libs root branch active))
                   branches 0)) [''anyOf'', ''oneOf''] t2 = Ok t"
      using Suc.prems(1) False by (auto simp: outcome_simps simp del: try_fold.simps)
    have "bit t0 (value_index v)" using types_keyword_sound[OF t0] valid(1) by blast
    then have "bit t1 (value_index v)"
      using t1 Suc.IH valid(2) by (auto simp: outcome_simps bit_and_iff split: option.splits)
    then have "bit t2 (value_index v)"
      using t2 Suc.IH valid(3) by (auto split: option.splits elim!: and_fold_bit)
    moreover have union: "bit u (value_index v)"
      if kw: "branches_of kw node = Some bs" "kw \<in> set [''anyOf'', ''oneOf'']"
        and u: "try_fold (\<lambda>branch union. map_ok (\<lambda>b. union OR b) (types n libs root branch active)) bs 0 = Ok u"
      for kw bs u
    proof -
      obtain b where "b \<in> set bs" "valid b v" using kw valid(4,5) by auto
      then show ?thesis using or_fold_bit[OF u] Suc.IH by blast
    qed
    ultimately show ?thesis
      by (intro try_fold_invariant[OF t3, of "\<lambda>t. bit t (value_index v)"])
        (auto simp: outcome_simps bit_and_iff split: option.splits dest: union)
  qed
qed simp





section \<open>Subvalues and references\<close>

inductive subvalue :: "json \<Rightarrow> json \<Rightarrow> bool" where
  subvalue_refl: "subvalue v v"
| subvalue_item: "x \<in> set xs \<Longrightarrow> subvalue v x \<Longrightarrow> subvalue v (JArray xs)"
| subvalue_entry: "(k, x) \<in> set m \<Longrightarrow> subvalue v x \<Longrightarrow> subvalue v (JObject m)"

text \<open>A JSON pointer denotes a part of the document.\<close>

definition pointer_law :: "schema_libs \<Rightarrow> bool" where
  "pointer_law libs \<longleftrightarrow> (\<forall>root p v. lib_pointer libs root p = Some v \<longrightarrow> subvalue v root)"

lemma json_refs_item: "x \<in> set xs \<Longrightarrow> set (json_refs x) \<subseteq> set (json_refs (JArray xs))"
  by auto

lemma json_refs_entry: "(k, x) \<in> set m \<Longrightarrow> set (json_refs x) \<subseteq> set (json_refs (JObject m))"
  by (force split: option.splits)

lemma subvalue_depth: "subvalue v r \<Longrightarrow> json_depth v \<le> json_depth r"
  by (induction rule: subvalue.induct)
    (auto dest: json_depth_item json_depth_entry simp del: json_depth.simps intro: less_imp_le less_le_trans le_less_trans)

lemma subvalue_refs: "subvalue v r \<Longrightarrow> set (json_refs v) \<subseteq> set (json_refs r)"
  by (induction rule: subvalue.induct) (use json_refs_item json_refs_entry in blast)+

lemma subvalue_wf: "subvalue v r \<Longrightarrow> json_wf r \<Longrightarrow> json_wf v"
  by (induction rule: subvalue.induct) (auto simp: list_all_iff)

lemma json_get_iff: "json_get k node = Some v \<longleftrightarrow> (\<exists>m. node = JObject m \<and> map_of m k = Some v)"
  by (cases node) (auto simp: json_get_def)

lemma json_get_subvalue: "json_get k node = Some v \<Longrightarrow> subvalue v node"
  by (auto simp: json_get_iff intro: subvalue_entry subvalue_refl dest: map_of_SomeD)

lemma branch_subvalue:
  assumes "branches_of kw node = Some bs" and "b \<in> set bs"
  shows "json_depth b < json_depth node" and "subvalue b node"
proof -
  obtain m where m: "node = JObject m" "(kw, JArray bs) \<in> set m"
    using assms(1) by (auto simp: branches_of_iff json_get_iff dest: map_of_SomeD)
  show "json_depth b < json_depth node"
    using json_depth_entry[OF m(2)] json_depth_item[OF assms(2)] m(1) by simp
  show "subvalue b node"
    using assms(2) m by (auto intro: subvalue_entry subvalue_item subvalue_refl)
qed

lemma fresh_ref_refs: "fresh_ref node active = Some r \<Longrightarrow> r \<in> set (json_refs node) \<and> r \<notin> active"
  by (auto simp: fresh_ref_iff json_get_iff)

lemma target_subvalue: "pointer_law libs \<Longrightarrow> target libs root r = Ok t \<Longrightarrow> subvalue t root"
  by (auto simp: target_def outcome_simps pointer_law_def)

text \<open>
  The expansion of references terminates: along one path every reference is followed once,
  and between two references the node shrinks.
\<close>

definition sliceable :: "string set \<Rightarrow> bool" where
  "sliceable R \<longleftrightarrow> finite R \<and> (\<forall>r \<in> R. slice_from_1 r \<noteq> Panic)"

definition enough :: "json \<Rightarrow> string set \<Rightarrow> string set \<Rightarrow> json \<Rightarrow> nat \<Rightarrow> bool" where
  "enough root R active node n \<longleftrightarrow> set (json_refs node) \<subseteq> R \<and> set (json_refs root) \<subseteq> R
     \<and> card (R - active) * Suc (json_depth root) + json_depth node \<le> n"

lemma enough_branch:
  "enough root R active node (Suc n) \<Longrightarrow> branches_of kw node = Some bs \<Longrightarrow> b \<in> set bs \<Longrightarrow>
   enough root R active b n"
  using branch_subvalue[of kw node bs b] subvalue_refs unfolding enough_def by fastforce

lemma enough_target:
  assumes "enough root R active node (Suc n)" and "sliceable R" and "pointer_law libs"
    and "fresh_ref node active = Some r" and "target libs root r = Ok t"
  shows "enough root R (insert r active) t n"
proof -
  have r: "r \<in> R - active" using fresh_ref_refs[OF assms(4)] assms(1) by (auto simp: enough_def)
  have t: "json_depth t \<le> json_depth root" "set (json_refs t) \<subseteq> set (json_refs root)"
    using target_subvalue[OF assms(3,5)] subvalue_depth subvalue_refs by auto
  have "R - insert r active = (R - active) - {r}" by blast
  moreover have "finite (R - active)" using assms(2) by (simp add: sliceable_def)
  ultimately have c: "card (R - active) = Suc (card (R - insert r active))"
    using card.remove[OF _ r] by metis
  have "Suc (card (R - insert r active)) * Suc (json_depth root) + json_depth node \<le> Suc n"
    using assms(1) c by (simp add: enough_def)
  then have "card (R - insert r active) * Suc (json_depth root) + json_depth t \<le> n"
    using t(1) json_depth_pos[of node] by simp
  then show ?thesis using assms(1) t(2) by (auto simp: enough_def)
qed

lemma enough_pos: "enough root R active node n \<Longrightarrow> 0 < n"
  using json_depth_pos[of node] by (simp add: enough_def)

lemma enough_fuel:
  assumes "R = set (json_refs root @ json_refs node)"
  shows "enough root R {} node (expansion_fuel root node)"
  using mult_le_mono1[OF card_length[of "json_refs root @ json_refs node"], of "Suc (json_depth root)"]
  by (simp add: assms enough_def expansion_fuel_def)

lemma target_not_Panic:
  assumes "enough root R active node n" "sliceable R" "fresh_ref node active = Some r"
  shows "target libs root r \<noteq> Panic"
proof -
  have "slice_from_1 r \<noteq> Panic"
    using fresh_ref_refs[OF assms(3)] assms(1,2) by (auto simp: enough_def sliceable_def)
  then show ?thesis by (auto simp: target_def outcome_simps)
qed

lemma try_fold_not_Panic:
  "(\<And>x s. x \<in> set xs \<Longrightarrow> f x s \<noteq> Panic) \<Longrightarrow> try_fold f xs s \<noteq> Panic"
  by (induction xs arbitrary: s) (auto simp: outcome_simps)

lemma type_bit_not_Panic: "type_bit i \<noteq> Panic"
  by (simp add: type_bit_def)

lemma types_keyword_not_Panic: "types_keyword node \<noteq> Panic"
proof -
  have "type_items ty \<noteq> Panic" for ty
    by (auto simp: type_items_def outcome_simps try_map_not_Panic split: option.splits)
  moreover have "try_fold (\<lambda>item result. map_ok (\<lambda>b. result OR b) (type_bit item)) items 0 \<noteq> Panic" for items
    by (rule try_fold_not_Panic) (simp add: outcome_simps type_bit_not_Panic)
  ultimately show ?thesis by (auto simp: types_keyword_def outcome_simps split: option.splits)
qed

lemma types_not_Panic:
  assumes "sliceable R" and "pointer_law libs"
  shows "enough root R active node n \<Longrightarrow> types n libs root node active \<noteq> Panic"
proof (induction n arbitrary: node active)
  case 0
  then show ?case using enough_pos by blast
next
  case (Suc n)
  have ref: "target libs root r \<noteq> Panic" "target libs root r = Ok t \<Longrightarrow> types n libs root t (insert r active) \<noteq> Panic"
    if "fresh_ref node active = Some r" for r t
    using target_not_Panic[OF Suc.prems assms(1) that] enough_target[OF Suc.prems assms that] Suc.IH by auto
  have branch: "types n libs root b active \<noteq> Panic" if "branches_of kw node = Some bs" "b \<in> set bs" for kw bs b
    using enough_branch[OF Suc.prems that] Suc.IH by blast
  have f: "try_fold (\<lambda>b acc. map_ok (g acc) (types n libs root b active)) bs t \<noteq> Panic"
    if "branches_of kw node = Some bs" for kw bs t and g :: "u8 \<Rightarrow> u8 \<Rightarrow> u8"
    by (rule try_fold_not_Panic) (use branch[OF that] in \<open>simp add: outcome_simps\<close>)
  have kws: "try_fold (\<lambda>keyword result. case branches_of keyword node of None \<Rightarrow> Ok result
           | Some branches \<Rightarrow> map_ok (\<lambda>union. result AND union)
                 (try_fold (\<lambda>branch union. map_ok (\<lambda>b. union OR b) (types n libs root branch active)) branches 0))
      [''anyOf'', ''oneOf''] t \<noteq> Panic" for t
    by (rule try_fold_not_Panic) (auto simp: outcome_simps f split: option.splits)
  show ?case
    using ref f kws types_keyword_not_Panic
    by (auto simp: outcome_simps simp del: try_fold.simps split: option.splits)
qed

lemma merge_alternatives_not_Panic: "merge_alternatives alts m \<noteq> Panic"
  by (auto simp: merge_alternatives_def Let_def split: list.splits)

lemma collect_not_Panic:
  assumes "sliceable R" and "pointer_law libs"
  shows "enough root R active node n \<Longrightarrow> collect n libs root node active \<noteq> Panic"
proof (induction n arbitrary: node active)
  case 0
  then show ?case using enough_pos by blast
next
  case (Suc n)
  have ref: "target libs root r \<noteq> Panic" "target libs root r = Ok t \<Longrightarrow> collect n libs root t (insert r active) \<noteq> Panic"
    if "fresh_ref node active = Some r" for r t
    using target_not_Panic[OF Suc.prems assms(1) that] enough_target[OF Suc.prems assms that] Suc.IH by auto
  have branch: "collect n libs root b active \<noteq> Panic" if "branches_of kw node = Some bs" "b \<in> set bs" for kw bs b
    using enough_branch[OF Suc.prems that] Suc.IH by blast
  have f: "try_fold (\<lambda>b acc. map_ok (merge acc) (collect n libs root b active)) bs t \<noteq> Panic"
    if "branches_of kw node = Some bs" for kw bs t
    by (rule try_fold_not_Panic) (use branch[OF that] in \<open>simp add: outcome_simps\<close>)
  have m: "try_map (\<lambda>b. collect n libs root b active) bs \<noteq> Panic"
    if "branches_of kw node = Some bs" for kw bs
    by (rule try_map_not_Panic) (use branch[OF that] in simp)
  have kws: "try_fold (\<lambda>keyword fields. case branches_of keyword node of None \<Rightarrow> Ok fields
           | Some branches \<Rightarrow> and_then (try_map (\<lambda>branch. collect n libs root branch active) branches)
                 (\<lambda>alternatives. merge_alternatives alternatives fields)) [''anyOf'', ''oneOf''] t \<noteq> Panic" for t
    by (rule try_fold_not_Panic)
      (auto simp: outcome_simps m merge_alternatives_not_Panic split: option.splits simp del: try_map_Ok_iff)
  show ?case
    using ref f kws
    by (auto simp: outcome_simps Let_def simp del: try_fold.simps split: option.splits)
qed

lemma schema_types_not_Panic:
  assumes "sliceable (set (json_refs root @ json_refs node))" and "pointer_law libs"
  shows "schema_types libs root node \<noteq> Panic"
  unfolding schema_types_def using types_not_Panic[OF assms enough_fuel] by blast


section \<open>Merged properties\<close>

definition both :: "json \<Rightarrow> json \<Rightarrow> json" where
  "both a b = json_obj [(''allOf'', JArray [a, b])]"

definition either :: "json list \<Rightarrow> json" where
  "either bs = json_obj [(''anyOf'', JArray bs)]"

lemma merge_Nil [simp]: "merge a [] = a"
  by (simp add: merge_def)

lemma merge_Cons: "merge a ((k, v) # b) =
    merge (bt_insert k (case map_of a k of Some p \<Rightarrow> both p v | None \<Rightarrow> v) (bt_remove k a)) b" if "bt_wf a"
proof -
  have "bt_remove k a = a" if "map_of a k = None"
    unfolding bt_remove_def by (rule filter_True) (use that in \<open>force simp: map_of_eq_None_iff\<close>)
  then show ?thesis by (auto simp: merge_def both_def split: option.splits)
qed

lemma merge_lookup:
  assumes "bt_wf a" and "distinct (map fst b)"
  shows "bt_wf (merge a b)" and "map_of (merge a b) k =
    (case map_of a k of None \<Rightarrow> map_of b k
     | Some p \<Rightarrow> (case map_of b k of None \<Rightarrow> Some p | Some v \<Rightarrow> Some (both p v)))"
  using assms
proof (induction b arbitrary: a)
  case (Cons e b)
  obtain k' v where e: "e = (k', v)" by force
  { case (1 a)
    let ?a = "bt_insert k' (case map_of a k' of Some p \<Rightarrow> both p v | None \<Rightarrow> v) (bt_remove k' a)"
    have "bt_wf ?a" by (intro bt_wf_insert bt_wf_remove 1(1))
    then show ?case using Cons.IH(1) 1 by (simp add: e merge_Cons) }
  { case (2 a)
    let ?a = "bt_insert k' (case map_of a k' of Some p \<Rightarrow> both p v | None \<Rightarrow> v) (bt_remove k' a)"
    have "bt_wf ?a" by (intro bt_wf_insert bt_wf_remove 2(1))
    moreover have "map_of b k' = None" using 2 by (simp add: e map_of_eq_None_iff)
    ultimately show ?case using Cons.IH(2)[of ?a] 2 by (auto simp: e merge_Cons split: option.splits) }
qed (auto split: option.splits)

lemma alternatives_keys_distinct: "distinct (alternatives_keys alts)"
  unfolding alternatives_keys_def by (rule bt_wf_distinct[OF bt_wf_of_list])

lemma union_lookup:
  "map_of (map (\<lambda>key. (key, f key)) ks) k = (if k \<in> set ks then Some (f k) else None)"
  by (induction ks) auto

lemma merge_alternatives_Ok:
  assumes "merge_alternatives alts a = Ok r" and wf: "bt_wf a"
  shows "bt_wf r" and "map_of r k = Some s \<Longrightarrow>
     map_of a k = Some s \<or> (alts \<noteq> [] \<and>
     (let u = either (map (\<lambda>m. case map_of m k of None \<Rightarrow> JBool True | Some v \<Rightarrow> v) alts) in
       map_of a k = None \<and> s = u \<or> (\<exists>p. map_of a k = Some p \<and> s = both p u)))"
proof -
  let ?f = "\<lambda>k. either (map (\<lambda>m. case map_of m k of None \<Rightarrow> JBool True | Some v \<Rightarrow> v) alts)"
  let ?ks = "alternatives_keys alts"
  consider (nil) "r = a" "alts = []" | (merge) "alts \<noteq> []" "r = merge a (map (\<lambda>key. (key, ?f key)) ?ks)"
    using assms(1) by (auto simp: merge_alternatives_def either_def Let_def split: list.splits if_splits)
  then have "bt_wf r \<and> (map_of r k = Some s \<longrightarrow>
     map_of a k = Some s \<or> (alts \<noteq> [] \<and> (map_of a k = None \<and> s = ?f k \<or> (\<exists>p. map_of a k = Some p \<and> s = both p (?f k)))))"
  proof cases
    case merge
    have d: "distinct (map fst (map (\<lambda>key. (key, ?f key)) ?ks))"
      using alternatives_keys_distinct[of alts] by (simp add: comp_def)
    show ?thesis using merge_lookup[OF wf d] merge
      by (auto simp: union_lookup split: option.splits if_splits)
  qed (use wf in simp)
  then show "bt_wf r" "map_of r k = Some s \<Longrightarrow>
     map_of a k = Some s \<or> (alts \<noteq> [] \<and>
     (let u = ?f k in map_of a k = None \<and> s = u \<or> (\<exists>p. map_of a k = Some p \<and> s = both p u)))"
    by (auto simp: Let_def)
qed

lemma merge_alternatives_keeps:
  assumes r: "merge_alternatives alts a = Ok r" and wf: "bt_wf a"
    and a: "\<And>s. map_of a k = Some s \<Longrightarrow> Q s"
    and u: "Q (either (map (\<lambda>m. case map_of m k of None \<Rightarrow> JBool True | Some v \<Rightarrow> v) alts))"
    and both: "\<And>a b. Q a \<Longrightarrow> Q b \<Longrightarrow> Q (both a b)" and s: "map_of r k = Some s"
  shows "Q s"
  using merge_alternatives_Ok(2)[OF r wf s] a both[OF _ u] u unfolding Let_def by metis

text \<open>
  The steps of \<open>collect\<close>: an induction principle over its successful runs. \<open>P active node
  fields\<close> has to be kept by each merge.
\<close>

lemma collect_Suc_Ok:
  assumes "collect (Suc n) libs root node active = Ok m"
  obtains m0 m1 m2 where
    "m0 = (case Option.bind (json_get ''properties'' node) as_object of None \<Rightarrow> [] | Some m \<Rightarrow> m)"
    "m1 = m0 \<and> fresh_ref node active = None \<or> (\<exists>r t f. fresh_ref node active = Some r \<and> target libs root r = Ok t
        \<and> collect n libs root t (insert r active) = Ok f \<and> m1 = merge m0 f)"
    "branches_of ''allOf'' node = None \<and> m2 = m1 \<or> (\<exists>bs. branches_of ''allOf'' node = Some bs
        \<and> try_fold (\<lambda>b m. map_ok (merge m) (collect n libs root b active)) bs m1 = Ok m2)"
    "try_fold (\<lambda>keyword m. case branches_of keyword node of None \<Rightarrow> Ok m
           | Some branches \<Rightarrow> and_then (try_map (\<lambda>branch. collect n libs root branch active) branches)
                 (\<lambda>alternatives. merge_alternatives alternatives m)) [''anyOf'', ''oneOf''] m2 = Ok m"
proof -
  let ?m0 = "case Option.bind (json_get ''properties'' node) as_object of None \<Rightarrow> [] | Some m \<Rightarrow> m"
  obtain m1 m2 where m1: "(case fresh_ref node active of None \<Rightarrow> Ok ?m0
         | Some r \<Rightarrow> and_then (target libs root r) (\<lambda>t.
             map_ok (merge ?m0) (collect n libs root t (insert r active)))) = Ok m1"
    and m2: "(case branches_of ''allOf'' node of None \<Rightarrow> Ok m1
         | Some branches \<Rightarrow>
             try_fold (\<lambda>b m. map_ok (merge m) (collect n libs root b active)) branches m1) = Ok m2"
    and m: "try_fold (\<lambda>keyword m. case branches_of keyword node of None \<Rightarrow> Ok m
           | Some branches \<Rightarrow> and_then (try_map (\<lambda>branch. collect n libs root branch active) branches)
                 (\<lambda>alternatives. merge_alternatives alternatives m)) [''anyOf'', ''oneOf''] m2 = Ok m"
    using assms by (auto simp: Let_def outcome_simps simp del: try_fold.simps)
  have "m1 = ?m0 \<and> fresh_ref node active = None \<or> (\<exists>r t f. fresh_ref node active = Some r \<and> target libs root r = Ok t
        \<and> collect n libs root t (insert r active) = Ok f \<and> m1 = merge ?m0 f)"
    using m1 by (cases "fresh_ref node active") (auto simp: outcome_simps)
  moreover have "branches_of ''allOf'' node = None \<and> m2 = m1 \<or> (\<exists>bs. branches_of ''allOf'' node = Some bs
        \<and> try_fold (\<lambda>b m. map_ok (merge m) (collect n libs root b active)) bs m1 = Ok m2)"
    using m2 by (cases "branches_of ''allOf'' node") auto
  ultimately show ?thesis using that m by blast
qed

lemma properties_field:
  assumes "json_wf node"
    and "m0 = (case Option.bind (json_get ''properties'' node) as_object of None \<Rightarrow> [] | Some m \<Rightarrow> m)"
  shows "bt_wf m0" and "map_of m0 k = Some s \<Longrightarrow>
    (\<exists>props. json_get ''properties'' node = Some (JObject props) \<and> map_of props k = Some s)"
    and "map_of m0 k = Some s \<Longrightarrow> subvalue s node"
proof -
  have "m0 = [] \<or> (\<exists>props. json_get ''properties'' node = Some (JObject props) \<and> m0 = props)"
    using assms(2) by (auto simp: bind_eq_Some_conv as_object_iff split: option.splits)
  moreover have "bt_wf props" if "json_get ''properties'' node = Some (JObject props)" for props
    using subvalue_wf[OF json_get_subvalue[OF that] assms(1)] by simp
  moreover have "subvalue s node" if g: "json_get ''properties'' node = Some (JObject props)" and s: "map_of props k = Some s" for props
  proof -
    obtain m where "node = JObject m" "map_of m ''properties'' = Some (JObject props)"
      using g unfolding json_get_iff by blast
    then have "node = JObject m" "(''properties'', JObject props) \<in> set m" using map_of_SomeD by fast+
    then show ?thesis using s by (meson map_of_SomeD subvalue_entry subvalue_refl)
  qed
  ultimately show "bt_wf m0" "map_of m0 k = Some s \<Longrightarrow>
    (\<exists>props. json_get ''properties'' node = Some (JObject props) \<and> map_of props k = Some s)"
    "map_of m0 k = Some s \<Longrightarrow> subvalue s node"
    by auto
qed

text \<open>
  The fields of a node satisfy whatever its declared properties satisfy, if conjunction and
  alternatives keep it.
\<close>

lemma collect_all:
  assumes ptr: "pointer_law libs" and root: "json_wf root" "sub root"
    and sub: "\<And>v node. sub node \<Longrightarrow> subvalue v node \<Longrightarrow> sub v"
    and both: "\<And>a b. sub a \<Longrightarrow> sub b \<Longrightarrow> sub (both a b)"
    and alts: "\<And>bs. (\<And>b. b \<in> set bs \<Longrightarrow> sub b) \<Longrightarrow> sub (either bs)" and true: "sub (JBool True)"
  shows "collect n libs root node active = Ok m \<Longrightarrow> json_wf node \<Longrightarrow> sub node \<Longrightarrow>
    bt_wf m \<and> (\<forall>k s. map_of m k = Some s \<longrightarrow> sub s)"
proof (induction n arbitrary: node active m)
  case (Suc n)
  define I where "I = (\<lambda>m :: jmap. bt_wf m \<and> (\<forall>k s. map_of m k = Some s \<longrightarrow> sub s))"
  have merge: "I (merge a b)" if "I a" "I b" for a b
    using that merge_lookup[of a b] bt_wf_distinct[of b] both
    by (auto simp: I_def split: option.splits)
  have branch: "I f" if "branches_of kw node = Some bs" "b \<in> set bs" "collect n libs root b active = Ok f" for kw bs b f
    using Suc.IH[OF that(3)] branch_subvalue(2)[OF that(1,2)] subvalue_wf sub Suc.prems(2,3) by (auto simp: I_def)
  from Suc.prems(1) show ?case
  proof (cases rule: collect_Suc_Ok)
    case (1 m0 m1 m2)
    have "I m0" using properties_field[OF Suc.prems(2) 1(1)] sub Suc.prems(3) by (auto simp: I_def)
    moreover have "I f" if "target libs root r = Ok t" "collect n libs root t (insert r active) = Ok f" for r t f
      using Suc.IH[OF that(2)] target_subvalue[OF ptr that(1)] subvalue_wf sub root by (auto simp: I_def)
    ultimately have "I m1" using 1(2) merge by blast
    then have "I m2"
      using 1(3) merge branch by (auto elim!: try_fold_invariant[of _ _ _ _ I] simp: outcome_simps)
    moreover have "I r" if I: "I a" and "branches_of kw node = Some bs"
      and "list_all2 (\<lambda>b f. collect n libs root b active = Ok f) bs fs" and r: "merge_alternatives fs a = Ok r" for kw bs fs a r
    proof -
      have f: "I f" if "f \<in> set fs" for f
        using list_all2_right[OF \<open>list_all2 _ bs fs\<close> that] branch[OF \<open>branches_of kw node = Some bs\<close>] by blast
      have "sub (either (map (\<lambda>m. case map_of m k of None \<Rightarrow> JBool True | Some v \<Rightarrow> v) fs))" for k
        using f true by (intro alts) (auto simp: I_def split: option.splits)
      then show ?thesis
        using merge_alternatives_Ok(1)[OF r] merge_alternatives_keeps[OF r, of _ sub] I both
        by (simp add: I_def)
    qed
    ultimately have "I m"
      by (intro try_fold_invariant[OF 1(4), of I]) (auto simp: outcome_simps split: option.splits)
    then show ?thesis by (simp add: I_def)
  qed
qed simp


lemma collect_wf:
  assumes "pointer_law libs" and "json_wf root" and "collect n libs root node active = Ok m" and "json_wf node"
  shows "bt_wf m"
  using collect_all[OF assms(1,2), of "\<lambda>_. True", OF _ _ _ _ _ assms(3,4)] by simp

lemma combinesD:
  assumes "combines valid"
  shows "valid (JBool True) x" and "valid a x \<Longrightarrow> valid b x \<Longrightarrow> valid (both a b) x"
    and "b \<in> set bs \<Longrightarrow> valid b x \<Longrightarrow> valid (either bs) x"
  using assms unfolding combines_def both_def either_def by blast+

text \<open>A column of a valid record is valid against the merged schema of its property.\<close>

lemma collect_sound:
  assumes laws: "narrows libs root valid" "applies_properties valid" "combines valid"
    and ptr: "pointer_law libs" and root: "json_wf root"
  shows "collect n libs root node active = Ok m \<Longrightarrow> json_wf node \<Longrightarrow> valid node (JObject obj) \<Longrightarrow>
    map_of m k = Some s \<Longrightarrow> map_of obj k = Some x \<Longrightarrow> valid s x"
proof (induction n arbitrary: node active m s)
  case (Suc n)
  define I where "I = (\<lambda>m :: jmap. bt_wf m \<and> (\<forall>s. map_of m k = Some s \<longrightarrow> valid s x))"
  note valid = narrowsD[OF laws(1) Suc.prems(3)] and comb = combinesD[OF laws(3)]
  have merge: "I (merge a b)" if "I a" "I b" for a b
    using that merge_lookup[of a b] bt_wf_distinct[of b] comb(2)
    by (auto simp: I_def split: option.splits)
  have branch: "I f" if "branches_of kw node = Some bs" "b \<in> set bs" "valid b (JObject obj)"
    "collect n libs root b active = Ok f" for kw bs b f
  proof -
    have "json_wf b" using subvalue_wf[OF branch_subvalue(2)[OF that(1,2)] Suc.prems(2)] .
    then show ?thesis
      using collect_wf[OF ptr root that(4)] Suc.IH[OF that(4) _ that(3) _ Suc.prems(5)] by (simp add: I_def)
  qed
  from Suc.prems(1) show ?case
  proof (cases rule: collect_Suc_Ok)
    case (1 m0 m1 m2)
    have "valid s x" if "map_of m0 k = Some s" for s
      using properties_field(2)[OF Suc.prems(2) 1(1) that] laws(2) Suc.prems(3,5)
      unfolding applies_properties_def by blast
    then have "I m0" using properties_field(1)[OF Suc.prems(2) 1(1)] by (simp add: I_def)
    moreover have "I f" if "fresh_ref node active = Some r" "target libs root r = Ok t"
      "collect n libs root t (insert r active) = Ok f" for r t f
    proof -
      have wf: "json_wf t" using subvalue_wf[OF target_subvalue[OF ptr that(2)] root] .
      have "valid t (JObject obj)" using valid(2)[OF that(1,2)] .
      then show ?thesis
        using collect_wf[OF ptr root that(3) wf] Suc.IH[OF that(3) wf _ _ Suc.prems(5)] by (simp add: I_def)
    qed
    ultimately have "I m1" using 1(2) merge by blast
    then have "I m2"
      using 1(3) merge branch valid(3) by (auto elim!: try_fold_invariant[of _ _ _ _ I] simp: outcome_simps)
    moreover have alts: "I r" if kw: "branches_of kw node = Some bs" "kw \<in> set [''anyOf'', ''oneOf'']" and I: "I a"
      and fs: "list_all2 (\<lambda>b f. collect n libs root b active = Ok f) bs fs" "merge_alternatives fs a = Ok r" for kw bs fs a r
    proof -
      obtain b where b: "b \<in> set bs" "valid b (JObject obj)" using kw valid(4,5) by auto
      then obtain f where f: "f \<in> set fs" "collect n libs root b active = Ok f"
        using list_all2_left[OF fs(1)] by blast
      have "I f" using branch[OF kw(1) b f(2)] .
      then have "valid (case map_of f k of None \<Rightarrow> JBool True | Some v \<Rightarrow> v) x"
        using comb(1) by (auto simp: I_def split: option.splits)
      then have "valid (either (map (\<lambda>m. case map_of m k of None \<Rightarrow> JBool True | Some v \<Rightarrow> v) fs)) x"
        using f(1) by (intro comb(3)) auto
      then show ?thesis
        using merge_alternatives_Ok(1)[OF fs(2)] merge_alternatives_keeps[OF fs(2), of k "\<lambda>s. valid s x"]
          I comb(2)[of _ x] by (simp add: I_def)
    qed
    ultimately have "I m"
      by (intro try_fold_invariant[OF 1(4), of I]) (auto simp: outcome_simps dest: alts split: option.splits)
    then show ?thesis using Suc.prems(4) by (simp add: I_def)
  qed
qed simp

lemma properties_Ok:
  assumes "properties libs root = Ok fs"
  shows "schema_types libs root root = Ok OBJECT"
    and "collect (expansion_fuel root root) libs root root {} = Ok fs"
  using assms by (auto simp: properties_def outcome_simps split: if_splits)

text \<open>The references of the merged fields are references of the document.\<close>

lemma properties_refs:
  assumes "properties libs root = Ok fs" and "pointer_law libs" and "json_wf root"
  shows "bt_wf fs" and "map_of fs k = Some s \<Longrightarrow> set (json_refs s) \<subseteq> set (json_refs root)"
proof -
  let ?sub = "\<lambda>v. set (json_refs v) \<subseteq> set (json_refs root)"
  have "bt_wf fs \<and> (\<forall>k s. map_of fs k = Some s \<longrightarrow> ?sub s)"
    by (rule collect_all[OF assms(2,3), of ?sub, OF _ _ _ _ _ properties_Ok(2)[OF assms(1)]])
      (use assms(3) subvalue_refs in \<open>auto simp: both_def either_def json_obj_def bt_of_list_def\<close>)
  then show "bt_wf fs" "map_of fs k = Some s \<Longrightarrow> ?sub s" by auto
qed

lemma properties_not_Panic:
  assumes "sliceable (set (json_refs root))" and "pointer_law libs"
  shows "properties libs root \<noteq> Panic"
proof -
  have "sliceable (set (json_refs root @ json_refs root))" using assms(1) by simp
  then show ?thesis
    using schema_types_not_Panic[OF _ assms(2), of root root] collect_not_Panic[OF _ assms(2) enough_fuel[OF refl]]
    by (simp add: properties_def outcome_simps del: collect.simps)
qed

text \<open>
  C10: the fixed column set of a record schema is sound: in every object the validator accepts
  for the schema, each column value satisfies the schema that \<open>properties\<close> assembled for it
  from \<open>properties\<close>, references, \<open>allOf\<close> and unions.
\<close>

theorem properties_sound:
  assumes "narrows libs root valid" and "applies_properties valid" and "combines valid"
    and "pointer_law libs" and "json_wf root"
    and "properties libs root = Ok fs" and "valid root (JObject obj)"
    and "map_of fs k = Some s" and "map_of obj k = Some x"
  shows "valid s x"
  using collect_sound[OF assms(1-5) properties_Ok(2)[OF assms(6)] assms(5,7-9)] .

text \<open>A validator for a small language of schemas.\<close>

definition text_schema :: json where
  "text_schema = JObject [(''type'', JString ''string'')]"

definition record_schema :: json where
  "record_schema = JObject [(''properties'', JObject [(''id'', text_schema)]), (''type'', JString ''object'')]"

inductive accepts :: "json \<Rightarrow> json \<Rightarrow> bool" where
  "accepts (JBool True) x"
| "accepts a x \<Longrightarrow> accepts b x \<Longrightarrow> accepts (both a b) x"
| "b \<in> set bs \<Longrightarrow> accepts b x \<Longrightarrow> accepts (either bs) x"
| "accepts text_schema (JString s)"
| "(\<And>x. map_of obj ''id'' = Some x \<Longrightarrow> accepts text_schema x) \<Longrightarrow> accepts record_schema (JObject obj)"

lemma both_object: "both a b = JObject [(''allOf'', JArray [a, b])]"
  by (simp add: both_def json_obj_def bt_of_list_def)

lemma either_object: "either bs = JObject [(''anyOf'', JArray bs)]"
  by (simp add: either_def json_obj_def bt_of_list_def)

lemmas schema_forms = both_object either_object text_schema_def record_schema_def json_get_def

lemma type_ok_forms:
  "type_ok (JString ''string'') (JString s)" "type_ok (JString ''object'') (JObject obj)"
  by (simp_all add: type_ok_def type_items_def type_bit_def value_bit_def type_bit_defs)

lemma accepts_cases:
  assumes "accepts node x"
  shows "node = JBool True \<or> (\<exists>a b. node = both a b \<and> accepts a x \<and> accepts b x)
    \<or> (\<exists>b bs. node = either bs \<and> b \<in> set bs \<and> accepts b x)
    \<or> (node = text_schema \<and> (\<exists>s. x = JString s))
    \<or> (node = record_schema \<and> (\<exists>obj. x = JObject obj \<and> (\<forall>y. map_of obj ''id'' = Some y \<longrightarrow> accepts text_schema y)))"
  using assms by (cases rule: accepts.cases) blast+

lemma accepts_narrows: "narrows libs root accepts"
proof -
  have "\<not> accepts (JBool False) v" for v
    using accepts_cases[of "JBool False" v] by (auto simp: schema_forms)
  moreover have "(json_get ''type'' node = Some ty \<longrightarrow> type_ok ty v) \<and> json_get ''$ref'' node = None \<and>
      (json_get ''allOf'' node = Some (JArray bs) \<longrightarrow> (\<forall>b \<in> set bs. accepts b v)) \<and>
      (json_get ''anyOf'' node = Some (JArray bs) \<longrightarrow> (\<exists>b \<in> set bs. accepts b v)) \<and>
      json_get ''oneOf'' node = None" if "accepts node v" for node v ty bs
    using accepts_cases[OF that]
  proof (elim disjE exE conjE)
    fix b bs' assume "node = either bs'" "b \<in> set bs'" "accepts b v"
    then show ?thesis by (auto simp: schema_forms)
  qed (auto simp: schema_forms type_ok_forms)
  ultimately show ?thesis unfolding narrows_def by fastforce
qed

lemma accepts_properties: "applies_properties accepts"
  unfolding applies_properties_def
  by (intro allI impI; drule accepts_cases) (auto simp: schema_forms split: if_splits)

lemma accepts_combines: "combines accepts"
  unfolding combines_def by (auto intro: accepts.intros simp flip: both_def either_def)

lemma ascii_libs_pointer: "pointer_law ascii_libs"
  by (auto simp: pointer_law_def ascii_libs_def bind_eq_Some_conv json_get_iff
      split: if_splits intro!: subvalue_refl subvalue_entry dest: map_of_SomeD)

theorem properties_sound_witness:
  "accepts record_schema (JObject [(''id'', JString ''a'')]) \<and> accepts text_schema (JString ''a'')"
proof -
  have props: "properties ascii_libs record_schema = Ok [(''id'', text_schema)]" by code_simp
  have wf: "json_wf record_schema" by code_simp
  have acc: "accepts record_schema (JObject [(''id'', JString ''a'')])"
    by (rule accepts.intros(5)) (auto intro: accepts.intros split: if_splits)
  from properties_sound[OF accepts_narrows accepts_properties accepts_combines ascii_libs_pointer wf props this,
      of "''id''" text_schema "JString ''a''"] acc
  show ?thesis by simp
qed

end
