(* ===== verification/Response.thy ===== *)
theory Response
  imports Schema
begin

text \<open>
  \<^verbatim>\<open>src/response.rs\<close>: a response contract, built from a record schema, and the
  schema-directed decoding of driver cells into one JSON record. The YAML reader, the JSON
  reader, the schema validator and the case conversion of \<open>heck\<close> are parameters.
\<close>

unbundle bit_operations_syntax

datatype cell =
    CNull
  | CInteger i64
  | CReal f64
  | CBoolean bool
  | CText string
  | CJson json

record decode =
  dec_json :: bool
  dec_boolean :: bool

record contract =
  contract_schema :: json
  contract_validator :: "json \<Rightarrow> bool"
  contract_fields :: "(string \<times> decode) list"

text \<open>
  \<open>lib_yaml\<close> is \<open>serde_norway::from_str\<close> followed by \<open>serde_json::to_value\<close> (the two
  failures are kept apart), \<open>lib_validator\<close> is \<open>jsonschema::options()..build\<close>, \<open>lib_json\<close>
  is \<open>serde_json::from_str\<close> and \<open>lib_camel\<close> is \<open>to_upper_camel_case\<close>.
\<close>

record response_libs = schema_libs +
  lib_yaml :: "string \<Rightarrow> string + (string + json)"
  lib_validator :: "json \<Rightarrow> string + (json \<Rightarrow> bool)"
  lib_json :: "string \<Rightarrow> json option"
  lib_camel :: "string \<Rightarrow> string"

abbreviation (input) schema_part :: "response_libs \<Rightarrow> schema_libs" where
  "schema_part libs \<equiv> schema_libs.truncate libs"


section \<open>Building a contract\<close>

definition contract_field :: "schema_libs \<Rightarrow> json \<Rightarrow> string \<times> json \<Rightarrow> (string \<times> decode) result" where
  "contract_field libs schema = (\<lambda>(name, node).
     and_then (schema_types libs schema node) (\<lambda>types.
       let structural = types AND (OBJECT OR ARRAY) \<noteq> 0;
           boolean = types AND BOOLEAN \<noteq> 0 in
       if structural \<and> types AND STRING \<noteq> 0 \<or> boolean \<and> types AND NUMBER \<noteq> 0
       then Err (definition_error (''Ambiguous database decoding for field '' @ name
              @ ''; string/JSON and number/boolean unions require an unambiguous contract''))
       else Ok (name, \<lparr>dec_json = structural, dec_boolean = boolean\<rparr>)))"

definition Contract_new :: "response_libs \<Rightarrow> json \<Rightarrow> contract result" where
  "Contract_new libs schema =
     and_then (normalize (schema_part libs) schema) (\<lambda>schema.
       case lib_validator libs schema of
         Inl e \<Rightarrow> Err (definition_error (''Invalid response schema: '' @ e))
       | Inr validator \<Rightarrow>
           and_then (properties (schema_part libs) schema) (\<lambda>props.
             map_ok (\<lambda>decodes. \<lparr>contract_schema = schema, contract_validator = validator,
                 contract_fields = bt_of_list decodes\<rparr>)
               (try_map (contract_field (schema_part libs) schema) props)))"

definition Contract_from_yaml :: "response_libs \<Rightarrow> string \<Rightarrow> contract result" where
  "Contract_from_yaml libs source =
     (case lib_yaml libs source of
        Inl e \<Rightarrow> Err (definition_error (''Invalid response schema: '' @ e))
      | Inr (Inl e) \<Rightarrow> Err (definition_error (''Response schema must use JSON-compatible values: '' @ e))
      | Inr (Inr schema) \<Rightarrow> Contract_new libs schema)"


section \<open>Publishing a contract\<close>

definition relocated :: "contract \<Rightarrow> string \<Rightarrow> json result" where
  "relocated c base =
     map_ok snd (schema_walk
       (\<lambda>m _. rewrite_refs (\<lambda>reference st. map_ok (\<lambda>r. (st, base @ r)) (slice_from_1 reference)) m)
       (contract_schema c) ())"

text \<open>The references of the schema, with the root itself.\<close>

definition component_targets :: "contract \<Rightarrow> string list result" where
  "component_targets c =
     map_ok (\<lambda>(targets, _). map fst targets)
       (schema_walk (\<lambda>m _. rewrite_refs (\<lambda>reference st. Ok (bt_insert reference () st, reference)) m)
         (contract_schema c) [(''#'', ())])"

definition component_pointer :: "response_libs \<Rightarrow> string \<Rightarrow> string result" where
  "component_pointer libs dest =
     and_then (slice_from_1 dest) (\<lambda>fragment.
       ok_or (definition_error ''Invalid reference encoding'') (lib_decode libs fragment))"

text \<open>One generated name per target; \<open>used\<close> are the names given so far.\<close>

definition component_name ::
  "response_libs \<Rightarrow> string \<Rightarrow> string \<Rightarrow> (string \<times> string) list \<times> string set
     \<Rightarrow> ((string \<times> string) list \<times> string set) result" where
  "component_name libs name dest = (\<lambda>(names, used).
     and_then (component_pointer libs dest) (\<lambda>pointer.
       let generated = name @ lib_camel libs pointer in
       if \<not> list_all is_ascii_alphanumeric generated
       then Err (definition_error ''Referenced schema nodes need names that normalize to ASCII component identifiers'')
       else if generated \<in> used
       then Err (definition_error (''Generated schema name collision: '' @ generated))
       else Ok (bt_insert dest generated names, insert generated used)))"

definition component_schema ::
  "response_libs \<Rightarrow> contract \<Rightarrow> (string \<times> string) list \<Rightarrow> string \<Rightarrow> jmap \<Rightarrow> jmap result" where
  "component_schema libs c names dest components =
     and_then (component_pointer libs dest) (\<lambda>pointer.
     and_then (unwrap (lib_pointer libs (contract_schema c) pointer)) (\<lambda>node.
     and_then (schema_walk (\<lambda>m _. rewrite_refs (\<lambda>reference st.
         map_ok (\<lambda>generated. (st, ''#/components/schemas/'' @ generated)) (unwrap (map_of names reference))) m)
       node ()) (\<lambda>(_, node).
     map_ok (\<lambda>generated. bt_insert generated node components) (unwrap (map_of names dest)))))"

definition openapi_components :: "response_libs \<Rightarrow> contract \<Rightarrow> string \<Rightarrow> jmap result" where
  "openapi_components libs c name =
     and_then (component_targets c) (\<lambda>targets.
     and_then (try_fold (component_name libs name) targets ([], {})) (\<lambda>(names, _).
     try_fold (component_schema libs c names) targets []))"


section \<open>Decoding a row\<close>

definition check_columns :: "contract \<Rightarrow> string list \<Rightarrow> unit result" where
  "check_columns c names =
     (if card (set names) \<noteq> length names \<or> set names \<noteq> fst ` set (contract_fields c)
      then Err (contract_error ''Result columns must exactly match record properties'')
      else Ok ())"

definition decode_cell :: "response_libs \<Rightarrow> decode \<Rightarrow> bool \<Rightarrow> cell \<Rightarrow> json result" where
  "decode_cell libs d turso cell =
     (case cell of
        CNull \<Rightarrow> Ok JNull
      | CBoolean v \<Rightarrow> Ok (JBool v)
      | CInteger v \<Rightarrow>
          if turso \<and> dec_boolean d then
            (if v = 0 then Ok (JBool False)
             else if v = 1 then Ok (JBool True)
             else Err (contract_error ''Boolean column must contain 0 or 1''))
          else Ok (JNumber (number_of_i64 v))
      | CReal v \<Rightarrow>
          map_ok JNumber (ok_or (contract_error ''Non-finite result number'') (number_from_f64 v))
      | CText v \<Rightarrow>
          if dec_json d then ok_or (contract_error ''Invalid JSON result column'') (lib_json libs v)
          else Ok (JString v)
      | CJson v \<Rightarrow> Ok v)"

definition record_step ::
  "response_libs \<Rightarrow> contract \<Rightarrow> bool \<Rightarrow> string \<times> cell \<Rightarrow> jmap \<Rightarrow> jmap result" where
  "record_step libs c turso = (\<lambda>(name, cell) m.
     and_then (unwrap (map_of (contract_fields c) name)) (\<lambda>d.
       map_ok (\<lambda>v. bt_insert name v m) (decode_cell libs d turso cell)))"

definition contract_record ::
  "response_libs \<Rightarrow> contract \<Rightarrow> string list \<Rightarrow> cell list \<Rightarrow> bool \<Rightarrow> json result" where
  "contract_record libs c names cells turso =
     and_then (check_columns c names) (\<lambda>_.
       if length cells \<noteq> length names then Err (contract_error ''Invalid result width'')
       else and_then (try_fold (record_step libs c turso) (zip names cells) []) (\<lambda>m.
         if \<not> contract_validator c (JObject m)
         then Err (contract_error ''Result does not satisfy response schema'')
         else Ok (JObject m)))"

section \<open>Columns and rows\<close>

lemma check_columns_Ok_iff:
  "check_columns c names = Ok u \<longleftrightarrow> distinct names \<and> set names = fst ` set (contract_fields c)"
  using card_distinct[of names] distinct_card[of names] by (auto simp: check_columns_def)

lemma decode_cell_err:
  "decode_cell libs d turso cell = Err e \<Longrightarrow> err_code e = ''response_contract_mismatch'' \<and> err_status e = 500"
  by (cases cell) (auto simp: decode_cell_def outcome_simps split: if_splits)

lemma decode_cell_not_Panic: "decode_cell libs d turso cell \<noteq> Panic"
  by (cases cell) (auto simp: decode_cell_def outcome_simps)

text \<open>The loop over the columns, as a relation between the columns and the finished object.\<close>

lemma record_loop:
  assumes "try_fold (record_step libs c turso) ps m = Ok m'" and "bt_wf m"
    and "distinct (map fst ps)" and "\<forall>p \<in> set ps. fst p \<notin> fst ` set m"
  shows "bt_wf m' \<and> fst ` set m' = fst ` set m \<union> fst ` set ps
    \<and> (\<forall>k. k \<notin> fst ` set ps \<longrightarrow> map_of m' k = map_of m k)
    \<and> (\<forall>(k, cell) \<in> set ps. \<exists>d v. map_of (contract_fields c) k = Some d
          \<and> decode_cell libs d turso cell = Ok v \<and> map_of m' k = Some v)"
  using assms
proof (induction ps arbitrary: m)
  case (Cons p ps)
  obtain k cell where p: "p = (k, cell)" by force
  obtain d v where d: "map_of (contract_fields c) k = Some d" "decode_cell libs d turso cell = Ok v"
    and rest: "try_fold (record_step libs c turso) ps (bt_insert k v m) = Ok m'"
    using Cons.prems(1) by (auto simp: p record_step_def outcome_simps)
  have k: "k \<notin> fst ` set ps" using Cons.prems(3) by (simp add: p)
  have "\<forall>p \<in> set ps. fst p \<notin> fst ` set (bt_insert k v m)"
    using Cons.prems(4) k by (auto simp: image_iff)
  note IH = Cons.IH[OF rest bt_wf_insert[OF Cons.prems(2)] _ this]
  have IH': "bt_wf m' \<and> fst ` set m' = insert k (fst ` set m) \<union> fst ` set ps
    \<and> (\<forall>j. j \<notin> fst ` set ps \<longrightarrow> map_of m' j = map_of (bt_insert k v m) j)
    \<and> (\<forall>(k, cell) \<in> set ps. \<exists>d v. map_of (contract_fields c) k = Some d
          \<and> decode_cell libs d turso cell = Ok v \<and> map_of m' k = Some v)"
    using IH Cons.prems(3) by simp
  then have "map_of m' k = Some v" using k Cons.prems(2) by simp
  with IH' d Cons.prems(2) show ?case by (auto simp: p)
qed simp

lemma contract_record_Ok:
  assumes "contract_record libs c names cells turso = Ok v"
  obtains m where "distinct names" "set names = fst ` set (contract_fields c)"
    "length cells = length names" "try_fold (record_step libs c turso) (zip names cells) [] = Ok m"
    "contract_validator c (JObject m)" "v = JObject m"
proof -
  have cols: "check_columns c names = Ok ()"
    using assms by (cases "check_columns c names") (auto simp: contract_record_def)
  have len: "length cells = length names"
    by (rule ccontr) (use assms cols in \<open>simp add: contract_record_def\<close>)
  then obtain m where "try_fold (record_step libs c turso) (zip names cells) [] = Ok m"
    "contract_validator c (JObject m)" "v = JObject m"
    using assms cols len
    by (cases "try_fold (record_step libs c turso) (zip names cells) []")
      (auto simp: contract_record_def split: if_splits)
  then show ?thesis using that cols len unfolding check_columns_Ok_iff by blast
qed

text \<open>the column check accepts a list of result columns exactly when it names every record
  property once, in any order; otherwise it is a response contract mismatch (status 500).
\<close>

theorem check_columns_exact:
  "check_columns c names =
     (if distinct names \<and> set names = fst ` set (contract_fields c) then Ok ()
      else Err (contract_error ''Result columns must exactly match record properties''))"
  using check_columns_Ok_iff[of c names "()"] by (auto simp: check_columns_def)

text \<open>
  C26: a decoded row is exactly the record its columns describe: an object that the schema
  validator accepts, with the contract's properties as its keys, in which the value of every
  column is the decoding of that column's cell under the column's own decoding rule.
\<close>

theorem record_exact:
  assumes "contract_record libs c names cells turso = Ok v"
  shows "\<exists>m. v = JObject m \<and> bt_wf m \<and> fst ` set m = fst ` set (contract_fields c)
    \<and> contract_validator c v \<and> length cells = length names \<and> distinct names
    \<and> (\<forall>i < length names. \<exists>d x. map_of (contract_fields c) (names ! i) = Some d
          \<and> decode_cell libs d turso (cells ! i) = Ok x \<and> map_of m (names ! i) = Some x)"
proof -
  obtain m where cols: "distinct names" "set names = fst ` set (contract_fields c)"
    and len: "length cells = length names"
    and loop: "try_fold (record_step libs c turso) (zip names cells) [] = Ok m"
    and v: "contract_validator c (JObject m)" "v = JObject m"
    by (rule contract_record_Ok[OF assms])
  note L = record_loop[OF loop]
  have "fst ` set (zip names cells) = set names" using len by (simp flip: set_map)
  moreover have "(names ! i, cells ! i) \<in> set (zip names cells)" if "i < length names" for i
    using that len by (auto simp: in_set_zip)
  moreover have "bt_wf m" "fst ` set m = fst ` set (zip names cells)"
    and "\<forall>(k, cell) \<in> set (zip names cells). \<exists>d x. map_of (contract_fields c) k = Some d
          \<and> decode_cell libs d turso cell = Ok x \<and> map_of m k = Some x"
    using L cols(1) len by simp_all
  ultimately show ?thesis using cols len v by (intro exI[of _ m]) (auto dest!: bspec)
qed

lemma contract_record_outcome:
  "case contract_record libs c names cells turso of
     Ok _ \<Rightarrow> True
   | Err e \<Rightarrow> err_status e = 500 \<and> err_code e = ''response_contract_mismatch''
   | Panic \<Rightarrow> False"
proof -
  have step_err: "record_step libs c turso p m = Err e \<Longrightarrow> err_code e = ''response_contract_mismatch'' \<and> err_status e = 500" for p m e
    by (cases p) (auto simp: record_step_def outcome_simps dest: decode_cell_err)
  have loop_err: "err_code e = ''response_contract_mismatch'' \<and> err_status e = 500"
    if "try_fold (record_step libs c turso) ps m = Err e" for ps m e
    using that by (induction ps arbitrary: m) (auto simp: outcome_simps dest: step_err)
  have loop_panic: "try_fold (record_step libs c turso) (zip names cells) m \<noteq> Panic"
    if "set names = fst ` set (contract_fields c)" for m
  proof (rule try_fold_not_Panic)
    fix p m assume "p \<in> set (zip names cells)"
    then have "fst p \<in> set names" by (metis prod.collapse set_zip_leftD)
    then have "map_of (contract_fields c) (fst p) \<noteq> None" using that by (simp add: map_of_eq_None_iff)
    then show "record_step libs c turso p m \<noteq> Panic"
      by (auto simp: record_step_def outcome_simps decode_cell_not_Panic split: prod.splits)
  qed
  have cols: "check_columns c names \<noteq> Panic" by (simp add: check_columns_def)
  have cols_err: "check_columns c names = Err e \<Longrightarrow> err_code e = ''response_contract_mismatch'' \<and> err_status e = 500" for e
    by (auto simp: check_columns_def split: if_splits)
  show ?thesis
  proof (cases "check_columns c names")
    case (Ok u)
    then have "set names = fst ` set (contract_fields c)" by (simp add: check_columns_Ok_iff)
    from loop_panic[OF this, of "[]"] show ?thesis using Ok
      by (auto simp: contract_record_def outcome_simps dest: loop_err split: if_splits outcome.splits)
  qed (use cols cols_err in \<open>auto simp: contract_record_def split: outcome.splits\<close>)
qed

lemma contract_record_not_Panic: "contract_record libs c names cells turso \<noteq> Panic"
  using contract_record_outcome[of libs c names cells turso] by auto

text \<open>decoding a row never panics and can fail in one way only: as a response contract
  mismatch with status 500, never with a client error.
\<close>

theorem record_fails_as_contract_mismatch:
  "case contract_record libs c names cells turso of
     Ok _ \<Rightarrow> True
   | Err e \<Rightarrow> err_status e = 500 \<and> err_code e = ''response_contract_mismatch''
   | Panic \<Rightarrow> False"
  by (rule contract_record_outcome)


section \<open>Unambiguous decoding\<close>

lemma Contract_new_Ok:
  assumes "Contract_new libs schema = Ok c" and "json_wf schema"
  obtains props validator where
    "normalize (schema_part libs) schema = Ok (contract_schema c)" "json_wf (contract_schema c)"
    "lib_validator libs (contract_schema c) = Inr (contract_validator c)"
    "properties (schema_part libs) (contract_schema c) = Ok props"
    "list_all2 (\<lambda>p f. contract_field (schema_part libs) (contract_schema c) p = Ok f) props validator"
    "contract_fields c = bt_of_list validator"
proof -
  obtain s v props fs where n: "normalize (schema_part libs) schema = Ok s"
    and v: "lib_validator libs s = Inr v" and p: "properties (schema_part libs) s = Ok props"
    and f: "list_all2 (\<lambda>p f. contract_field (schema_part libs) s p = Ok f) props fs"
    and c: "c = \<lparr>contract_schema = s, contract_validator = v, contract_fields = bt_of_list fs\<rparr>"
  proof -
    obtain s where n: "normalize (schema_part libs) schema = Ok s"
      using assms(1) by (auto simp: Contract_new_def outcome_simps)
    show ?thesis
    proof (cases "lib_validator libs s")
      case (Inl e)
      then show ?thesis using assms(1) n by (simp add: Contract_new_def)
    next
      case (Inr v)
      then show ?thesis using assms(1) n that by (auto simp: Contract_new_def outcome_simps)
    qed
  qed
  have "json_wf s" by (rule normalize_Ok[OF n assms(2)])
  then show ?thesis using that n v p f by (simp add: c)
qed

lemma contract_field_Ok:
  assumes "contract_field libs schema (k, node) = Ok f"
  obtains t where "schema_types libs schema node = Ok t"
    "f = (k, \<lparr>dec_json = (t AND (OBJECT OR ARRAY) \<noteq> 0), dec_boolean = (t AND BOOLEAN \<noteq> 0)\<rparr>)"
    "t AND (OBJECT OR ARRAY) \<noteq> 0 \<Longrightarrow> t AND STRING = 0" "t AND BOOLEAN \<noteq> 0 \<Longrightarrow> t AND NUMBER = 0"
  using assms by (auto simp: contract_field_def outcome_simps Let_def split: if_splits)

text \<open>The fields of a contract are the properties of its schema, each with its own decoding rule.\<close>

lemma contract_fields_lookup:
  assumes "Contract_new libs schema = Ok c" and "json_wf schema" and "pointer_law (schema_part libs)"
    and "map_of (contract_fields c) k = Some d"
  obtains props node where "properties (schema_part libs) (contract_schema c) = Ok props"
    "map_of props k = Some node" "contract_field (schema_part libs) (contract_schema c) (k, node) = Ok (k, d)"
proof (rule Contract_new_Ok[OF assms(1,2)])
  fix props fs
  assume wf: "json_wf (contract_schema c)" and props: "properties (schema_part libs) (contract_schema c) = Ok props"
    and all: "list_all2 (\<lambda>p f. contract_field (schema_part libs) (contract_schema c) p = Ok f) props fs"
    and cf: "contract_fields c = bt_of_list fs"
  have "bt_wf props" using properties_refs(1)[OF props assms(3) wf] .
  have "map fst fs = map fst props"
    using all by (induction rule: list_all2_induct) (auto elim: contract_field_Ok)
  then have "map_of fs k = Some d"
    using assms(4) bt_wf_distinct[OF \<open>bt_wf props\<close>] by (simp add: cf map_of_bt_of_list_distinct)
  then obtain p where p: "p \<in> set props" "contract_field (schema_part libs) (contract_schema c) p = Ok (k, d)"
    using list_all2_right[OF all map_of_SomeD] by blast
  obtain node where "p = (k, node)" using p(2) by (cases p) (auto elim: contract_field_Ok)
  then show ?thesis
    using that props p bt_wf_distinct[OF \<open>bt_wf props\<close>] by (simp add: map_of_is_SomeI)
qed

text \<open>What the program relies on from the schema validator it builds for a schema.\<close>

definition validator_law :: "response_libs \<Rightarrow> json \<Rightarrow> (json \<Rightarrow> json \<Rightarrow> bool) \<Rightarrow> bool" where
  "validator_law libs schema valid \<longleftrightarrow>
     (\<forall>v. lib_validator libs schema = Inr v \<longrightarrow> v = valid schema)
     \<and> narrows (schema_part libs) schema valid \<and> applies_properties valid \<and> combines valid"

lemma contract_value_types:
  assumes "Contract_new libs schema = Ok c" and "json_wf schema" and "pointer_law (schema_part libs)"
    and "validator_law libs (contract_schema c) valid" and "contract_validator c (JObject m)"
    and "map_of (contract_fields c) k = Some d" and "map_of m k = Some x"
  shows "(\<exists>s. x = JString s) \<longrightarrow> \<not> dec_json d"
    and "(\<exists>n. x = JNumber n) \<longrightarrow> \<not> dec_boolean d"
    and "(\<exists>b. x = JBool b) \<longrightarrow> dec_boolean d"
    and "(\<exists>xs. x = JArray xs) \<or> (\<exists>obj. x = JObject obj) \<longrightarrow> dec_json d"
proof -
  obtain props node where props: "properties (schema_part libs) (contract_schema c) = Ok props"
    and node: "map_of props k = Some node"
    and f: "contract_field (schema_part libs) (contract_schema c) (k, node) = Ok (k, d)"
    by (rule contract_fields_lookup[OF assms(1-3,6)])
  obtain wf: "json_wf (contract_schema c)" and "lib_validator libs (contract_schema c) = Inr (contract_validator c)"
    by (rule Contract_new_Ok[OF assms(1,2)])
  then have root: "valid (contract_schema c) (JObject m)"
    using assms(4,5) by (auto simp: validator_law_def)
  have laws: "narrows (schema_part libs) (contract_schema c) valid" "applies_properties valid" "combines valid"
    using assms(4) by (auto simp: validator_law_def)
  have valid: "valid node x"
    using collect_sound[OF laws assms(3) wf properties_Ok(2)[OF props] wf root node assms(7)] .
  obtain t where t: "schema_types (schema_part libs) (contract_schema c) node = Ok t"
    and d: "d = \<lparr>dec_json = (t AND (OBJECT OR ARRAY) \<noteq> 0), dec_boolean = (t AND BOOLEAN \<noteq> 0)\<rparr>"
    and amb: "t AND (OBJECT OR ARRAY) \<noteq> 0 \<Longrightarrow> t AND STRING = 0" "t AND BOOLEAN \<noteq> 0 \<Longrightarrow> t AND NUMBER = 0"
    by (rule contract_field_Ok[OF f]) auto
  have bit: "t AND value_bit x \<noteq> 0"
    using types_sound[OF laws(1) t[unfolded schema_types_def] valid] by (simp add: and_value_bit)
  have mono: "t AND (OBJECT OR ARRAY) \<noteq> 0" if "t AND OBJECT \<noteq> 0 \<or> t AND ARRAY \<noteq> 0"
    using that by (auto simp: bit.conj_disj_distrib or_eq_0_iff)
  have amb': "t AND (OBJECT OR ARRAY) = 0 \<or> t AND STRING = 0" "t AND BOOLEAN = 0 \<or> t AND NUMBER = 0"
    using amb by blast+
  show "(\<exists>s. x = JString s) \<longrightarrow> \<not> dec_json d" "(\<exists>n. x = JNumber n) \<longrightarrow> \<not> dec_boolean d"
    "(\<exists>b. x = JBool b) \<longrightarrow> dec_boolean d"
    "(\<exists>xs. x = JArray xs) \<or> (\<exists>obj. x = JObject obj) \<longrightarrow> dec_json d"
    using bit amb' mono by (auto simp: d value_bit_def type_bit_defs)
qed


text \<open>a contract decodes without ambiguity. If a contract is accepted, then in every record
  its validator accepts a column decoded as JSON text never holds a string, a column decoded
  as boolean never holds a number, and objects, arrays and booleans only occur in columns
  that are decoded as such.
\<close>

theorem contract_decoding_unambiguous:
  assumes "Contract_new libs schema = Ok c" and "json_wf schema" and "pointer_law (schema_libs.truncate libs)"
    and "validator_law libs (contract_schema c) valid" and "contract_validator c (JObject m)"
    and "map_of (contract_fields c) k = Some d" and "map_of m k = Some x"
  shows "(case x of JString _ \<Rightarrow> \<not> dec_json d | JNumber _ \<Rightarrow> \<not> dec_boolean d | JBool _ \<Rightarrow> dec_boolean d
    | JArray _ \<Rightarrow> dec_json d | JObject _ \<Rightarrow> dec_json d | JNull \<Rightarrow> True)"
  using contract_value_types[OF assms] by (cases x) simp_all

text \<open>How a database holds a JSON value: JSON text for structures, 0 and 1 for Turso booleans.\<close>

definition encode_cell :: "(json \<Rightarrow> string) \<Rightarrow> bool \<Rightarrow> json \<Rightarrow> cell" where
  "encode_cell print turso v =
     (case v of
        JNull \<Rightarrow> CNull
      | JBool b \<Rightarrow> if turso then CInteger (if b then 1 else 0) else CBoolean b
      | JNumber (PosInt n) \<Rightarrow> CInteger n
      | JNumber (NegInt n) \<Rightarrow> CInteger n
      | JNumber (Float x) \<Rightarrow> CReal x
      | JString s \<Rightarrow> CText s
      | JArray _ \<Rightarrow> CText (print v)
      | JObject _ \<Rightarrow> CText (print v))"

definition storable :: "json \<Rightarrow> bool" where
  "storable v \<longleftrightarrow> (case v of JNumber (PosInt n) \<Rightarrow> uint n < 2 ^ 63 | _ \<Rightarrow> True)"

lemma number_of_small: "uint (n :: i64) < 2 ^ 63 \<Longrightarrow> number_of_i64 n = PosInt n"
proof -
  assume n: "uint n < 2 ^ 63"
  have "sint n = signed_take_bit 63 (uint n)" by (simp add: sint_uint)
  also have "\<dots> = uint n" using n order_trans[OF _ uint_ge_0[of n]] by (intro signed_take_bit_int_eq_self) auto
  finally show ?thesis using n by (simp add: number_of_i64_def word_sless_alt)
qed

lemma decode_encoded:
  assumes "json_wf x" and "storable x" and "lib_json libs (print x) = Some x"
    and "(\<exists>s. x = JString s) \<longrightarrow> \<not> dec_json d" and "(\<exists>n. x = JNumber n) \<longrightarrow> \<not> dec_boolean d"
    and "(\<exists>b. x = JBool b) \<longrightarrow> dec_boolean d"
    and "(\<exists>xs. x = JArray xs) \<or> (\<exists>obj. x = JObject obj) \<longrightarrow> dec_json d"
  shows "decode_cell libs d turso (encode_cell print turso x) = Ok x"
proof (cases x)
  case (JNumber n)
  have "number_of_i64 i = NegInt i" if "n = NegInt i" for i
    using that assms(1) by (simp add: JNumber number_of_i64_def)
  then show ?thesis using assms(1,2,5)
    by (cases n) (auto simp: JNumber decode_cell_def encode_cell_def storable_def number_of_small
        number_from_f64_def)
next
  case (JArray xs)
  then show ?thesis using assms(7) assms(3) by (simp add: decode_cell_def encode_cell_def)
next
  case (JObject m)
  then show ?thesis using assms(7) assms(3) by (simp add: decode_cell_def encode_cell_def)
qed (use assms in \<open>auto simp: decode_cell_def encode_cell_def\<close>)

lemma record_loop_ok:
  assumes "\<And>k cell. (k, cell) \<in> set ps \<Longrightarrow> \<exists>d. map_of (contract_fields c) k = Some d
      \<and> decode_cell libs d turso cell = Ok (f k)"
  shows "try_fold (record_step libs c turso) ps m = Ok (fold (\<lambda>(k, v). bt_insert k v) (map (\<lambda>(k, _). (k, f k)) ps) m)"
  using assms
proof (induction ps arbitrary: m)
  case (Cons p ps)
  obtain k cell where p: "p = (k, cell)" by force
  obtain d where "map_of (contract_fields c) k = Some d" "decode_cell libs d turso cell = Ok (f k)"
    using Cons.prems[of k cell] p by auto
  then show ?case using Cons by (simp add: p record_step_def)
qed simp

text \<open>
  C9: reading inverts storing. Take any contract the program accepts and any record its
  validator accepts (integers within 64 bits): if the database returns the record's columns
  in any order, with every value in its natural cell (JSON text for objects and arrays, 0/1
  for Turso booleans), then decoding the row gives back exactly that record.
\<close>

theorem record_roundtrip:
  assumes c: "Contract_new libs schema = Ok c" "json_wf schema" "pointer_law (schema_libs.truncate libs)"
    and valid: "validator_law libs (contract_schema c) valid" "contract_validator c (JObject m)"
    and m: "json_wf (JObject m)" "fst ` set m = fst ` set (contract_fields c)" "\<forall>v \<in> snd ` set m. storable v"
    and print: "\<forall>v \<in> snd ` set m. lib_json libs (print v) = Some v"
    and names: "distinct names" "set names = fst ` set m"
  shows "contract_record libs c names (map (\<lambda>n. encode_cell print turso (the (map_of m n))) names) turso
    = Ok (JObject m)"
proof -
  let ?cells = "map (\<lambda>n. encode_cell print turso (the (map_of m n))) names"
  have dec: "\<exists>d. map_of (contract_fields c) k = Some d \<and> decode_cell libs d turso cell = Ok (the (map_of m k))"
    if "(k, cell) \<in> set (zip names ?cells)" for k cell
  proof -
    have k: "k \<in> set names" and cell: "cell = encode_cell print turso (the (map_of m k))"
      using that by (auto simp: set_zip)
    obtain x where x: "map_of m k = Some x" using k names(2) by (metis map_of_eq_None_iff not_None_eq)
    obtain d where d: "map_of (contract_fields c) k = Some d"
      using k names(2) m(2) by (metis map_of_eq_None_iff not_None_eq)
    have "x \<in> snd ` set m" using map_of_SomeD[OF x] by force
    then have "json_wf x" "storable x" "lib_json libs (print x) = Some x"
      using m(3) print json_wf_lookup[OF m(1) x] by auto
    then show ?thesis
      using decode_encoded[OF _ _ _ contract_value_types[OF c valid d x]] by (simp add: d x cell)
  qed
  let ?m = "bt_of_list (map (\<lambda>k. (k, the (map_of m k))) names)"
  have "map (\<lambda>(k, _). (k, the (map_of m k))) (zip names ?cells) = map (\<lambda>k. (k, the (map_of m k))) names"
    by (rule nth_equalityI) auto
  then have loop: "try_fold (record_step libs c turso) (zip names ?cells) [] = Ok ?m"
    using record_loop_ok[OF dec, of "zip names ?cells" "[]"] by (simp add: bt_of_list_def)
  have "map_of ?m k = map_of m k" for k
  proof -
    have "map_of ?m k = (if k \<in> set names then Some (the (map_of m k)) else None)"
      using names(1) by (simp add: map_of_bt_of_list_distinct comp_def union_lookup)
    then show ?thesis using names(2) map_of_eq_None_iff[of m k] by auto
  qed
  then have "?m = m" using m(1) by (intro bt_wf_unique) auto
  moreover have "check_columns c names = Ok ()" using names m(2) by (simp add: check_columns_Ok_iff)
  ultimately show ?thesis using loop valid(2) by (simp add: contract_record_def)
qed

text \<open>A concrete contract: one text column.\<close>

definition sample_libs :: response_libs where
  "sample_libs = \<lparr>lib_decode = Some, lib_encode = filter (\<lambda>c. c < CHR 0x80),
     lib_pointer = lib_pointer ascii_libs, lib_yaml = (\<lambda>_. Inr (Inr record_schema)),
     lib_validator = (\<lambda>schema. Inr (accepts schema)), lib_json = (\<lambda>s. Some (JString s)), lib_camel = id\<rparr>"

definition sample_contract :: contract where
  "sample_contract = \<lparr>contract_schema = record_schema, contract_validator = accepts record_schema,
     contract_fields = [(''id'', \<lparr>dec_json = False, dec_boolean = False\<rparr>)]\<rparr>"

lemma sample_part: "schema_libs.truncate sample_libs = ascii_libs"
  by (simp add: schema_libs.truncate_def sample_libs_def ascii_libs_def)

lemma sample_contract_new: "Contract_new sample_libs record_schema = Ok sample_contract"
proof -
  have "normalize ascii_libs record_schema = Ok record_schema" by code_simp
  moreover have "properties ascii_libs record_schema = Ok [(''id'', text_schema)]" by code_simp
  moreover have "contract_field ascii_libs record_schema (''id'', text_schema)
      = Ok (''id'', \<lparr>dec_json = False, dec_boolean = False\<rparr>)" by code_simp
  moreover have "lib_validator sample_libs record_schema = Inr (accepts record_schema)"
    by (simp add: sample_libs_def)
  ultimately show ?thesis
    by (simp add: Contract_new_def sample_part sample_contract_def bt_of_list_def)
qed

lemma sample_laws:
  "json_wf record_schema" "pointer_law (schema_libs.truncate sample_libs)"
  "validator_law sample_libs (contract_schema sample_contract) accepts"
  "contract_validator sample_contract (JObject [(''id'', JString ''a'')])"
proof -
  show "json_wf record_schema" by code_simp
  show "pointer_law (schema_libs.truncate sample_libs)" by (simp add: sample_part ascii_libs_pointer)
  show "validator_law sample_libs (contract_schema sample_contract) accepts"
    by (simp add: validator_law_def sample_part accepts_narrows accepts_properties accepts_combines)
      (simp add: sample_libs_def)
  show "contract_validator sample_contract (JObject [(''id'', JString ''a'')])"
    unfolding sample_contract_def by simp (rule accepts.intros(5), auto intro: accepts.intros split: if_splits)
qed

theorem contract_decoding_unambiguous_witness:
  "\<not> dec_json (the (map_of (contract_fields sample_contract) ''id''))"
  using contract_decoding_unambiguous[OF sample_contract_new sample_laws, of "''id''" _ "JString ''a''"]
  by (simp add: sample_contract_def)

theorem record_roundtrip_witness:
  "contract_record sample_libs sample_contract [''id''] [CText ''a''] True = Ok (JObject [(''id'', JString ''a'')])"
proof -
  have "contract_record sample_libs sample_contract [''id'']
      (map (\<lambda>n. encode_cell (\<lambda>v. case v of JString s \<Rightarrow> s | _ \<Rightarrow> []) True
         (the (map_of [(''id'', JString ''a'')] n))) [''id'']) True = Ok (JObject [(''id'', JString ''a'')])"
    by (rule record_roundtrip[OF sample_contract_new sample_laws])
      (simp_all add: sample_contract_def sample_libs_def storable_def)
  then show ?thesis by (simp add: encode_cell_def)
qed

theorem record_exact_witness:
  "\<exists>m. JObject [(''id'', JString ''a'')] = JObject m \<and> fst ` set m = fst ` set (contract_fields sample_contract)"
proof -
  have "contract_record sample_libs sample_contract [''id''] [CText ''a''] True = Ok (JObject [(''id'', JString ''a'')])"
    using sample_laws(4) by (simp add: contract_record_def check_columns_def record_step_def decode_cell_def sample_contract_def)
  from record_exact[OF this] show ?thesis by blast
qed

end
