(* ===== verification/Loader.thy ===== *)
theory Loader
  imports Response
begin

text \<open>
  \<^verbatim>\<open>src/loader.rs\<close>: loading an interface tree into a snapshot (routes, compiled
  statements, contracts, generated names, the version digest and the OpenAPI document), and
  resolving a request to an endpoint. Hashing, YAML, SQL parsing and case conversion are
  library calls and parameters.
\<close>

definition METHODS :: "string list" where
  "METHODS = [''get'', ''head'', ''post'', ''put'', ''patch'', ''delete'', ''options'']"

datatype segment = Static string | Dynamic string

record endpoint =
  e_backend :: backend
  e_method :: string
  e_path :: string
  e_segments :: "segment list"
  e_statements :: "statement list"
  e_parameters :: "parameter list"
  e_contract :: "contract option"
  e_operation_id :: string

record snapshot =
  sn_endpoints :: "endpoint list"
  sn_openapi :: json
  sn_version :: string

record matched_endpoint =
  me_endpoint :: endpoint
  me_path_parameters :: "(string \<times> string) list"

record loader_libs =
  ll_response :: response_libs
  ll_sql :: sql_libs
  ll_sha256 :: "string \<Rightarrow> string"
  ll_pkg_version :: string

text \<open>\<open>Endpoint::validate_input\<close>.\<close>

definition validate_input :: "params_libs \<Rightarrow> endpoint \<Rightarrow> input \<Rightarrow> unit result" where
  "validate_input libs e i = try_each (\<lambda>p. map_ok (\<lambda>_. ()) (Parameter_read libs p i)) (e_parameters e)"


section \<open>Reading the tree\<close>

text \<open>
  A directory as \<open>read_dir\<close> enumerates it: every item is an entry, or the failure of one of
  the calls made for it. A file's contents are read or fail.
\<close>

datatype fs_node =
    Regular_file "string + string"
  | Directory "string + fs_item list"
  | Special_file
and fs_item =
    Entry_error string
  | Bad_name
  | Type_error string
  | Entry string fs_node

definition relative_path :: "string \<Rightarrow> string \<Rightarrow> string" where
  "relative_path pre name = (if pre = [] then name else pre @ ''/'' @ name)"

text \<open>\<open>read_tree\<close> on a directory listing; \<open>read_node\<close> is one entry of known type.\<close>

fun read_items :: "fs_item list \<Rightarrow> string \<Rightarrow> (string \<times> string) list \<Rightarrow> (string \<times> string) list result"
  and read_node :: "fs_node \<Rightarrow> string \<Rightarrow> (string \<times> string) list \<Rightarrow> (string \<times> string) list result"
where
  "read_items [] pre out = Ok out"
| "read_items (Entry_error e # items) pre out = Err (definition_error e)"
| "read_items (Bad_name # items) pre out = Err (definition_error ''Interface filename must be UTF-8'')"
| "read_items (Type_error e # items) pre out = Err (definition_error e)"
| "read_items (Entry name node # items) pre out =
     and_then (read_node node (relative_path pre name) out) (\<lambda>out. read_items items pre out)"
| "read_node (Directory (Inl e)) path out =
     Err (definition_error (''Cannot read interface directory: '' @ e))"
| "read_node (Directory (Inr items)) path out = read_items items path out"
| "read_node (Regular_file (Inl e)) path out = Err (definition_error e)"
| "read_node (Regular_file (Inr s)) path out = Ok (bt_insert path s out)"
| "read_node Special_file path out =
     Err (definition_error ''Interface tree must contain regular files and directories, not symlinks or devices'')"

definition read_tree :: "fs_node \<Rightarrow> (string \<times> string) list result" where
  "read_tree root = read_node root [] []"


section \<open>One interface file\<close>

definition validate_file_path :: "string \<Rightarrow> unit result" where
  "validate_file_path path =
     (if path = [] \<or> CHR 0x5C \<in> set path
         \<or> list_ex (\<lambda>s. s \<in> {[], ''.'', ''..''}) (split_on CHR ''/'' path)
      then Err (definition_error (''Invalid relative interface path: '' @ path))
      else Ok ())"

record segment_state =
  sg_segments :: "segment list"
  sg_names :: "string set"
  sg_structural :: string
  sg_prefixes :: "(string \<times> string) list"

definition static_char :: "char \<Rightarrow> bool" where
  "static_char c \<longleftrightarrow> is_ascii_alphanumeric c \<or> c = CHR ''_'' \<or> c = CHR ''-'' \<or> c = CHR ''.''"

definition segment_step :: "string \<Rightarrow> string \<Rightarrow> segment_state \<Rightarrow> segment_state result" where
  "segment_step file part st =
     (case Option.bind (strip_prefix ''['' part) (strip_suffix '']'') of
        Some name \<Rightarrow>
          if \<not> is_identifier name \<or> name \<in> sg_names st
          then Err (definition_error (''Invalid or repeated path parameter: '' @ file))
          else
            (let structural = sg_structural st @ ''/{}'' in
             if (case map_of (sg_prefixes st) structural of Some previous \<Rightarrow> previous \<noteq> name | None \<Rightarrow> False)
             then Err (definition_error (''Conflicting dynamic route names: '' @ file))
             else Ok \<lparr>sg_segments = sg_segments st @ [Dynamic name], sg_names = insert name (sg_names st),
                   sg_structural = structural, sg_prefixes = bt_insert structural name (sg_prefixes st)\<rparr>)
      | None \<Rightarrow>
          if \<not> list_all static_char part
          then Err (definition_error (''Invalid route segment: '' @ part))
          else Ok (st\<lparr>sg_segments := sg_segments st @ [Static part],
                 sg_structural := sg_structural st @ ''/'' @ part\<rparr>))"

fun segment_text :: "segment \<Rightarrow> string" where
  "segment_text (Static s) = ''/'' @ s"
| "segment_text (Dynamic s) = ''/{'' @ s @ ''}''"

definition path_of :: "segment list \<Rightarrow> string" where
  "path_of segments = (if segments = [] then ''/'' else concat (map segment_text segments))"

definition operation_name :: "(string \<Rightarrow> string) \<Rightarrow> string \<Rightarrow> segment list \<Rightarrow> string" where
  "operation_name title_case meth segments =
     title_case meth @ concat (map (\<lambda>s. case s of Static s \<Rightarrow> title_case s | Dynamic s \<Rightarrow> ''By'' @ title_case s) segments)"

record load_state =
  ld_endpoints :: "endpoint list"
  ld_names :: "string set"
  ld_routes :: "(string \<times> string) set"
  ld_prefixes :: "(string \<times> string) list"

definition register_name :: "string \<Rightarrow> string \<Rightarrow> string set \<Rightarrow> string set result" where
  "register_name file name names =
     (if name \<in> names
      then Err (definition_error (''Generated name collision at '' @ file @ '': '' @ name))
      else Ok (insert name names))"

text \<open>The parameters of an endpoint: all references, sorted by path, without repetitions.\<close>

definition endpoint_parameters :: "statement list \<Rightarrow> parameter list result" where
  "endpoint_parameters statements =
     (let parameters = concat (map s_parameters statements) in
      and_then (validate_parameters parameters) (\<lambda>_.
        Ok (remdups_adj (sort_key Parameter_path parameters))))"

definition first_field :: "parameter \<Rightarrow> string result" where
  "first_field p = (case p_fields p of [] \<Rightarrow> Panic | f # _ \<Rightarrow> Ok f)"

definition load_sql ::
  "loader_libs \<Rightarrow> backend \<Rightarrow> (string \<times> string) list \<Rightarrow> string \<Rightarrow> string \<Rightarrow> string \<Rightarrow> load_state \<Rightarrow> load_state result" where
  "load_sql libs b files file source meth st =
     (let directory = (case rsplit_once CHR ''/'' file of Some (d, _) \<Rightarrow> d | None \<Rightarrow> []) in
      and_then (try_fold (segment_step file) (filter (\<lambda>s. s \<noteq> []) (split_on CHR ''/'' directory))
        \<lparr>sg_segments = [], sg_names = {}, sg_structural = [], sg_prefixes = ld_prefixes st\<rparr>) (\<lambda>sg.
      if (meth, sg_structural sg) \<in> ld_routes st
      then Err (definition_error (''Duplicate route: '' @ file))
      else
        and_then (compile (ll_sql libs) source b) (\<lambda>statements.
        and_then (endpoint_parameters statements) (\<lambda>parameters.
        and_then (try_map first_field (filter (\<lambda>p. p_source p = ''path'') parameters)) (\<lambda>referenced.
        if set referenced \<noteq> sg_names sg
        then Err (definition_error (''Every dynamic segment needs a typed path reference, and vice versa: '' @ file))
        else
          and_then (unwrap (strip_suffix ''.sql'' file)) (\<lambda>stem.
          and_then (case map_of files (stem @ ''.response.yaml'') of
              None \<Rightarrow> Ok None
            | Some s \<Rightarrow> map_ok Some (Contract_from_yaml (ll_response libs) s)) (\<lambda>contract.
          if statements = [] then Panic
          else if s_returns_rows (last statements) \<and> Option.is_none contract
          then Err (definition_error (''Final result columns require a response schema: '' @ file))
          else
            (let operation_id = operation_name (lib_camel (ll_response libs)) meth (sg_segments sg) in
             and_then (try_fold (register_name file)
               [operation_id, operation_id @ ''Input'', operation_id @ ''Record'', operation_id @ ''Response''] (ld_names st)) (\<lambda>names.
             Ok \<lparr>ld_endpoints = ld_endpoints st @ [\<lparr>e_backend = b, e_method = meth, e_path = path_of (sg_segments sg),
                     e_segments = sg_segments sg, e_statements = statements, e_parameters = parameters,
                     e_contract = contract, e_operation_id = operation_id\<rparr>],
                   ld_names = names, ld_routes = insert (meth, sg_structural sg) (ld_routes st),
                   ld_prefixes = sg_prefixes sg\<rparr>)))))))))"

definition load_file ::
  "loader_libs \<Rightarrow> backend \<Rightarrow> (string \<times> string) list \<Rightarrow> string \<times> string \<Rightarrow> load_state \<Rightarrow> load_state result" where
  "load_file libs b files = (\<lambda>(file, source) st.
     and_then (validate_file_path file) (\<lambda>_.
       let filename = last (split_on CHR ''/'' file) in
       case strip_suffix ''.response.yaml'' filename of
         Some meth \<Rightarrow>
           if meth \<notin> set METHODS then Err (definition_error (''Unknown method file: '' @ file))
           else and_then (unwrap (strip_suffix ''.response.yaml'' file)) (\<lambda>stem.
             if map_of files (stem @ ''.sql'') = None
             then Err (definition_error (''Response schema has no SQL sibling: '' @ file))
             else Ok st)
       | None \<Rightarrow>
           (case strip_suffix ''.sql'' filename of
              None \<Rightarrow> Err (definition_error (''Unexpected interface file: '' @ file))
            | Some meth \<Rightarrow>
                if meth \<notin> set METHODS
                then Err (definition_error (''Unexpected interface file: '' @ file))
                else load_sql libs b files file source meth st)))"


section \<open>The OpenAPI document\<close>

text \<open>
  \<open>Value\<close>'s \<open>IndexMut\<close> with a string: a missing key (or a null value) becomes an entry;
  any other value panics.
\<close>

definition json_index_mut :: "string \<Rightarrow> (json \<Rightarrow> json result) \<Rightarrow> json \<Rightarrow> json result" where
  "json_index_mut k f v =
     (case v of
        JNull \<Rightarrow> map_ok (\<lambda>x. JObject [(k, x)]) (f JNull)
      | JObject m \<Rightarrow>
          map_ok (\<lambda>x. JObject (bt_insert k x m)) (f (case map_of m k of None \<Rightarrow> JNull | Some x \<Rightarrow> x))
      | _ \<Rightarrow> Panic)"

definition empty_body :: json where
  "empty_body = json_obj [(''type'', JString ''object''), (''properties'', JObject []), (''required'', JArray [])]"

definition require_name :: "string \<Rightarrow> json \<Rightarrow> json result" where
  "require_name name r =
     and_then (unwrap (as_array r)) (\<lambda>required.
       Ok (JArray (if JString name \<in> set required then required else required @ [JString name])))"

primrec insert_body :: "string list \<Rightarrow> json \<Rightarrow> json \<Rightarrow> json result" where
  "insert_body [] leaf schema = Panic"
| "insert_body (name # rest) leaf schema =
     and_then (json_index_mut ''required'' (require_name name) schema) (\<lambda>schema.
       if rest = [] then json_index_mut ''properties'' (json_index_mut name (\<lambda>_. Ok leaf)) schema
       else json_index_mut ''properties'' (\<lambda>props.
         and_then (unwrap (as_object props)) (\<lambda>m.
           map_ok (\<lambda>child. JObject (bt_insert name child m))
             (insert_body rest leaf (case map_of m name of Some child \<Rightarrow> child | None \<Rightarrow> empty_body)))) schema)"

definition schema_ref :: "string \<Rightarrow> json" where
  "schema_ref name = json_obj [(''$ref'', JString (''#/components/schemas/'' @ name))]"

definition json_content :: "json \<Rightarrow> json" where
  "json_content schema = json_obj [(''application/json'', json_obj [(''schema'', schema)])]"

text \<open>The documented parameters of one endpoint and its request body schema.\<close>

definition openapi_parameter :: "parameter \<Rightarrow> json list \<times> json \<Rightarrow> (json list \<times> json) result" where
  "openapi_parameter p = (\<lambda>(parameters, body).
     if p_source p = ''body'' then
       map_ok (Pair parameters) (insert_body (p_fields p) (Type_schema (p_ty p)) body)
     else
       map_ok (\<lambda>name. (parameters @ [json_obj [(''in'', JString (p_source p)), (''name'', JString name),
            (''required'', JBool True), (''schema'', Type_schema (p_ty p))]], body)) (first_field p))"

definition add_schema :: "string \<Rightarrow> json \<Rightarrow> jmap \<Rightarrow> jmap result" where
  "add_schema name schema schemas =
     (if map_of schemas name \<noteq> None
      then Err (definition_error (''Generated schema name collision: '' @ name))
      else Ok (bt_insert name schema schemas))"

definition response_schema :: "json \<Rightarrow> json" where
  "response_schema records =
     json_obj [(''type'', JString ''object''), (''required'', JArray [JString ''records'']),
       (''additionalProperties'', JBool False), (''properties'', json_obj [(''records'', records)])]"

definition default_response :: json where
  "default_response =
     json_obj [(''description'', JString ''Execution or request error''),
       (''content'', json_content (json_obj [(''type'', JString ''object''),
          (''required'', JArray [JString ''error'']),
          (''properties'', json_obj [(''error'', json_obj [(''type'', JString ''object''),
             (''required'', JArray [JString ''code'', JString ''message'']),
             (''properties'', json_obj [(''code'', json_obj [(''type'', JString ''string'')]),
                (''message'', json_obj [(''type'', JString ''string'')]),
                (''parameter'', json_obj [(''type'', JString ''string'')])])])])]))]"

definition openapi_operation :: "endpoint \<Rightarrow> json list \<Rightarrow> string \<Rightarrow> jmap" where
  "openapi_operation e parameters response_name =
     bt_of_list [(''operationId'', JString (e_operation_id e)), (''parameters'', JArray parameters),
       (''responses'',
          if e_method e = ''head'' then
            json_obj [(''200'', json_obj [(''description'', JString ''Successful execution; HTTP HEAD sends no response body'')]),
              (''default'', json_obj [(''description'', JString ''Request failed; HTTP HEAD sends no response body'')])]
          else
            json_obj [(''200'', json_obj [(''description'', JString ''Successful execution''),
                (''content'', json_content (schema_ref response_name))]),
              (''default'', default_response)])]"

text \<open>One round of the loop: \<open>components.schemas\<close> and \<open>paths\<close> of the document.\<close>

definition openapi_endpoint :: "loader_libs \<Rightarrow> endpoint \<Rightarrow> jmap \<times> jmap \<Rightarrow> (jmap \<times> jmap) result" where
  "openapi_endpoint libs e = (\<lambda>(schemas, paths).
     let oid = e_operation_id e in
     and_then (try_fold openapi_parameter (e_parameters e) ([], empty_body)) (\<lambda>(parameters, body).
     and_then (case e_contract e of
         Some contract \<Rightarrow>
           (let record_name = oid @ ''Record'' in
            and_then (openapi_components (ll_response libs) contract record_name) (\<lambda>components.
            map_ok (\<lambda>schemas. (schemas, response_schema (json_obj [(''type'', JString ''array''), (''items'', schema_ref record_name)])))
              (try_fold (\<lambda>(name, schema). add_schema name schema) components schemas)))
       | None \<Rightarrow>
           Ok (schemas, response_schema (json_obj [(''type'', JString ''array''),
             (''maxItems'', JNumber (PosInt 0)), (''items'', JObject [])]))) (\<lambda>(schemas, response).
     let response_name = oid @ ''Response'' in
     and_then (add_schema response_name response schemas) (\<lambda>schemas.
     let operation = openapi_operation e parameters response_name in
     and_then (unwrap (Option.bind (json_get ''required'' body) as_array)) (\<lambda>required.
     and_then (if required = [] then Ok (schemas, operation)
         else (let input_name = oid @ ''Input'' in
           map_ok (\<lambda>schemas. (schemas, bt_insert ''requestBody'' (json_obj [(''required'', JBool True),
               (''content'', json_content (schema_ref input_name))]) operation))
             (add_schema input_name body schemas))) (\<lambda>(schemas, operation).
     let item = (case map_of paths (e_path e) of None \<Rightarrow> JObject [] | Some item \<Rightarrow> item) in
     map_ok (\<lambda>item. (schemas, bt_insert (e_path e) item paths))
       (json_index_mut (e_method e) (\<lambda>_. Ok (JObject operation)) item)))))))"

definition build_openapi :: "loader_libs \<Rightarrow> endpoint list \<Rightarrow> json result" where
  "build_openapi libs endpoints =
     map_ok (\<lambda>(schemas, paths). json_obj [(''openapi'', JString ''3.1.0''),
         (''info'', json_obj [(''title'', JString ''SQLRest''), (''version'', JString (ll_pkg_version libs))]),
         (''paths'', JObject paths), (''components'', json_obj [(''schemas'', JObject schemas)])])
       (try_fold (openapi_endpoint libs) endpoints ([], []))"


section \<open>Snapshots\<close>

definition segment_kind :: "segment \<Rightarrow> nat" where
  "segment_kind s = (case s of Static _ \<Rightarrow> 0 | Dynamic _ \<Rightarrow> 1)"

text \<open>The hashed bytes: every path and content behind its length in eight big-endian bytes.\<close>

definition be_bytes :: "nat \<Rightarrow> string" where
  "be_bytes n = map (\<lambda>i. char_of (n div 256 ^ (7 - i))) [0..<8]"

definition digest_input :: "backend \<Rightarrow> (string \<times> string) list \<Rightarrow> string" where
  "digest_input b files =
     (case b of Turso \<Rightarrow> ''turso'' | Postgres \<Rightarrow> ''postgres'')
     @ concat (map (\<lambda>(path, content).
         be_bytes (length path) @ path @ be_bytes (length content) @ content) files)"

definition from_files :: "loader_libs \<Rightarrow> (string \<times> string) list \<Rightarrow> backend \<Rightarrow> snapshot result" where
  "from_files libs files b =
     and_then (try_fold (load_file libs b files) files
       \<lparr>ld_endpoints = [], ld_names = {}, ld_routes = {}, ld_prefixes = []\<rparr>) (\<lambda>st.
     let endpoints = sort_key (\<lambda>e. map segment_kind (e_segments e)) (ld_endpoints st) in
     and_then (build_openapi libs endpoints) (\<lambda>openapi.
     Ok \<lparr>sn_endpoints = endpoints, sn_openapi = openapi, sn_version = ll_sha256 libs (digest_input b files)\<rparr>))"

definition Snapshot_load :: "loader_libs \<Rightarrow> fs_node \<Rightarrow> backend \<Rightarrow> snapshot result" where
  "Snapshot_load libs root b = and_then (read_tree root) (\<lambda>files. from_files libs files b)"

definition Snapshot_openapi :: "snapshot \<Rightarrow> string \<Rightarrow> json result" where
  "Snapshot_openapi s server_url =
     json_index_mut ''servers'' (\<lambda>_. Ok (JArray [json_obj [(''url'', JString server_url)]])) (sn_openapi s)"


section \<open>Resolving a request\<close>

text \<open>\<open>captures\<close>: the loop over segments and values of equal length.\<close>

fun capture_values :: "segment list \<Rightarrow> string list \<Rightarrow> (string \<times> string) list \<Rightarrow> (string \<times> string) list option" where
  "capture_values (s # ss) (v # vs) result =
     (if v = [] \<or> CHR ''/'' \<in> set v then None
      else (case s of
          Static t \<Rightarrow> if t \<noteq> v then None else capture_values ss vs result
        | Dynamic name \<Rightarrow> capture_values ss vs (bt_insert name v result)))"
| "capture_values _ _ result = Some result"

definition captures :: "endpoint \<Rightarrow> string list \<Rightarrow> (string \<times> string) list option" where
  "captures e values =
     (if length (e_segments e) \<noteq> length values then None else capture_values (e_segments e) values [])"

definition ascii_lower :: "char \<Rightarrow> char" where
  "ascii_lower c = (if is_ascii_uppercase c then char_of (of_char c + 32 :: nat) else c)"

definition ascii_upper :: "char \<Rightarrow> char" where
  "ascii_upper c = (if is_ascii_lowercase c then char_of (of_char c - 32 :: nat) else c)"

definition eq_ignore_ascii_case :: "string \<Rightarrow> string \<Rightarrow> bool" where
  "eq_ignore_ascii_case s t \<longleftrightarrow> map ascii_lower s = map ascii_lower t"

definition route_not_found :: sqlrest_error where
  "route_not_found = new_error 404 ''route_not_found'' ''No matching route''"

text \<open>The \<open>Allow\<close> value: the upper-case methods of a path, sorted, each once.\<close>

definition allowed_methods :: "snapshot \<Rightarrow> string \<Rightarrow> string" where
  "allowed_methods s path =
     join '', '' (map fst (bt_of_list (map (\<lambda>e. (map ascii_upper (e_method e), ()))
       (filter (\<lambda>e. e_path e = path) (sn_endpoints s)))))"

definition method_not_allowed :: "snapshot \<Rightarrow> string \<Rightarrow> sqlrest_error" where
  "method_not_allowed s path =
     with_allowed_methods (allowed_methods s path)
       (new_error 405 ''method_not_allowed'' ''Method not defined for this route'')"

definition resolve :: "snapshot \<Rightarrow> string \<Rightarrow> string list \<Rightarrow> matched_endpoint result" where
  "resolve s meth segments =
     and_then (ok_or route_not_found (find (\<lambda>e. captures e segments \<noteq> None) (sn_endpoints s))) (\<lambda>first.
     and_then (ok_or (method_not_allowed s (e_path first))
         (find (\<lambda>e. e_path e = e_path first \<and> eq_ignore_ascii_case (e_method e) meth) (sn_endpoints s))) (\<lambda>e.
     map_ok (\<lambda>ps. \<lparr>me_endpoint = e, me_path_parameters = ps\<rparr>) (unwrap (captures e segments))))"

section \<open>Routes\<close>

fun wf_segment :: "segment \<Rightarrow> bool" where
  "wf_segment (Static s) = (s \<noteq> [] \<and> list_all static_char s)"
| "wf_segment (Dynamic n) = is_identifier n"

text \<open>The text a segment contributes to the structural key of a route.\<close>

fun skeleton :: "segment \<Rightarrow> string" where
  "skeleton (Static s) = s"
| "skeleton (Dynamic n) = ''{}''"

definition structural_of :: "segment list \<Rightarrow> string" where
  "structural_of ss = concat (map (\<lambda>s. ''/'' @ skeleton s) ss)"

fun dynamic_name :: "segment \<Rightarrow> string option" where
  "dynamic_name (Dynamic n) = Some n"
| "dynamic_name (Static _) = None"

definition dynamic_names :: "segment list \<Rightarrow> string list" where
  "dynamic_names ss = List.map_filter dynamic_name ss"

definition named_by :: "(string \<times> string) list \<Rightarrow> segment list \<Rightarrow> bool" where
  "named_by P ss \<longleftrightarrow> (\<forall>i < length ss. \<forall>n. ss ! i = Dynamic n \<longrightarrow> map_of P (structural_of (take (Suc i) ss)) = Some n)"

lemma static_char_plain: "static_char c \<Longrightarrow> c \<noteq> CHR ''/'' \<and> c \<noteq> CHR ''{''"
  by (auto simp: static_char_def ascii_defs)

lemma identifier_plain: "is_identifier n \<Longrightarrow> CHR ''/'' \<notin> set n"
  by (cases n) (auto simp: ascii_defs list_all_iff)

lemma skeleton_no_slash: "wf_segment s \<Longrightarrow> CHR ''/'' \<notin> set (skeleton s)"
  by (cases s) (auto simp: list_all_iff dest: static_char_plain)

lemma split_on_slashes:
  "\<forall>x \<in> set xs. c \<notin> set x \<Longrightarrow> split_on c (concat (map (\<lambda>x. c # x) xs)) = [] # xs"
proof (induction xs)
  case (Cons x xs)
  show ?case
  proof (cases xs)
    case Nil
    then show ?thesis using Cons.prems by (simp add: split_on_id)
  next
    case (Cons y ys)
    then have "split_on c (x @ c # (y @ concat (map ((#) c) ys))) = x # split_on c (y @ concat (map ((#) c) ys))"
      using Cons.prems by (intro split_on_append) simp
    moreover have "split_on c (c # (y @ concat (map ((#) c) ys))) = [] # xs"
      using Cons.IH Cons.prems Cons by simp
    ultimately show ?thesis using Cons by simp
  qed
qed simp

lemma structural_of_alt: "structural_of ss = concat (map (\<lambda>x. CHR ''/'' # x) (map skeleton ss))"
  by (simp add: structural_of_def comp_def)

lemma structural_of_skeletons:
  assumes "list_all wf_segment ss" and "list_all wf_segment ts"
  shows "structural_of ss = structural_of ts \<longleftrightarrow> map skeleton ss = map skeleton ts"
proof -
  have "split_on CHR ''/'' (structural_of us) = [] # map skeleton us" if "list_all wf_segment us" for us
    unfolding structural_of_alt
    by (rule split_on_slashes) (use that skeleton_no_slash in \<open>auto simp: list_all_iff\<close>)
  from this[OF assms(1)] this[OF assms(2)] show ?thesis
    by (metis list.inject structural_of_alt)
qed

lemma skeleton_eq:
  assumes "wf_segment s" and "wf_segment t" and "skeleton s = skeleton t"
  shows "s = t \<or> (\<exists>m n. s = Dynamic m \<and> t = Dynamic n)"
  using assms by (cases s; cases t) (auto simp: static_char_def ascii_defs)

text \<open>One name per dynamic position: routes with the same structure are the same route.\<close>

lemma named_by_unique:
  assumes "list_all wf_segment ss" "list_all wf_segment ts" "named_by P ss" "named_by P ts"
    and eq: "map skeleton ss = map skeleton ts"
  shows "ss = ts"
proof (rule nth_equalityI)
  show len: "length ss = length ts" using eq map_eq_imp_length_eq by blast
  fix i assume i: "i < length ss"
  have sk: "skeleton (ss ! i) = skeleton (ts ! i)" using eq i len by (metis nth_map)
  have take: "structural_of (take (Suc i) ss) = structural_of (take (Suc i) ts)"
    using eq unfolding structural_of_alt by (simp add: take_map[symmetric])
  have "wf_segment (ss ! i)" "wf_segment (ts ! i)" using assms(1,2) i len by (auto simp: list_all_length)
  from skeleton_eq[OF this sk] show "ss ! i = ts ! i"
    using assms(3,4) i len take unfolding named_by_def by fastforce
qed

lemma segment_text_no_slash: "wf_segment s \<Longrightarrow> \<exists>t. segment_text s = CHR ''/'' # t \<and> CHR ''/'' \<notin> set t"
  using identifier_plain by (cases s) (auto simp: list_all_iff dest: static_char_plain)

lemma path_of_inj:
  assumes "list_all wf_segment ss" and "list_all wf_segment ts" and "path_of ss = path_of ts"
  shows "ss = ts"
proof -
  define body where "body s = tl (segment_text s)" for s
  have seg: "segment_text s = CHR ''/'' # body s \<and> CHR ''/'' \<notin> set (body s) \<and> body s \<noteq> []" if "wf_segment s" for s
    using that segment_text_no_slash[OF that] by (cases s) (auto simp: body_def)
  have "split_on CHR ''/'' (path_of us) = (if us = [] then [[], []] else [] # map body us)"
    if wf: "list_all wf_segment us" for us
  proof (cases "us = []")
    case False
    have "map segment_text us = map (\<lambda>x. CHR ''/'' # x) (map body us)"
      using wf seg by (auto simp: list_all_iff)
    then have "path_of us = concat (map (\<lambda>x. CHR ''/'' # x) (map body us))"
      using False by (simp only: path_of_def if_False)
    moreover have "split_on CHR ''/'' (concat (map (\<lambda>x. CHR ''/'' # x) (map body us))) = [] # map body us"
      by (rule split_on_slashes) (use wf seg in \<open>auto simp: list_all_iff\<close>)
    ultimately show ?thesis using False by simp
  qed (simp add: path_of_def)
  from this[OF assms(1)] this[OF assms(2)] assms(3)
  have eq: "(if ss = [] then [[], []] else [] # map body ss) = (if ts = [] then [[], []] else [] # map body ts)" by simp
  have ne: "[] \<notin> set (map body us)" if "list_all wf_segment us" for us
    using that seg by (fastforce simp: list_all_iff)
  have "map body ss = map body ts"
    using eq ne[OF assms(1)] ne[OF assms(2)] by (cases "ss = []"; cases "ts = []") (auto dest: sym)
  moreover have "s = t" if "body s = body t" "wf_segment s" "wf_segment t" for s t
    using that by (cases s; cases t) (auto simp: body_def static_char_def ascii_defs)
  ultimately show ?thesis using assms(1,2) by (auto intro!: list.inj_map_strong[of ss ts body body] simp: list_all_iff)
qed


section \<open>What loading establishes\<close>

definition seg_inv :: "(string \<times> string) list \<Rightarrow> segment_state \<Rightarrow> bool" where
  "seg_inv P st \<longleftrightarrow> list_all wf_segment (sg_segments st)
     \<and> sg_names st = set (dynamic_names (sg_segments st)) \<and> distinct (dynamic_names (sg_segments st))
     \<and> sg_structural st = structural_of (sg_segments st)
     \<and> bt_wf (sg_prefixes st) \<and> map_of P \<subseteq>\<^sub>m map_of (sg_prefixes st)
     \<and> named_by (sg_prefixes st) (sg_segments st)"

lemma structural_of_snoc [simp]: "structural_of (ss @ [s]) = structural_of ss @ ''/'' @ skeleton s"
  by (simp add: structural_of_def)

lemma dynamic_names_snoc [simp]:
  "dynamic_names (ss @ [Static s]) = dynamic_names ss" "dynamic_names (ss @ [Dynamic n]) = dynamic_names ss @ [n]"
  by (simp_all add: dynamic_names_def List.map_filter_def)

lemma dynamic_names_simps [simp]:
  "dynamic_names [] = []" "dynamic_names (Static s # ss) = dynamic_names ss"
  "dynamic_names (Dynamic n # ss) = n # dynamic_names ss"
  by (simp_all add: dynamic_names_def List.map_filter_def)

lemma named_by_mono: "named_by P ss \<Longrightarrow> map_of P \<subseteq>\<^sub>m map_of Q \<Longrightarrow> named_by Q ss"
  unfolding named_by_def map_le_def by (metis domI)

lemma named_by_snoc:
  "named_by P (ss @ [s]) \<longleftrightarrow> named_by P ss \<and>
     (\<forall>n. s = Dynamic n \<longrightarrow> map_of P (structural_of (ss @ [s])) = Some n)"
  by (auto simp: named_by_def nth_append less_Suc_eq simp del: structural_of_snoc)

lemma segment_step_inv:
  assumes "segment_step file part st = Ok st'" and inv: "seg_inv P st" and "part \<noteq> []"
  shows "seg_inv P st'"
proof (cases "Option.bind (strip_prefix ''['' part) (strip_suffix '']'')")
  case (Some name)
  let ?s = "sg_structural st @ ''/{}''"
  have name: "is_identifier name" "name \<notin> sg_names st"
    and free: "map_of (sg_prefixes st) ?s = None \<or> map_of (sg_prefixes st) ?s = Some name"
    and st': "st' = \<lparr>sg_segments = sg_segments st @ [Dynamic name], sg_names = insert name (sg_names st),
       sg_structural = ?s, sg_prefixes = bt_insert ?s name (sg_prefixes st)\<rparr>"
    using assms(1) Some by (auto simp: segment_step_def Let_def split: if_splits option.splits)
  have le: "map_of (sg_prefixes st) \<subseteq>\<^sub>m map_of (bt_insert ?s name (sg_prefixes st))"
    using inv free by (auto simp: seg_inv_def map_le_def)
  have "named_by (sg_prefixes st') (sg_segments st)"
    using named_by_mono[OF _ le] inv by (simp add: seg_inv_def st')
  then have "named_by (sg_prefixes st') (sg_segments st')"
    using inv by (simp add: st' named_by_snoc seg_inv_def)
  then show ?thesis using inv name le by (auto simp: seg_inv_def st' intro: map_le_trans)
next
  case None
  then show ?thesis
    using assms by (auto simp: segment_step_def seg_inv_def named_by_snoc split: if_splits)
qed

text \<open>What every endpoint of a snapshot satisfies.\<close>

definition wf_endpoint :: "endpoint \<Rightarrow> bool" where
  "wf_endpoint e \<longleftrightarrow> e_method e \<in> set METHODS \<and> list_all wf_segment (e_segments e)
     \<and> distinct (dynamic_names (e_segments e)) \<and> e_path e = path_of (e_segments e)
     \<and> e_statements e \<noteq> [] \<and> (s_returns_rows (last (e_statements e)) \<longrightarrow> e_contract e \<noteq> None)
     \<and> conflict_free (e_parameters e)
     \<and> set (e_parameters e) = (\<Union>s \<in> set (e_statements e). set (s_parameters s))
     \<and> (\<forall>p \<in> set (e_parameters e). p_source p = ''path'' \<longrightarrow> p_fields p \<noteq> [])
     \<and> {hd (p_fields p) | p. p \<in> set (e_parameters e) \<and> p_source p = ''path''} = set (dynamic_names (e_segments e))"

definition route_key :: "endpoint \<Rightarrow> string \<times> string" where
  "route_key e = (e_method e, structural_of (e_segments e))"

definition load_inv :: "load_state \<Rightarrow> bool" where
  "load_inv st \<longleftrightarrow> bt_wf (ld_prefixes st)
     \<and> (\<forall>e \<in> set (ld_endpoints st). wf_endpoint e \<and> named_by (ld_prefixes st) (e_segments e))
     \<and> ld_routes st = route_key ` set (ld_endpoints st) \<and> distinct (map route_key (ld_endpoints st))"

lemma endpoint_parameters_Ok:
  assumes "endpoint_parameters ss = Ok ps"
  shows "conflict_free ps" and "set ps = (\<Union>s \<in> set ss. set (s_parameters s))"
proof -
  have ps: "validate_parameters (concat (map s_parameters ss)) = Ok ()"
    "ps = remdups_adj (sort_key Parameter_path (concat (map s_parameters ss)))"
    using assms unfolding endpoint_parameters_def Let_def and_then_Ok_iff by simp_all
  show "set ps = (\<Union>s \<in> set ss. set (s_parameters s))" unfolding ps(2) by simp
  have "set ps = set (concat (map s_parameters ss))" unfolding ps(2) by simp
  then show "conflict_free ps" using ps(1) unfolding validate_parameters_iff conflict_free_def by (simp only:)
qed

lemma first_fields:
  assumes "list_all2 (\<lambda>p f. first_field p = Ok f) ps fs"
  shows "\<forall>p \<in> set ps. p_fields p \<noteq> []" and "set fs = (hd \<circ> p_fields) ` set ps"
proof -
  have "(\<forall>p \<in> set ps. p_fields p \<noteq> []) \<and> fs = map (hd \<circ> p_fields) ps"
    using assms
  proof (induction rule: list_all2_induct)
    case (Cons p ps f fs)
    then show ?case by (cases "p_fields p") (auto simp: first_field_def)
  qed simp
  then show "\<forall>p \<in> set ps. p_fields p \<noteq> []" "set fs = (hd \<circ> p_fields) ` set ps" by auto
qed

lemma load_sql_Ok:
  assumes "load_sql libs b files file source meth st = Ok st'"
  obtains sg statements parameters referenced contract names where
    "try_fold (segment_step file) (filter (\<lambda>s. s \<noteq> []) (split_on CHR ''/''
        (case rsplit_once CHR ''/'' file of Some (d, _) \<Rightarrow> d | None \<Rightarrow> [])))
        \<lparr>sg_segments = [], sg_names = {}, sg_structural = [], sg_prefixes = ld_prefixes st\<rparr> = Ok sg"
    "(meth, sg_structural sg) \<notin> ld_routes st" "endpoint_parameters statements = Ok parameters"
    "compile (ll_sql libs) source b = Ok statements"
    "list_all2 (\<lambda>p f. first_field p = Ok f) (filter (\<lambda>p. p_source p = ''path'') parameters) referenced"
    "set referenced = sg_names sg" "statements \<noteq> []" "s_returns_rows (last statements) \<longrightarrow> contract \<noteq> None"
    "st' = \<lparr>ld_endpoints = ld_endpoints st @ [\<lparr>e_backend = b, e_method = meth, e_path = path_of (sg_segments sg),
                     e_segments = sg_segments sg, e_statements = statements, e_parameters = parameters,
                     e_contract = contract, e_operation_id = operation_name (lib_camel (ll_response libs)) meth (sg_segments sg)\<rparr>],
                   ld_names = names, ld_routes = insert (meth, sg_structural sg) (ld_routes st),
                   ld_prefixes = sg_prefixes sg\<rparr>"
  using assms unfolding load_sql_def Let_def
  by (auto simp: outcome_simps Option.is_none_def split: if_splits simp del: try_fold.simps)

lemma load_sql_inv:
  assumes "load_sql libs b files file source meth st = Ok st'" and inv: "load_inv st" and "meth \<in> set METHODS"
  shows "load_inv st'"
  using assms(1)
proof (cases rule: load_sql_Ok)
  case (1 sg statements parameters referenced contract names)
  have init: "seg_inv (ld_prefixes st) \<lparr>sg_segments = [], sg_names = {}, sg_structural = [], sg_prefixes = ld_prefixes st\<rparr>"
    using inv by (simp add: seg_inv_def load_inv_def structural_of_def named_by_def)
  have "seg_inv (ld_prefixes st) sg"
    by (rule try_fold_invariant[OF 1(1), of "seg_inv (ld_prefixes st)"]) (auto intro: segment_step_inv init)
  then have sg: "list_all wf_segment (sg_segments sg)" "sg_names sg = set (dynamic_names (sg_segments sg))"
    "distinct (dynamic_names (sg_segments sg))" "sg_structural sg = structural_of (sg_segments sg)"
    "bt_wf (sg_prefixes sg)" "map_of (ld_prefixes st) \<subseteq>\<^sub>m map_of (sg_prefixes sg)"
    "named_by (sg_prefixes sg) (sg_segments sg)"
    by (auto simp: seg_inv_def)
  note ps = endpoint_parameters_Ok[OF 1(3)] and ff = first_fields[OF 1(5)]
  define e where "e = last (ld_endpoints st')"
  have e: "ld_endpoints st' = ld_endpoints st @ [e]" by (simp add: 1(9) e_def)
  have "{hd (p_fields p) | p. p \<in> set parameters \<and> p_source p = ''path''} = set (dynamic_names (sg_segments sg))"
    using ff(2) 1(6) sg(2) by auto
  then have "wf_endpoint e"
    using sg ps ff(1) 1(7,8) assms(3) by (auto simp: 1(9) e_def wf_endpoint_def)
  moreover have "route_key e = (meth, sg_structural sg)" "e_segments e = sg_segments sg"
    by (simp_all add: 1(9) e_def route_key_def sg(4))
  moreover have "named_by (ld_prefixes st') (e_segments e')" if "e' \<in> set (ld_endpoints st)" for e'
    using inv that named_by_mono[OF _ sg(6)] by (simp add: load_inv_def 1(9))
  moreover have "ld_routes st' = insert (meth, sg_structural sg) (ld_routes st)" "ld_prefixes st' = sg_prefixes sg"
    by (simp_all add: 1(9))
  ultimately show ?thesis using inv 1(2) sg(5,7) by (auto simp: load_inv_def e)
qed

lemma load_file_inv:
  assumes "load_file libs b files f st = Ok st'" and "load_inv st"
  shows "load_inv st'"
  using assms load_sql_inv
  by (cases f) (auto simp: load_file_def Let_def outcome_simps split: option.splits if_splits)

definition snapshot_inv :: "(string \<times> string) list \<Rightarrow> snapshot \<Rightarrow> bool" where
  "snapshot_inv P s \<longleftrightarrow> (\<forall>e \<in> set (sn_endpoints s). wf_endpoint e \<and> named_by P (e_segments e))
     \<and> distinct (map route_key (sn_endpoints s))
     \<and> sorted (map (\<lambda>e. map segment_kind (e_segments e)) (sn_endpoints s))"

lemma from_files_inv:
  assumes "from_files libs files b = Ok s"
  obtains P where "snapshot_inv P s"
proof -
  obtain st where st: "try_fold (load_file libs b files) files
       \<lparr>ld_endpoints = [], ld_names = {}, ld_routes = {}, ld_prefixes = []\<rparr> = Ok st"
    and s: "sn_endpoints s = sort_key (\<lambda>e. map segment_kind (e_segments e)) (ld_endpoints st)"
    using assms by (auto simp: from_files_def Let_def outcome_simps)
  have "load_inv \<lparr>ld_endpoints = [], ld_names = {}, ld_routes = {}, ld_prefixes = []\<rparr>"
    by (simp add: load_inv_def)
  then have "load_inv st" by (rule try_fold_invariant[OF st, of load_inv]) (rule load_file_inv)
  moreover have "distinct (map route_key (sn_endpoints s))"
    using calculation by (simp add: s load_inv_def distinct_map)
  ultimately have "snapshot_inv (ld_prefixes st) s"
    by (simp add: snapshot_inv_def s load_inv_def)
  then show ?thesis by (rule that)
qed


section \<open>Resolution\<close>

definition segment_matches :: "segment \<Rightarrow> string \<Rightarrow> bool" where
  "segment_matches s v \<longleftrightarrow> v \<noteq> [] \<and> CHR ''/'' \<notin> set v \<and> (case s of Static t \<Rightarrow> t = v | Dynamic _ \<Rightarrow> True)"

definition matches :: "endpoint \<Rightarrow> string list \<Rightarrow> bool" where
  "matches e vs \<longleftrightarrow> list_all2 segment_matches (e_segments e) vs"

definition bindings :: "segment list \<Rightarrow> string list \<Rightarrow> (string \<times> string) list" where
  "bindings ss vs = List.map_filter (\<lambda>(s, v). map_option (\<lambda>n. (n, v)) (dynamic_name s)) (zip ss vs)"

lemma bindings_simps [simp]:
  "bindings [] vs = []" "bindings (Static t # ss) (v # vs) = bindings ss vs"
  "bindings (Dynamic n # ss) (v # vs) = (n, v) # bindings ss vs"
  by (simp_all add: bindings_def List.map_filter_def)

lemma bindings_names: "length ss = length vs \<Longrightarrow> map fst (bindings ss vs) = dynamic_names ss"
proof (induction ss vs rule: list_induct2)
  case (Cons s ss v vs)
  then show ?case by (cases s) auto
qed simp

lemma bindings_values: "(n, v) \<in> set (bindings ss vs) \<Longrightarrow> v \<in> set vs"
  by (auto simp: bindings_def List.map_filter_def dest: set_zip_rightD)

lemma capture_values_eq:
  "length ss = length vs \<Longrightarrow> capture_values ss vs r =
    (if list_all2 segment_matches ss vs then Some (fold (\<lambda>(k, v). bt_insert k v) (bindings ss vs) r) else None)"
proof (induction ss vs arbitrary: r rule: list_induct2)
  case (Cons s ss v vs)
  then show ?case by (cases s) (auto simp: segment_matches_def)
qed simp

lemma captures_eq:
  "captures e vs = (if matches e vs then Some (bt_of_list (bindings (e_segments e) vs)) else None)"
  using list_all2_lengthD by (auto simp: captures_def matches_def capture_values_eq bt_of_list_def)

lemma captures_None_iff: "captures e vs = None \<longleftrightarrow> \<not> matches e vs"
  by (simp add: captures_eq)

lemma captures_lookup:
  assumes "wf_endpoint e" and "captures e vs = Some ps"
  shows "map_of ps = map_of (bindings (e_segments e) vs)" and "fst ` set (bindings (e_segments e) vs) = set (dynamic_names (e_segments e))"
proof -
  have m: "matches e vs" "ps = bt_of_list (bindings (e_segments e) vs)"
    using assms(2) by (auto simp: captures_eq split: if_splits)
  then have names: "map fst (bindings (e_segments e) vs) = dynamic_names (e_segments e)"
    using bindings_names list_all2_lengthD unfolding matches_def by blast
  then have "distinct (map fst (bindings (e_segments e) vs))" using assms(1) by (simp add: wf_endpoint_def)
  then show "map_of ps = map_of (bindings (e_segments e) vs)" by (simp add: m(2) map_of_bt_of_list_distinct)
  show "fst ` set (bindings (e_segments e) vs) = set (dynamic_names (e_segments e))"
    using names by (metis set_map)
qed

abbreviation kinds :: "endpoint \<Rightarrow> nat list" where
  "kinds e \<equiv> map segment_kind (e_segments e)"

lemma find_sorted:
  assumes "find P xs = Some x" and "sorted (map f xs)" and "y \<in> set xs" and "P y"
  shows "f x \<le> f y"
  using assms by (induction xs) (auto split: if_splits)

lemma find_SomeD: "find P xs = Some x \<Longrightarrow> x \<in> set xs \<and> P x"
  by (induction xs) (auto split: if_splits)

lemma segment_kind_skeleton:
  "segment_matches s v \<Longrightarrow> segment_matches t v \<Longrightarrow> segment_kind s = segment_kind t \<Longrightarrow> skeleton s = skeleton t"
  by (cases s; cases t) (simp_all add: segment_matches_def segment_kind_def)

lemma segment_kind_less:
  "segment_kind s < segment_kind t \<Longrightarrow> (\<exists>u. s = Static u) \<and> (\<exists>n. t = Dynamic n)"
  by (cases s; cases t) (simp_all add: segment_kind_def)

text \<open>Two endpoints of the same kinds that match the same request are on the same route.\<close>

lemma same_kinds_same_route:
  assumes inv: "snapshot_inv P s" and e: "e \<in> set (sn_endpoints s)" "e' \<in> set (sn_endpoints s)"
    and m: "matches e vs" "matches e' vs" and k: "kinds e = kinds e'"
  shows "e_segments e = e_segments e'"
proof -
  have "map skeleton (e_segments e) = map skeleton (e_segments e')"
  proof (rule nth_equalityI)
    show len: "length (map skeleton (e_segments e)) = length (map skeleton (e_segments e'))"
      using k map_eq_imp_length_eq by fastforce
    fix i assume i: "i < length (map skeleton (e_segments e))"
    have kinds: "segment_kind (e_segments e ! i) = segment_kind (e_segments e' ! i)"
      using arg_cong[OF k, of "\<lambda>xs. xs ! i"] i len by simp
    have "segment_matches (e_segments e ! i) (vs ! i)" "segment_matches (e_segments e' ! i) (vs ! i)"
      using m i len by (auto simp: matches_def list_all2_conv_all_nth)
    then have "skeleton (e_segments e ! i) = skeleton (e_segments e' ! i)"
      using kinds by (rule segment_kind_skeleton)
    then show "map skeleton (e_segments e) ! i = map skeleton (e_segments e') ! i" using i len by simp
  qed
  moreover have "list_all wf_segment (e_segments e)" "list_all wf_segment (e_segments e')"
    "named_by P (e_segments e)" "named_by P (e_segments e')"
    using inv e by (simp_all add: snapshot_inv_def wf_endpoint_def)
  ultimately show ?thesis by (intro named_by_unique)
qed

text \<open>The endpoint chosen by \<open>resolve\<close> and the first match are on one path.\<close>

lemma resolve_cases:
  assumes inv: "snapshot_inv P s"
  obtains (not_found) "resolve s meth vs = Err route_not_found" "\<forall>e \<in> set (sn_endpoints s). \<not> matches e vs"
  | (not_allowed) e where "resolve s meth vs = Err (method_not_allowed s (e_path e))" "e \<in> set (sn_endpoints s)" "matches e vs"
      "\<forall>e' \<in> set (sn_endpoints s). matches e' vs \<longrightarrow> kinds e \<le> kinds e'"
      "\<forall>e' \<in> set (sn_endpoints s). e_path e' = e_path e \<longrightarrow> \<not> eq_ignore_ascii_case (e_method e') meth"
  | (found) e ps where "resolve s meth vs = Ok \<lparr>me_endpoint = e, me_path_parameters = ps\<rparr>" "captures e vs = Some ps"
      "e \<in> set (sn_endpoints s)" "matches e vs" "eq_ignore_ascii_case (e_method e) meth"
      "\<forall>e' \<in> set (sn_endpoints s). matches e' vs \<longrightarrow> kinds e \<le> kinds e'"
proof (cases "find (\<lambda>e. captures e vs \<noteq> None) (sn_endpoints s)")
  case None
  then have "resolve s meth vs = Err route_not_found" by (simp add: resolve_def del: not_None_eq)
  moreover have "\<forall>e \<in> set (sn_endpoints s). \<not> matches e vs"
    using None unfolding find_None_iff captures_None_iff by blast
  ultimately show ?thesis by (rule not_found)
next
  case (Some f)
  have f: "f \<in> set (sn_endpoints s)" "matches f vs"
    using find_SomeD[OF Some] unfolding captures_None_iff by auto
  have min: "\<forall>e' \<in> set (sn_endpoints s). matches e' vs \<longrightarrow> kinds f \<le> kinds e'"
    using find_sorted[OF Some, of kinds] inv unfolding snapshot_inv_def captures_None_iff by blast
  show ?thesis
  proof (cases "find (\<lambda>e. e_path e = e_path f \<and> eq_ignore_ascii_case (e_method e) meth) (sn_endpoints s)")
    case None
    then have "resolve s meth vs = Err (method_not_allowed s (e_path f))" by (simp add: resolve_def Some del: not_None_eq)
    moreover have "\<forall>e' \<in> set (sn_endpoints s). e_path e' = e_path f \<longrightarrow> \<not> eq_ignore_ascii_case (e_method e') meth"
      using None unfolding find_None_iff by blast
    ultimately show ?thesis using f min by (intro not_allowed)
  next
    case found_e: (Some e)
    have e: "e \<in> set (sn_endpoints s)" "e_path e = e_path f" "eq_ignore_ascii_case (e_method e) meth"
      using find_SomeD[OF found_e] by auto
    have segs: "e_segments e = e_segments f"
      using path_of_inj[of "e_segments e" "e_segments f"] inv e(1,2) f(1) by (auto simp: snapshot_inv_def wf_endpoint_def)
    then have m: "matches e vs" using f(2) by (simp add: matches_def)
    then obtain ps where ps: "captures e vs = Some ps" by (simp add: captures_eq)
    have "resolve s meth vs = Ok \<lparr>me_endpoint = e, me_path_parameters = ps\<rparr>"
      by (simp add: resolve_def Some found_e ps del: not_None_eq)
    moreover have "\<forall>e' \<in> set (sn_endpoints s). matches e' vs \<longrightarrow> kinds e \<le> kinds e'" using min by (simp add: segs)
    ultimately show ?thesis using ps e(1) m e(3) by (intro found)
  qed
qed

text \<open>
  C36: routing is exact and never panics. For a loaded snapshot, a request is answered with 404
  only when no route matches; with 405 only when the best matching route exists and none of
  its endpoints has the method; and otherwise with an endpoint of the best matching route whose
  method is the requested one (ASCII case ignored).
\<close>

theorem resolve_exact:
  assumes "from_files libs files b = Ok s"
  shows "(resolve s meth vs = Err route_not_found \<and> (\<forall>e \<in> set (sn_endpoints s). \<not> matches e vs))
    \<or> (\<exists>e \<in> set (sn_endpoints s). matches e vs \<and> (\<forall>e' \<in> set (sn_endpoints s). matches e' vs \<longrightarrow> kinds e \<le> kinds e')
        \<and> (resolve s meth vs = Err (method_not_allowed s (e_path e))
             \<and> (\<forall>e' \<in> set (sn_endpoints s). e_path e' = e_path e \<longrightarrow> \<not> eq_ignore_ascii_case (e_method e') meth)
           \<or> (\<exists>ps. resolve s meth vs = Ok \<lparr>me_endpoint = e, me_path_parameters = ps\<rparr>
             \<and> eq_ignore_ascii_case (e_method e) meth)))"
proof (rule from_files_inv[OF assms])
  fix P assume "snapshot_inv P s"
  then show ?thesis by (cases rule: resolve_cases[of P s meth vs]) blast+
qed

text \<open>a static segment beats a dynamic one, and the choice does not depend on the order of
  endpoints: every other endpoint that matches the request is either on the very same path or
  its route is dynamic at the first place where the kinds of the two routes differ.
\<close>

theorem resolve_prefers_static:
  assumes "from_files libs files b = Ok s" and "resolve s meth vs = Ok m"
    and "e' \<in> set (sn_endpoints s)" and "matches e' vs"
  shows "e_path e' = e_path (me_endpoint m) \<or>
    (\<exists>i. take i (kinds (me_endpoint m)) = take i (kinds e') \<and> i < length vs
       \<and> (\<exists>t. e_segments (me_endpoint m) ! i = Static t) \<and> (\<exists>n. e_segments e' ! i = Dynamic n))"
proof (rule from_files_inv[OF assms(1)])
  fix P assume inv: "snapshot_inv P s"
  from inv show ?thesis
  proof (cases rule: resolve_cases[of P s meth vs])
    case (found e ps)
    have e: "me_endpoint m = e" using found(1) assms(2) by auto
    have len: "length (kinds e) = length vs" "length (kinds e') = length vs"
      using found(4) assms(4) list_all2_lengthD by (auto simp: matches_def)
    show ?thesis
    proof (cases "kinds e = kinds e'")
      case True
      then have "e_segments e = e_segments e'"
        using same_kinds_same_route[OF inv found(3) assms(3) found(4) assms(4)] by blast
      then show ?thesis using inv found(3) assms(3) by (auto simp: e snapshot_inv_def wf_endpoint_def)
    next
      case False
      then have "kinds e < kinds e'" using found(6) assms(3,4) by fastforce
      then obtain i where i: "i < length vs" "take i (kinds e) = take i (kinds e')" "kinds e ! i < kinds e' ! i"
        using len by (auto simp: list_less_def lexord_take_index_conv)
      have "segment_kind (e_segments e ! i) < segment_kind (e_segments e' ! i)" using i len by simp
      then have "(\<exists>t. e_segments e ! i = Static t) \<and> (\<exists>n. e_segments e' ! i = Dynamic n)"
        by (rule segment_kind_less)
      with i show ?thesis unfolding e by blast
    qed
  qed (use assms(2) in auto)
qed

text \<open>a resolved request supplies every path parameter of its endpoint: for each typed
  reference \<open>path.x\<close> of the endpoint's statements, the captured values hold a nonempty text
  without a slash under \<open>x\<close>, namely the request segment at the place of \<open>[x]\<close>.
\<close>

theorem resolve_binds_path_parameters:
  assumes "from_files libs files b = Ok s" and "resolve s meth vs = Ok m"
    and "p \<in> set (e_parameters (me_endpoint m))" and "p_source p = ''path''"
  shows "\<exists>i v. map_of (me_path_parameters m) (hd (p_fields p)) = Some v \<and> i < length vs \<and> v = vs ! i
    \<and> e_segments (me_endpoint m) ! i = Dynamic (hd (p_fields p)) \<and> v \<noteq> [] \<and> CHR ''/'' \<notin> set v"
proof (rule from_files_inv[OF assms(1)])
  fix P assume inv: "snapshot_inv P s"
  from inv show ?thesis
  proof (cases rule: resolve_cases[of P s meth vs])
    case (found e ps)
    have m: "me_endpoint m = e" "me_path_parameters m = ps" using found(1) assms(2) by auto
    have wf: "wf_endpoint e" using inv found(3) by (simp add: snapshot_inv_def)
    let ?n = "hd (p_fields p)"
    have "?n \<in> set (dynamic_names (e_segments e))"
      using wf assms(3,4) by (auto simp: m wf_endpoint_def)
    then have "map_of ps ?n \<noteq> None"
      using captures_lookup[OF wf found(2)] by (metis map_of_eq_None_iff)
    then obtain v where v: "map_of ps ?n = Some v" by blast
    then have "(?n, v) \<in> set (bindings (e_segments e) vs)"
      using captures_lookup(1)[OF wf found(2)] by (simp add: map_of_SomeD)
    then obtain sg where "(sg, v) \<in> set (zip (e_segments e) vs)" "dynamic_name sg = Some ?n"
      by (auto simp: bindings_def List.map_filter_def split: option.splits)
    moreover from this have "sg = Dynamic ?n" by (cases sg) auto
    ultimately obtain i where "i < length vs" "e_segments e ! i = Dynamic ?n" "vs ! i = v"
      by (auto simp: in_set_zip)
    moreover have "segment_matches (e_segments e ! i) (vs ! i)" if "i < length vs" for i
      using found(4) that by (simp add: matches_def list_all2_conv_all_nth)
    ultimately show ?thesis using v by (auto simp: m segment_matches_def)
  qed (use assms(2) in auto)
qed


section \<open>The version digest\<close>

lemma mod_bytes:
  "\<forall>i < k. n div 256 ^ i mod 256 = m div 256 ^ i mod (256 :: nat) \<Longrightarrow> n mod 256 ^ k = m mod 256 ^ k"
proof (induction k)
  case (Suc k)
  have "x mod 256 ^ Suc k = 256 ^ k * (x div 256 ^ k mod 256) + x mod 256 ^ k" for x :: nat
    using mod_mult2_eq[of x "256 ^ k" 256] by (simp add: mult.commute)
  then show ?case using Suc by simp
qed simp

lemma be_bytes_inj:
  assumes "be_bytes n = be_bytes m" and "n < 2 ^ 64" and "m < 2 ^ 64"
  shows "n = m"
proof -
  have "n div 256 ^ i mod 256 = m div 256 ^ i mod 256" if "i < 8" for i
  proof -
    have nth: "be_bytes x ! (7 - i) = char_of (x div 256 ^ i)" for x
    proof -
      have "[0..<8] ! (7 - i) = 7 - i" by (simp add: nth_upt)
      then show ?thesis using that by (simp add: be_bytes_def)
    qed
    have "(char_of (n div 256 ^ i) :: char) = char_of (m div 256 ^ i)"
      using nth[of n] nth[of m] assms(1) by simp
    then have "of_char (char_of (n div 256 ^ i) :: char) = (of_char (char_of (m div 256 ^ i) :: char) :: nat)" by simp
    then show ?thesis by (simp add: of_char_of)
  qed
  then have "n mod 256 ^ 8 = m mod 256 ^ 8" by (intro mod_bytes) blast
  moreover have "(256 :: nat) ^ 8 = 2 ^ 64" by (simp add: power_mult[of 2 8 8, simplified])
  ultimately show ?thesis using assms(2,3) by simp
qed


lemma be_bytes_append:
  assumes "be_bytes n @ xs = be_bytes m @ ys" and "n < 2 ^ 64" and "m < 2 ^ 64"
  shows "n = m" and "xs = ys"
proof -
  have "be_bytes n = be_bytes m \<and> xs = ys"
    using assms(1) by (simp add: be_bytes_def)
  then show "n = m" "xs = ys" using be_bytes_inj assms(2,3) by auto
qed

definition framed :: "string \<Rightarrow> string" where
  "framed s = be_bytes (length s) @ s"

lemma framed_append:
  assumes "framed s @ xs = framed t @ ys" and "length s < 2 ^ 64" and "length t < 2 ^ 64"
  shows "s = t \<and> xs = ys"
proof -
  have "be_bytes (length s) @ (s @ xs) = be_bytes (length t) @ (t @ ys)" using assms(1) by (simp add: framed_def)
  from be_bytes_append[OF this assms(2,3)] show ?thesis by simp
qed

lemma framed_not_Nil: "framed s \<noteq> []"
  by (simp add: framed_def be_bytes_def)

definition files_fit :: "(string \<times> string) list \<Rightarrow> bool" where
  "files_fit files \<longleftrightarrow> (\<forall>(p, c) \<in> set files. length p < 2 ^ 64 \<and> length c < 2 ^ 64)"

lemma digest_files_inj:
  "concat (map (\<lambda>(p, c). framed p @ framed c) fs) = concat (map (\<lambda>(p, c). framed p @ framed c) gs) \<Longrightarrow>
   files_fit fs \<Longrightarrow> files_fit gs \<Longrightarrow> fs = gs"
proof (induction fs arbitrary: gs)
  case Nil
  then show ?case by (cases gs) (auto simp: framed_not_Nil)
next
  case (Cons f fs)
  obtain p c where f: "f = (p, c)" by force
  obtain q d gs' where gs: "gs = (q, d) # gs'"
    using Cons.prems(1) by (cases gs) (auto simp: f framed_not_Nil)
  let ?r = "\<lambda>fs. concat (map (\<lambda>(p, c). framed p @ framed c) fs)"
  have fit: "length p < 2 ^ 64" "length c < 2 ^ 64" "length q < 2 ^ 64" "length d < 2 ^ 64" "files_fit fs" "files_fit gs'"
    using Cons.prems(2,3) by (auto simp: files_fit_def f gs)
  have "framed p @ (framed c @ ?r fs) = framed q @ (framed d @ ?r gs')" using Cons.prems(1) by (simp add: f gs)
  from framed_append[OF this fit(1,3)] have "p = q" "framed c @ ?r fs = framed d @ ?r gs'" by auto
  moreover from framed_append[OF this(2) fit(2,4)] have "c = d" "?r fs = ?r gs'" by auto
  ultimately show ?case using Cons.IH[of gs'] fit by (simp add: f gs)
qed

text \<open>the hashed text identifies the interface: two trees with the same digest input have the
  same backend and the same files with the same contents (all lengths below \<open>2 ^ 64\<close>, as in
  any address space), so versions collide only if SHA-256 does.
\<close>

theorem digest_input_injective:
  assumes "digest_input b files = digest_input b' files'" and "files_fit files" and "files_fit files'"
  shows "b = b' \<and> files = files'"
proof -
  have eq: "digest_input b fs = (case b of Turso \<Rightarrow> ''turso'' | Postgres \<Rightarrow> ''postgres'')
      @ concat (map (\<lambda>(p, c). framed p @ framed c) fs)" for b fs
    by (simp add: digest_input_def framed_def)
  have "b = b'" using assms(1) unfolding eq by (cases b; cases b') auto
  then have "concat (map (\<lambda>(p, c). framed p @ framed c) files) = concat (map (\<lambda>(p, c). framed p @ framed c) files')"
    using assms(1) unfolding eq by simp
  from digest_files_inj[OF this assms(2,3)] \<open>b = b'\<close> show ?thesis by blast
qed

theorem digest_input_injective_witness:
  "digest_input Turso [(''get.sql'', ''A'')] \<noteq> digest_input Turso [(''get.sql'', ''B'')]"
  using digest_input_injective[of Turso "[(''get.sql'', ''A'')]" Turso "[(''get.sql'', ''B'')]"]
  by (auto simp: files_fit_def)


section \<open>The request body of the document\<close>

text \<open>A body schema in which a path can be inserted: no value where the path needs an object.\<close>

primrec insertable :: "string list \<Rightarrow> json \<Rightarrow> bool" where
  "insertable [] s = False"
| "insertable (n # rest) s = (\<exists>m req props. s = JObject m \<and> bt_wf m \<and> map_of m ''required'' = Some (JArray req)
     \<and> map_of m ''properties'' = Some (JObject props) \<and> bt_wf props
     \<and> (rest \<noteq> [] \<longrightarrow> (\<forall>child. map_of props n = Some child \<longrightarrow> insertable rest child)))"

lemma empty_body_object:
  "empty_body = JObject [(''properties'', JObject []), (''required'', JArray []), (''type'', JString ''object'')]"
  by (simp add: empty_body_def json_obj_def bt_of_list_def)

lemma insertable_empty: "p \<noteq> [] \<Longrightarrow> insertable p empty_body"
  by (cases p) (auto simp: empty_body_object)

lemma insert_body_step:
  assumes "s = JObject m" "bt_wf m" "map_of m ''required'' = Some (JArray req)"
    "map_of m ''properties'' = Some (JObject props)" "bt_wf props"
  shows "insert_body [n] leaf s = Ok (JObject (bt_insert ''properties'' (JObject (bt_insert n leaf props))
      (bt_insert ''required'' (JArray (if JString n \<in> set req then req else req @ [JString n])) m)))"
    and "rest \<noteq> [] \<Longrightarrow> insert_body (n # rest) leaf s =
      map_ok (\<lambda>child. JObject (bt_insert ''properties'' (JObject (bt_insert n child props))
        (bt_insert ''required'' (JArray (if JString n \<in> set req then req else req @ [JString n])) m)))
      (insert_body rest leaf (case map_of props n of Some child \<Rightarrow> child | None \<Rightarrow> empty_body))"
proof -
  let ?m = "bt_insert ''required'' (JArray (if JString n \<in> set req then req else req @ [JString n])) m"
  have r: "json_index_mut ''required'' (require_name n) s = Ok (JObject ?m)"
    using assms by (simp add: json_index_mut_def require_name_def)
  have p: "map_of ?m ''properties'' = Some (JObject props)" using assms by simp
  show "insert_body [n] leaf s = Ok (JObject (bt_insert ''properties'' (JObject (bt_insert n leaf props)) ?m))"
    using r p by (simp add: json_index_mut_def)
  show "insert_body (n # rest) leaf s =
      map_ok (\<lambda>child. JObject (bt_insert ''properties'' (JObject (bt_insert n child props)) ?m))
      (insert_body rest leaf (case map_of props n of Some child \<Rightarrow> child | None \<Rightarrow> empty_body))" if "rest \<noteq> []"
    using r p that
    by (cases "insert_body rest leaf (case map_of props n of Some child \<Rightarrow> child | None \<Rightarrow> empty_body)")
      (simp_all add: json_index_mut_def)
qed

declare insert_body.simps(2) [simp del]

lemma insert_body_ok: "insertable p s \<Longrightarrow> \<exists>s'. insert_body p leaf s = Ok s'"
proof (induction p arbitrary: s)
  case (Cons n rest)
  then obtain m req props where s: "s = JObject m" "bt_wf m" "map_of m ''required'' = Some (JArray req)"
    "map_of m ''properties'' = Some (JObject props)" "bt_wf props"
    and c: "rest \<noteq> [] \<longrightarrow> (\<forall>child. map_of props n = Some child \<longrightarrow> insertable rest child)"
    by auto
  show ?case
  proof (cases "rest = []")
    case True
    then show ?thesis using insert_body_step(1)[OF s] by blast
  next
    case False
    have "insertable rest (case map_of props n of Some child \<Rightarrow> child | None \<Rightarrow> empty_body)"
      using c False insertable_empty by (auto split: option.splits)
    from Cons.IH[OF this] show ?thesis using insert_body_step(2)[OF s False] by auto
  qed
qed simp

lemma insert_body_keeps:
  "insert_body q leaf s = Ok s' \<Longrightarrow> insertable q s \<Longrightarrow> insertable p s \<Longrightarrow> (prefix q p \<longrightarrow> q = p) \<Longrightarrow> insertable p s'"
proof (induction q arbitrary: p s s')
  case (Cons n rest)
  from Cons.prems(2) obtain m req props where s: "s = JObject m" "bt_wf m" "map_of m ''required'' = Some (JArray req)"
    "map_of m ''properties'' = Some (JObject props)" "bt_wf props"
    and c: "rest \<noteq> [] \<longrightarrow> (\<forall>child. map_of props n = Some child \<longrightarrow> insertable rest child)"
    by auto
  obtain k tail where p: "p = k # tail" using Cons.prems(3) by (cases p) auto
  have tail: "tail \<noteq> [] \<longrightarrow> (\<forall>child. map_of props k = Some child \<longrightarrow> insertable tail child)"
    using Cons.prems(3) s by (auto simp: p)
  show ?case
  proof (cases "rest = []")
    case True
    have s': "s' = JObject (bt_insert ''properties'' (JObject (bt_insert n leaf props))
      (bt_insert ''required'' (JArray (if JString n \<in> set req then req else req @ [JString n])) m))"
      using Cons.prems(1) True insert_body_step(1)[OF s] by simp
    show ?thesis using s tail Cons.prems(4) True by (auto simp: p s')
  next
    case False
    let ?child = "case map_of props n of Some child \<Rightarrow> child | None \<Rightarrow> empty_body"
    obtain child where child: "insert_body rest leaf ?child = Ok child"
      and s': "s' = JObject (bt_insert ''properties'' (JObject (bt_insert n child props))
      (bt_insert ''required'' (JArray (if JString n \<in> set req then req else req @ [JString n])) m))"
      using Cons.prems(1) insert_body_step(2)[OF s False] by (auto simp: outcome_simps)
    have "insertable tail child" if "k = n" "tail \<noteq> []"
    proof (rule Cons.IH[OF child])
      show "insertable rest ?child" using c False insertable_empty by (auto split: option.splits)
      show "insertable tail ?child" using tail that insertable_empty by (auto split: option.splits)
      show "prefix rest tail \<longrightarrow> rest = tail" using Cons.prems(4) that by (simp add: p)
    qed
    then show ?thesis using s tail by (auto simp: p s')
  qed
qed simp

lemma openapi_parameters_Ok:
  assumes "conflict_free (ps @ qs)" and "\<forall>p \<in> set (ps @ qs). p_fields p \<noteq> []"
    and "\<forall>q \<in> set qs. p_source q = ''body'' \<longrightarrow> insertable (p_fields q) body"
  shows "\<exists>r. try_fold openapi_parameter qs (out, body) = Ok r"
  using assms
proof (induction qs arbitrary: ps out body)
  case (Cons q qs)
  have q: "p_fields q \<noteq> []" using Cons.prems(2) by simp
  show ?case
  proof (cases "p_source q = ''body''")
    case True
    have iq: "insertable (p_fields q) body" using Cons.prems(3) True by simp
    then obtain body' where body': "insert_body (p_fields q) (Type_schema (p_ty q)) body = Ok body'"
      using insert_body_ok by blast
    have "insertable (p_fields r) body'" if "r \<in> set qs" "p_source r = ''body''" for r
    proof (rule insert_body_keeps[OF body' iq])
      show "insertable (p_fields r) body" using Cons.prems(3) that by simp
      show "prefix (p_fields q) (p_fields r) \<longrightarrow> p_fields q = p_fields r"
        using Cons.prems(1) that True unfolding conflict_free_def by auto
    qed
    then show ?thesis using Cons.IH[of "ps @ [q]" body' out] Cons.prems(1,2) True body'
      by (simp add: openapi_parameter_def)
  next
    case False
    then obtain f where "first_field q = Ok f" using q by (cases "p_fields q") (auto simp: first_field_def)
    then show ?thesis using Cons.IH[of "ps @ [q]" body] Cons.prems False by (simp add: openapi_parameter_def)
  qed
qed simp

text \<open>documenting the inputs of an endpoint cannot panic: for the conflict-free parameters of
  an accepted interface, nesting the body fields into one object schema always succeeds, since
  no field is both a value and a parent.
\<close>

theorem openapi_parameters_total:
  assumes "validate_parameters ps = Ok ()" and "\<forall>p \<in> set ps. wf_parameter p"
  shows "\<exists>parameters body. try_fold openapi_parameter ps ([], empty_body) = Ok (parameters, body)"
proof -
  have ne: "\<forall>p \<in> set ps. p_fields p \<noteq> []" using assms(2) by (auto simp: wf_parameter_def)
  have "conflict_free ps" using assms(1) by (simp add: validate_parameters_iff)
  then show ?thesis using openapi_parameters_Ok[of "[]" ps empty_body "[]"] ne insertable_empty by auto
qed

theorem openapi_parameters_total_witness:
  "\<exists>parameters body. try_fold openapi_parameter [example_parameter] ([], empty_body) = Ok (parameters, body)"
proof (rule openapi_parameters_total)
  show "validate_parameters [example_parameter] = Ok ()" by code_simp
  show "\<forall>p \<in> set [example_parameter]. wf_parameter p"
    using Parameter_parse_sound[OF example_parse] by simp
qed


section \<open>A loaded interface\<close>

definition demo_sql :: sql_libs where
  "demo_sql = \<lparr>
     lib_tokenize = (\<lambda>_ s. Ok (if starts_with s ''$'' then [Placeholder s] else [Other_token s])),
     lib_parse_statements = (\<lambda>_ ts. Ok [\<lparr>ast_kind = Delete False,
       ast_placeholders = (case ts of [Placeholder p] \<Rightarrow> [p] | _ \<Rightarrow> [])\<rparr>])\<rparr>"

definition demo_response :: response_libs where
  "demo_response = \<lparr>lib_decode = Some, lib_encode = id, lib_pointer = (\<lambda>_ _. None), lib_yaml = (\<lambda>_. Inl []),
     lib_validator = (\<lambda>_. Inl []), lib_json = (\<lambda>_. None), lib_camel = id\<rparr>"

definition demo_libs :: loader_libs where
  "demo_libs = \<lparr>ll_response = demo_response, ll_sql = demo_sql, ll_sha256 = id, ll_pkg_version = ''0''\<rparr>"

definition demo_files :: "(string \<times> string) list" where
  "demo_files = [(''[id]/delete.sql'', ''${path.id:int64}''), (''new/get.sql'', ''A'')]"

definition demo_loaded :: "load_state result" where
  "demo_loaded = try_fold (load_file demo_libs Turso demo_files) demo_files
    \<lparr>ld_endpoints = [], ld_names = {}, ld_routes = {}, ld_prefixes = []\<rparr>"

definition demo_sorted :: "load_state \<Rightarrow> endpoint list" where
  "demo_sorted st = sort_key (\<lambda>e. map segment_kind (e_segments e)) (ld_endpoints st)"

definition demo_id :: parameter where
  "demo_id = \<lparr>p_source = ''path'', p_fields = [''id''], p_ty = Int64_T\<rparr>"

lemma demo_endpoints:
  "map_ok (\<lambda>st. map (\<lambda>e. (e_method e, e_path e, e_segments e, e_parameters e)) (demo_sorted st)) demo_loaded =
   Ok [(''get'', ''/new'', [Static ''new''], []), (''delete'', ''/{id}'', [Dynamic ''id''], [demo_id])]"
  by code_simp

lemma demo_openapi: "is_ok (and_then demo_loaded (\<lambda>st. build_openapi demo_libs (demo_sorted st)))"
  by code_simp

lemma demo_methods:
  "eq_ignore_ascii_case ''get'' ''GET''" "eq_ignore_ascii_case ''delete'' ''DELETE''" "\<not> eq_ignore_ascii_case ''get'' ''DELETE''"
  by code_simp+

lemma demo_snapshot:
  obtains s e e' where "from_files demo_libs demo_files Turso = Ok s" "sn_endpoints s = [e, e']"
    "e_method e = ''get''" "e_path e = ''/new''" "e_segments e = [Static ''new'']"
    "e_method e' = ''delete''" "e_path e' = ''/{id}''" "e_segments e' = [Dynamic ''id'']" "e_parameters e' = [demo_id]"
proof -
  obtain st where st: "demo_loaded = Ok st"
    and es: "map (\<lambda>e. (e_method e, e_path e, e_segments e, e_parameters e)) (demo_sorted st) =
      [(''get'', ''/new'', [Static ''new''], []), (''delete'', ''/{id}'', [Dynamic ''id''], [demo_id])]"
    using demo_endpoints by (auto simp: outcome_simps)
  obtain doc where doc: "build_openapi demo_libs (demo_sorted st) = Ok doc"
    using demo_openapi unfolding st is_ok_iff by auto
  obtain e e' where "demo_sorted st = [e, e']" using es by (auto simp: map_eq_Cons_conv)
  then show ?thesis
    using that[of "\<lparr>sn_endpoints = demo_sorted st, sn_openapi = doc,
        sn_version = ll_sha256 demo_libs (digest_input Turso demo_files)\<rparr>" e e'] st doc es
    by (simp add: from_files_def demo_loaded_def demo_sorted_def)
qed

theorem resolve_exact_witness:
  "\<exists>s. from_files demo_libs demo_files Turso = Ok s \<and> resolve s ''PUT'' [''new''] \<noteq> Panic"
proof (rule demo_snapshot)
  fix s e e' assume s: "from_files demo_libs demo_files Turso = Ok s"
  from resolve_exact[OF s, of "''PUT''" "[''new'']"] s show ?thesis by auto
qed

theorem resolve_prefers_static_witness:
  "\<exists>s m. from_files demo_libs demo_files Turso = Ok s \<and> resolve s ''GET'' [''new''] = Ok m
    \<and> e_segments (me_endpoint m) = [Static ''new'']"
proof (rule demo_snapshot)
  fix s e e'
  assume s: "from_files demo_libs demo_files Turso = Ok s" and es: "sn_endpoints s = [e, e']"
    and e: "e_method e = ''get''" "e_path e = ''/new''" "e_segments e = [Static ''new'']"
    and e': "e_method e' = ''delete''" "e_path e' = ''/{id}''" "e_segments e' = [Dynamic ''id'']"
  have r: "resolve s ''GET'' [''new''] = Ok \<lparr>me_endpoint = e, me_path_parameters = []\<rparr>"
    by (simp add: resolve_def es e captures_def demo_methods)
  have m: "e' \<in> set (sn_endpoints s)" "matches e' [''new'']"
    by (simp_all add: es e' matches_def segment_matches_def)
  from resolve_prefers_static[OF s r m] r s show ?thesis
    using e e' by (intro exI[of _ s] exI[of _ "\<lparr>me_endpoint = e, me_path_parameters = []\<rparr>"]) simp
qed

theorem resolve_binds_path_parameters_witness:
  "\<exists>s m. from_files demo_libs demo_files Turso = Ok s \<and> resolve s ''DELETE'' [''7''] = Ok m
    \<and> map_of (me_path_parameters m) ''id'' = Some ''7''"
proof (rule demo_snapshot)
  fix s e e'
  assume s: "from_files demo_libs demo_files Turso = Ok s" and es: "sn_endpoints s = [e, e']"
    and e: "e_method e = ''get''" "e_path e = ''/new''" "e_segments e = [Static ''new'']"
    and e': "e_method e' = ''delete''" "e_path e' = ''/{id}''" "e_segments e' = [Dynamic ''id'']" "e_parameters e' = [demo_id]"
  have r: "resolve s ''DELETE'' [''7''] = Ok \<lparr>me_endpoint = e', me_path_parameters = [(''id'', ''7'')]\<rparr>"
    by (simp add: resolve_def es e e' captures_def demo_methods)
  from resolve_binds_path_parameters[OF s r, of demo_id] r s show ?thesis
    using e' by (intro exI[of _ s] exI[of _ "\<lparr>me_endpoint = e', me_path_parameters = [(''id'', ''7'')]\<rparr>"])
      (auto simp: demo_id_def)
qed

end
