(* ===== verification/Execution.thy ===== *)
theory Execution
  imports Loader
begin

text \<open>
  \<^verbatim>\<open>src/execution.rs\<close>: the deadline and cancellation of one request, reading all its
  parameters before any SQL, and encoding the buffered response. Effects are explicit: an
  action maps a world to a world and an outcome. The clock and the cancellation token are an
  environment that is consulted at numbered observations, so that a theorem about every
  environment covers every timing.
\<close>

section \<open>Actions\<close>

type_synonym ('w, 'a) action = "'w \<Rightarrow> 'w \<times> 'a result"

definition ret :: "'a \<Rightarrow> ('w, 'a) action" where
  "ret x w = (w, Ok x)"

definition fail :: "sqlrest_error \<Rightarrow> ('w, 'a) action" where
  "fail e w = (w, Err e)"

definition lift :: "'a result \<Rightarrow> ('w, 'a) action" where
  "lift r w = (w, r)"

text \<open>The \<open>?\<close> operator between two effectful steps.\<close>

definition seq :: "('w, 'a) action \<Rightarrow> ('a \<Rightarrow> ('w, 'b) action) \<Rightarrow> ('w, 'b) action" where
  "seq f g w =
     (case f w of
        (w', Ok x) \<Rightarrow> g x w'
      | (w', Err e) \<Rightarrow> (w', Err e)
      | (w', Panic) \<Rightarrow> (w', Panic))"

text \<open>Running a step and looking at its outcome.\<close>

definition attempt :: "('w, 'a) action \<Rightarrow> ('a result \<Rightarrow> ('w, 'b) action) \<Rightarrow> ('w, 'b) action" where
  "attempt f k w = (case f w of (w', r) \<Rightarrow> k r w')"

fun each_step :: "('x \<Rightarrow> 'a \<Rightarrow> ('w, 'a) action) \<Rightarrow> 'x list \<Rightarrow> 'a \<Rightarrow> ('w, 'a) action" where
  "each_step f [] acc = ret acc"
| "each_step f (x # xs) acc = seq (f x acc) (each_step f xs)"

text \<open>
  Partial-correctness triples: from a world in \<open>P\<close>, a normal return satisfies \<open>Q\<close> and any
  other end (error or panic) leaves a world in \<open>E\<close>.
\<close>

definition triple ::
  "('w \<Rightarrow> bool) \<Rightarrow> ('w, 'a) action \<Rightarrow> ('a \<Rightarrow> 'w \<Rightarrow> bool) \<Rightarrow> ('w \<Rightarrow> bool) \<Rightarrow> bool" where
  "triple P f Q E \<longleftrightarrow> (\<forall>w. P w \<longrightarrow> (case f w of (w', Ok x) \<Rightarrow> Q x w' | (w', _) \<Rightarrow> E w'))"

named_theorems triple_rules \<open>rules of the triple calculus\<close>

lemma tripleI:
  assumes "\<And>w w' x. P w \<Longrightarrow> f w = (w', Ok x) \<Longrightarrow> Q x w'"
    and "\<And>w w' e. P w \<Longrightarrow> f w = (w', Err e) \<Longrightarrow> E w'" and "\<And>w w'. P w \<Longrightarrow> f w = (w', Panic) \<Longrightarrow> E w'"
  shows "triple P f Q E"
  unfolding triple_def
proof (intro allI impI)
  fix w assume P: "P w"
  obtain w' r where r: "f w = (w', r)" by force
  show "case f w of (w', Ok x) \<Rightarrow> Q x w' | (w', _) \<Rightarrow> E w'"
    using assms[OF P] r by (cases r) auto
qed

lemma tripleD_Ok: "triple P f Q E \<Longrightarrow> P w \<Longrightarrow> f w = (w', Ok x) \<Longrightarrow> Q x w'"
  unfolding triple_def by (drule spec[of _ w]) simp

lemma tripleD_Err: "triple P f Q E \<Longrightarrow> P w \<Longrightarrow> f w = (w', Err e) \<Longrightarrow> E w'"
  unfolding triple_def by (drule spec[of _ w]) simp

lemma tripleD_Panic: "triple P f Q E \<Longrightarrow> P w \<Longrightarrow> f w = (w', Panic) \<Longrightarrow> E w'"
  unfolding triple_def by (drule spec[of _ w]) simp

lemma triple_ret [triple_rules]: "(\<And>w. P w \<Longrightarrow> Q x w) \<Longrightarrow> triple P (ret x) Q E"
  by (simp add: triple_def ret_def)

lemma triple_fail [triple_rules]: "(\<And>w. P w \<Longrightarrow> E w) \<Longrightarrow> triple P (fail e) Q E"
  by (simp add: triple_def fail_def)

lemma triple_lift [triple_rules]:
  "(\<And>w x. P w \<Longrightarrow> r = Ok x \<Longrightarrow> Q x w) \<Longrightarrow> (\<And>w. P w \<Longrightarrow> E w) \<Longrightarrow> triple P (lift r) Q E"
  by (cases r) (simp_all add: triple_def lift_def)

lemma triple_seq:
  assumes "triple P f R E" and "\<And>x. triple (R x) (g x) Q E"
  shows "triple P (seq f g) Q E"
  unfolding triple_def
proof (intro allI impI)
  fix w assume P: "P w"
  obtain w1 r where r: "f w = (w1, r)" by force
  show "case seq f g w of (w', Ok x) \<Rightarrow> Q x w' | (w', _) \<Rightarrow> E w'"
  proof (cases r)
    case (Ok x)
    then have "R x w1" using tripleD_Ok[OF assms(1) P] r by simp
    then show ?thesis using assms(2)[of x] Ok r by (simp add: triple_def seq_def)
  next
    case (Err e)
    then show ?thesis using tripleD_Err[OF assms(1) P] r by (simp add: seq_def)
  next
    case Panic
    then show ?thesis using tripleD_Panic[OF assms(1) P] r by (simp add: seq_def)
  qed
qed

lemma triple_attempt:
  assumes "triple P f R F" and "\<And>x. triple (R x) (k (Ok x)) Q E"
    and "\<And>e. triple F (k (Err e)) Q E" and "triple F (k Panic) Q E"
  shows "triple P (attempt f k) Q E"
  unfolding triple_def
proof (intro allI impI)
  fix w assume P: "P w"
  obtain w1 r where r: "f w = (w1, r)" by force
  show "case attempt f k w of (w', Ok x) \<Rightarrow> Q x w' | (w', _) \<Rightarrow> E w'"
  proof (cases r)
    case (Ok x)
    then have "R x w1" using tripleD_Ok[OF assms(1) P] r by simp
    then show ?thesis using assms(2)[of x] Ok r by (simp add: triple_def attempt_def)
  next
    case (Err e)
    then have "F w1" using tripleD_Err[OF assms(1) P] r by simp
    then show ?thesis using assms(3)[of e] Err r by (simp add: triple_def attempt_def)
  next
    case Panic
    then have "F w1" using tripleD_Panic[OF assms(1) P] r by simp
    then show ?thesis using assms(4) Panic r by (simp add: triple_def attempt_def)
  qed
qed

lemma triple_weaken:
  assumes "triple P f Q E" and "\<And>w. P' w \<Longrightarrow> P w" and "\<And>x w. Q x w \<Longrightarrow> Q' x w" and "\<And>w. E w \<Longrightarrow> E' w"
  shows "triple P' f Q' E'"
  by (rule tripleI) (blast dest: assms(2) tripleD_Ok[OF assms(1)] tripleD_Err[OF assms(1)] tripleD_Panic[OF assms(1)]
      intro: assms(3,4))+

lemma triple_each_step:
  assumes "\<And>x acc. x \<in> set xs \<Longrightarrow> triple I (f x acc) (\<lambda>_. I) E"
  shows "triple I (each_step f xs acc) (\<lambda>_. I) E"
  using assms
proof (induction xs arbitrary: acc)
  case (Cons x xs)
  have "triple I (f x acc) (\<lambda>_. I) E" using Cons.prems by simp
  moreover have "triple I (each_step f xs a) (\<lambda>_. I) E" for a using Cons.IH Cons.prems by simp
  ultimately show ?case unfolding each_step.simps by (rule triple_seq)
qed (simp add: triple_ret)

lemma triple_if [triple_rules]:
  "(b \<Longrightarrow> triple P f Q E) \<Longrightarrow> (\<not> b \<Longrightarrow> triple P g Q E) \<Longrightarrow> triple P (if b then f else g) Q E"
  by simp


section \<open>Deadline and cancellation\<close>

text \<open>
  Observation \<open>n\<close> of the environment: whether the token is cancelled, the clock, and what
  a \<open>select!\<close> around an awaited call does: \<open>None\<close> lets the call finish; \<open>Some (sent,
  cancel)\<close> abandons it, after or before the call reached the database, because of
  cancellation or of the deadline. \<open>env_limit\<close> is the last representable instant.
\<close>

record env =
  env_cancelled :: "nat \<Rightarrow> bool"
  env_now :: "nat \<Rightarrow> nat"
  env_interrupt :: "nat \<Rightarrow> (bool \<times> bool) option"
  env_limit :: nat

record 's world =
  w_seen :: nat
  w_db :: 's

record limits =
  lim_timeout :: nat
  lim_max_rows :: nat

definition timeout_error :: sqlrest_error where
  "timeout_error = new_error 504 ''execution_timeout'' ''Request execution deadline exceeded''"

definition request_cancelled :: sqlrest_error where
  "request_cancelled = new_error 499 ''request_cancelled'' ''Request execution was cancelled''"

definition row_limit :: sqlrest_error where
  "row_limit = new_error 500 ''row_limit_exceeded'' ''Result exceeds maximum returned rows''"

definition commit_unknown :: sqlrest_error where
  "commit_unknown = new_error 500 ''commit_outcome_unknown'' ''Commit outcome is unknown; do not blindly retry writes''"

definition cleanup_failed :: sqlrest_error where
  "cleanup_failed = new_error 500 ''transaction_cleanup_failed''
     ''Could not confirm transaction cleanup; connection discarded''"

definition task_failed :: "string \<Rightarrow> sqlrest_error" where
  "task_failed message = new_error 500 ''execution_task_failed'' message"

lemmas execution_errors = timeout_error_def request_cancelled_def row_limit_def commit_unknown_def
  cleanup_failed_def task_failed_def

text \<open>Reading the clock is one observation.\<close>

definition now :: "env \<Rightarrow> ('s world, nat) action" where
  "now env w = (w\<lparr>w_seen := Suc (w_seen w)\<rparr>, Ok (env_now env (w_seen w)))"

text \<open>\<open>Control::check\<close>.\<close>

definition check :: "env \<Rightarrow> nat \<Rightarrow> ('s world, unit) action" where
  "check env deadline w =
     (w\<lparr>w_seen := Suc (w_seen w)\<rparr>,
      if env_cancelled env (w_seen w) then Err request_cancelled
      else if deadline \<le> env_now env (w_seen w) then Err timeout_error
      else Ok ())"

text \<open>\<open>Control::remaining\<close>.\<close>

definition remaining :: "env \<Rightarrow> nat \<Rightarrow> ('s world, nat) action" where
  "remaining env deadline =
     seq (check env deadline) (\<lambda>_.
     seq (now env) (\<lambda>t. if t < deadline then ret (deadline - t) else fail timeout_error))"

text \<open>
  \<open>Control::wait\<close> checks first; the calls awaited inside it are \<^term>\<open>awaited\<close>: each may be
  abandoned by the surrounding \<open>select!\<close>.
\<close>

definition awaited :: "env \<Rightarrow> ('s world, 'a) action \<Rightarrow> ('s world, 'a) action" where
  "awaited env op w =
     (let w' = w\<lparr>w_seen := Suc (w_seen w)\<rparr> in
      case env_interrupt env (w_seen w) of
        None \<Rightarrow> op w'
      | Some (sent, cancel) \<Rightarrow>
          (if sent then fst (op w') else w', Err (if cancel then request_cancelled else timeout_error)))"

definition wait :: "env \<Rightarrow> nat \<Rightarrow> ('s world, 'a) action \<Rightarrow> ('s world, 'a) action" where
  "wait env deadline block = seq (check env deadline) (\<lambda>_. block)"


section \<open>Preparing the input\<close>

record bound_value =
  bv_ty :: ptype
  bv_value :: json

type_synonym prepared = "bound_value list list"

definition prepare_parameter ::
  "env \<Rightarrow> nat \<Rightarrow> params_libs \<Rightarrow> input \<Rightarrow> parameter \<Rightarrow> bound_value list \<Rightarrow> ('s world, bound_value list) action" where
  "prepare_parameter env deadline libs i p values =
     seq (check env deadline) (\<lambda>_.
     seq (lift (Parameter_read libs p i)) (\<lambda>v. ret (values @ [\<lparr>bv_ty = p_ty p, bv_value = v\<rparr>])))"

definition prepare_statement ::
  "env \<Rightarrow> nat \<Rightarrow> params_libs \<Rightarrow> input \<Rightarrow> statement \<Rightarrow> prepared \<Rightarrow> ('s world, prepared) action" where
  "prepare_statement env deadline libs i s out =
     seq (check env deadline) (\<lambda>_.
     seq (each_step (prepare_parameter env deadline libs i) (s_parameters s) []) (\<lambda>values.
     ret (out @ [values])))"

definition prepare :: "env \<Rightarrow> nat \<Rightarrow> params_libs \<Rightarrow> endpoint \<Rightarrow> input \<Rightarrow> ('s world, prepared) action" where
  "prepare env deadline libs e i =
     seq (each_step (prepare_statement env deadline libs i) (e_statements e) []) (\<lambda>out.
     seq (check env deadline) (\<lambda>_. ret out))"


section \<open>Encoding the response\<close>

definition columns_need_schema :: sqlrest_error where
  "columns_need_schema = contract_error ''Result columns require a response schema''"

text \<open>\<open>to_vec\<close> is \<open>serde_json::to_vec\<close>.\<close>

definition response ::
  "env \<Rightarrow> nat \<Rightarrow> response_libs \<Rightarrow> (json \<Rightarrow> string option) \<Rightarrow> endpoint \<Rightarrow> string list \<Rightarrow> cell list list \<Rightarrow> bool
     \<Rightarrow> ('s world, string) action" where
  "response env deadline libs to_vec e names rows turso =
     seq (check env deadline) (\<lambda>_.
     seq (if names \<noteq> [] then
            seq (lift (ok_or columns_need_schema (e_contract e))) (\<lambda>c.
            seq (lift (check_columns c names)) (\<lambda>_.
            each_step (\<lambda>cells records.
              seq (check env deadline) (\<lambda>_.
              seq (lift (contract_record libs c names cells turso)) (\<lambda>r. ret (records @ [r])))) rows []))
          else if rows \<noteq> [] then fail (contract_error ''Rows returned without column metadata'')
          else ret []) (\<lambda>records.
     seq (check env deadline) (\<lambda>_.
     seq (lift (ok_or (contract_error ''Response cannot be encoded as JSON'')
       (to_vec (json_obj [(''records'', JArray records)])))) (\<lambda>bytes.
     seq (check env deadline) (\<lambda>_. ret bytes)))))"

section \<open>What preparing and encoding do\<close>

text \<open>Steps that keep one assertion.\<close>

lemma keep_seq: "triple P f (\<lambda>_. P) E \<Longrightarrow> (\<And>x. triple P (g x) Q E) \<Longrightarrow> triple P (seq f g) Q E"
  by (rule triple_seq)

lemma keep_lift: "(\<And>w. P w \<Longrightarrow> E w) \<Longrightarrow> triple P (lift r) (\<lambda>_. P) E"
  by (rule triple_lift)

lemma keep_ret: "triple P (ret x) (\<lambda>_. P) E"
  by (rule triple_ret)

lemma triple_kept: "triple P f (\<lambda>_. P) P \<Longrightarrow> P w \<Longrightarrow> P (fst (f w))"
  unfolding triple_def by (drule spec[of _ w], cases "f w"; cases "snd (f w)") auto

lemmas keep_rules = keep_seq keep_lift keep_ret triple_fail triple_if triple_each_step

text \<open>How a loop of steps ends: all done, or at the first step that fails.\<close>

lemma each_step_Ok:
  assumes "each_step f xs acc w = (w', Ok out)"
    and "\<And>x acc w w' acc'. x \<in> set xs \<Longrightarrow> f x acc w = (w', Ok acc') \<Longrightarrow> \<exists>y. acc' = acc @ [y] \<and> R x y"
  shows "\<exists>ys. out = acc @ ys \<and> list_all2 R xs ys"
  using assms
proof (induction xs arbitrary: acc w)
  case (Cons x xs)
  from Cons.prems(1) obtain w1 acc1 where 1: "f x acc w = (w1, Ok acc1)" and 2: "each_step f xs acc1 w1 = (w', Ok out)"
    by (auto simp: seq_def split: prod.splits outcome.splits)
  obtain y where y: "acc1 = acc @ [y]" "R x y" using Cons.prems(2)[OF _ 1] by auto
  obtain ys where "out = acc1 @ ys" "list_all2 R xs ys" using Cons.IH[OF 2] Cons.prems(2) by auto
  then show ?case using y by (intro exI[of _ "y # ys"]) simp
qed (simp add: ret_def)

lemma each_step_fails:
  assumes "each_step f xs acc w = (w', r)" and "\<not> is_ok r"
  shows "\<exists>x \<in> set xs. \<exists>acc1 w1. f x acc1 w1 = (w', r)"
  using assms(1)
proof (induction xs arbitrary: acc w)
  case Nil
  then show ?case using assms(2) by (auto simp: ret_def)
next
  case (Cons x xs)
  obtain w1 r1 where 1: "f x acc w = (w1, r1)" by force
  show ?case
  proof (cases r1)
    case (Ok a)
    then have "each_step f xs a w1 = (w', r)" using Cons.prems 1 by (simp add: seq_def)
    from Cons.IH[OF this] show ?thesis by auto
  qed (use Cons.prems 1 in \<open>auto simp: seq_def\<close>)
qed

lemma prepare_parameter_outcome:
  assumes "prepare_parameter env dl libs i p values w = (w', r)"
  shows "case r of
       Ok out \<Rightarrow> \<exists>v. Parameter_read libs p i = Ok v \<and> out = values @ [\<lparr>bv_ty = p_ty p, bv_value = v\<rparr>]
     | Err x \<Rightarrow> x = request_cancelled \<or> x = timeout_error \<or> Parameter_read libs p i = Err x
     | Panic \<Rightarrow> Parameter_read libs p i = Panic"
  using assms
  by (auto simp: prepare_parameter_def seq_def check_def lift_def ret_def split: outcome.splits if_splits)

definition reads_as :: "params_libs \<Rightarrow> input \<Rightarrow> parameter \<Rightarrow> bound_value \<Rightarrow> bool" where
  "reads_as libs i p b \<longleftrightarrow> bv_ty b = p_ty p \<and> Parameter_read libs p i = Ok (bv_value b)"

lemma prepare_statement_outcome:
  assumes "prepare_statement env dl libs i s out w = (w', r)"
  shows "case r of
       Ok out' \<Rightarrow> \<exists>vs. out' = out @ [vs] \<and> list_all2 (reads_as libs i) (s_parameters s) vs
     | Err x \<Rightarrow> x = request_cancelled \<or> x = timeout_error \<or> (\<exists>p \<in> set (s_parameters s). Parameter_read libs p i = Err x)
     | Panic \<Rightarrow> \<exists>p \<in> set (s_parameters s). Parameter_read libs p i = Panic"
proof -
  let ?w = "w\<lparr>w_seen := Suc (w_seen w)\<rparr>"
  obtain w1 r1 where 1: "each_step (prepare_parameter env dl libs i) (s_parameters s) [] ?w = (w1, r1)" by force
  show ?thesis
  proof (cases "check env dl w = (?w, Ok ())")
    case False
    then show ?thesis using assms by (auto simp: prepare_statement_def seq_def check_def split: if_splits)
  next
    case True
    have r: "r = map_ok (\<lambda>vs. out @ [vs]) r1"
      using assms 1 True by (cases r1) (simp_all add: prepare_statement_def seq_def ret_def)
    show ?thesis
    proof (cases r1)
      case (Ok vs)
      have "\<exists>ys. vs = [] @ ys \<and> list_all2 (reads_as libs i) (s_parameters s) ys"
        by (rule each_step_Ok[OF 1[unfolded Ok]]) (auto dest!: prepare_parameter_outcome simp: reads_as_def)
      then show ?thesis using r Ok by simp
    next
      case (Err x)
      then obtain p a1 w2 where "p \<in> set (s_parameters s)" "prepare_parameter env dl libs i p a1 w2 = (w1, Err x)"
        using each_step_fails[OF 1] by auto
      from this(1) prepare_parameter_outcome[OF this(2)] show ?thesis using r Err by auto
    next
      case Panic
      then obtain p a1 w2 where "p \<in> set (s_parameters s)" "prepare_parameter env dl libs i p a1 w2 = (w1, Panic)"
        using each_step_fails[OF 1] by auto
      from this(1) prepare_parameter_outcome[OF this(2)] show ?thesis using r Panic by auto
    qed
  qed
qed

lemma prepare_outcome:
  assumes "prepare env dl libs e i w = (w', r)"
  shows "case r of
       Ok out \<Rightarrow> list_all2 (\<lambda>s vs. list_all2 (reads_as libs i) (s_parameters s) vs) (e_statements e) out
     | Err x \<Rightarrow> x = request_cancelled \<or> x = timeout_error
         \<or> (\<exists>s \<in> set (e_statements e). \<exists>p \<in> set (s_parameters s). Parameter_read libs p i = Err x)
     | Panic \<Rightarrow> \<exists>s \<in> set (e_statements e). \<exists>p \<in> set (s_parameters s). Parameter_read libs p i = Panic"
proof -
  obtain w1 r1 where 1: "each_step (prepare_statement env dl libs i) (e_statements e) [] w = (w1, r1)" by force
  show ?thesis
  proof (cases r1)
    case (Ok out)
    have "\<exists>ys. out = [] @ ys \<and> list_all2 (\<lambda>s vs. list_all2 (reads_as libs i) (s_parameters s) vs) (e_statements e) ys"
      by (rule each_step_Ok[OF 1[unfolded Ok]]) (auto dest!: prepare_statement_outcome)
    then show ?thesis using assms 1 Ok
      by (auto simp: prepare_def seq_def check_def ret_def split: if_splits)
  next
    case (Err x)
    then have r: "r = Err x" using assms 1 by (simp add: prepare_def seq_def)
    from Err obtain s a1 w2 where "s \<in> set (e_statements e)" "prepare_statement env dl libs i s a1 w2 = (w1, Err x)"
      using each_step_fails[OF 1] by auto
    from this(1) prepare_statement_outcome[OF this(2)] show ?thesis using r by auto
  next
    case Panic
    then have r: "r = Panic" using assms 1 by (simp add: prepare_def seq_def)
    from Panic obtain s a1 w2 where "s \<in> set (e_statements e)" "prepare_statement env dl libs i s a1 w2 = (w1, Panic)"
      using each_step_fails[OF 1] by auto
    from this(1) prepare_statement_outcome[OF this(2)] show ?thesis using r by auto
  qed
qed

lemma prepare_keeps_db: "w_db (fst (prepare env dl libs e i w)) = w_db w"
proof -
  let ?P = "\<lambda>w'. w_db w' = w_db w"
  have c: "triple ?P (check env dl) (\<lambda>_. ?P) ?P" by (simp add: triple_def check_def)
  have p: "triple ?P (prepare_parameter env dl libs i p vs) (\<lambda>_. ?P) ?P" for p vs
    unfolding prepare_parameter_def by (intro keep_rules c)
  have s: "triple ?P (prepare_statement env dl libs i s out) (\<lambda>_. ?P) ?P" for s out
    unfolding prepare_statement_def by (intro keep_rules c p)
  have "triple ?P (prepare env dl libs e i) (\<lambda>_. ?P) ?P"
    unfolding prepare_def by (intro keep_rules c s)
  from triple_kept[OF this refl] show ?thesis .
qed

lemma check_Ok_iff [simp]: "snd (check env dl w) = Ok u \<longleftrightarrow> \<not> env_cancelled env (w_seen w) \<and> env_now env (w_seen w) < dl"
  by (simp add: check_def)

text \<open>The ways in which building a response may fail.\<close>

definition response_error :: "sqlrest_error \<Rightarrow> bool" where
  "response_error x \<longleftrightarrow> x = request_cancelled \<or> x = timeout_error
     \<or> (err_code x = ''response_contract_mismatch'' \<and> err_status x = 500)"

definition fails_well :: "('w, 'a) action \<Rightarrow> bool" where
  "fails_well f \<longleftrightarrow> (\<forall>w. case snd (f w) of Ok _ \<Rightarrow> True | Err x \<Rightarrow> response_error x | Panic \<Rightarrow> False)"

lemma fails_well_seq:
  assumes f: "fails_well f" and g: "\<And>x. fails_well (g x)"
  shows "fails_well (seq f g)"
  unfolding fails_well_def
proof
  fix w
  obtain w1 r where r: "f w = (w1, r)" by force
  show "case snd (seq f g w) of Ok _ \<Rightarrow> True | Err x \<Rightarrow> response_error x | Panic \<Rightarrow> False"
    using f[unfolded fails_well_def, rule_format, of w] g[unfolded fails_well_def, rule_format, of _ w1] r
    by (cases r) (simp_all add: seq_def)
qed

lemma fails_well_each_step: "(\<And>x acc. fails_well (f x acc)) \<Longrightarrow> fails_well (each_step f xs acc)"
  by (induction xs arbitrary: acc) (simp_all add: fails_well_seq fails_well_def[of "ret _"] ret_def)

lemma fails_well_check: "fails_well (check env dl)"
  by (simp add: fails_well_def check_def response_error_def)

lemma fails_well_ret: "fails_well (ret x)"
  by (simp add: fails_well_def ret_def)

lemma fails_well_lift: "(case r of Ok _ \<Rightarrow> True | Err x \<Rightarrow> response_error x | Panic \<Rightarrow> False) \<Longrightarrow> fails_well (lift r)"
  by (simp add: fails_well_def lift_def)

lemma fails_well_fail: "response_error x \<Longrightarrow> fails_well (fail x)"
  by (simp add: fails_well_def fail_def)

lemma fails_well_if: "(b \<Longrightarrow> fails_well f) \<Longrightarrow> (\<not> b \<Longrightarrow> fails_well g) \<Longrightarrow> fails_well (if b then f else g)"
  by simp

lemmas fails_well_rules = fails_well_seq fails_well_each_step fails_well_check fails_well_ret fails_well_fail
  fails_well_if

lemma response_fails_well: "fails_well (response env dl libs to_vec e names rows turso)"
proof -
  have 1: "fails_well (lift (ok_or (contract_error m) v))" for m and v :: "'x option"
    by (rule fails_well_lift) (cases v, auto simp: response_error_def)
  have 2: "fails_well (lift (ok_or columns_need_schema v))" for v :: "contract option"
    unfolding columns_need_schema_def by (rule fails_well_lift) (cases v, auto simp: response_error_def)
  have 3: "fails_well (lift (check_columns c names))" for c
    by (rule fails_well_lift) (auto simp: check_columns_def response_error_def)
  have 4: "fails_well (lift (contract_record libs c names cells turso))" for c cells
    by (rule fails_well_lift)
      (use contract_record_outcome[of libs c names cells turso] in \<open>auto simp: response_error_def split: outcome.splits\<close>)
  show ?thesis unfolding response_def
    by (intro fails_well_rules 1 2 3 4) (auto simp: response_error_def)
qed

lemma seq_Ok: "seq f g w = (w', Ok y) \<longleftrightarrow> (\<exists>w1 x. f w = (w1, Ok x) \<and> g x w1 = (w', Ok y))"
  by (auto simp: seq_def split: prod.splits outcome.splits)

lemma response_Ok:
  assumes "response env dl libs to_vec e names rows turso w = (w', Ok bytes)"
  shows "\<exists>records. to_vec (json_obj [(''records'', JArray records)]) = Some bytes \<and>
     (if names = [] then rows = [] \<and> records = []
      else \<exists>c. e_contract e = Some c \<and> list_all2 (\<lambda>cells r. contract_record libs c names cells turso = Ok r) rows records)"
proof -
  have loop: "\<exists>ys. out = [] @ ys \<and> list_all2 (\<lambda>cells r. contract_record libs c names cells turso = Ok r) rows ys"
    if "each_step (\<lambda>cells records. seq (check env dl) (\<lambda>_.
              seq (lift (contract_record libs c names cells turso)) (\<lambda>r. ret (records @ [r])))) rows [] w1 = (w2, Ok out)"
    for c w1 w2 out
    by (rule each_step_Ok[OF that]) (auto simp: seq_Ok lift_def ret_def)
  show ?thesis
  proof (cases "names = []")
    case True
    then show ?thesis using assms
      by (auto simp: response_def seq_Ok lift_def ret_def fail_def outcome_simps split: if_splits)
  next
    case False
    then show ?thesis using assms loop
      by (fastforce simp: response_def seq_Ok lift_def ret_def outcome_simps)
  qed
qed


section \<open>Properties\<close>

text \<open>
  C28: \<open>prepare\<close> touches no database. When it succeeds it holds, for every statement in order, the
  values of exactly its parameters, each read from the request with its declared type; it fails
  only by cancellation, by the deadline or as reading one of the parameters fails.
\<close>

theorem prepare_exact:
  "case prepare env dl libs e i w of (w', r) \<Rightarrow> w_db w' = w_db w \<and>
     (case r of
        Ok out \<Rightarrow> list_all2 (\<lambda>s vs. list_all2 (reads_as libs i) (s_parameters s) vs) (e_statements e) out
      | Err x \<Rightarrow> x = request_cancelled \<or> x = timeout_error
          \<or> (\<exists>s \<in> set (e_statements e). \<exists>p \<in> set (s_parameters s). Parameter_read libs p i = Err x)
      | Panic \<Rightarrow> \<exists>s \<in> set (e_statements e). \<exists>p \<in> set (s_parameters s). Parameter_read libs p i = Panic)"
  using prepare_outcome[of env dl libs e i w] prepare_keeps_db[of env dl libs e i w]
  by (cases "prepare env dl libs e i w") simp

text \<open>the response of a request is the JSON document of all its rows in order, each decoded and
  validated against the contract of the endpoint (no columns: no rows); building it never panics and
  fails only by cancellation, by the deadline or as a contract mismatch.
\<close>

theorem response_exact:
  "case snd (response env dl libs to_vec e names rows turso w) of
     Ok bytes \<Rightarrow> \<exists>records. to_vec (json_obj [(''records'', JArray records)]) = Some bytes \<and>
       (if names = [] then rows = [] \<and> records = []
        else \<exists>c. e_contract e = Some c
          \<and> list_all2 (\<lambda>cells r. contract_record libs c names cells turso = Ok r) rows records)
   | Err x \<Rightarrow> x = request_cancelled \<or> x = timeout_error
       \<or> (err_code x = ''response_contract_mismatch'' \<and> err_status x = 500)
   | Panic \<Rightarrow> False"
proof -
  obtain w' r where r: "response env dl libs to_vec e names rows turso w = (w', r)" by force
  show ?thesis
    using response_fails_well[of env dl libs to_vec e names rows turso, unfolded fails_well_def, rule_format, of w]
      response_Ok[of env dl libs to_vec e names rows turso w w'] r
    by (cases r) (simp_all add: response_error_def)
qed

end
