(* ===== verification/Turso.thy ===== *)
theory Turso
  imports Execution
begin

text \<open>
  \<^verbatim>\<open>src/turso_driver.rs\<close>: one request as one Turso transaction. The SDK is a parameter
  (\<open>turso_driver\<close>, a record of its calls over an abstract database state); loops over rows
  are bounded by fuel, and running out of fuel is the outcome \<^const>\<open>Panic\<close>.
\<close>

section \<open>The SDK\<close>

datatype turso_error =
    Interrupt string
  | Readonly string
  | Constraint string
  | Busy string
  | BusySnapshot string
  | Error_text string
  | Other_error string

datatype turso_value = VNull | VInteger i64 | VFloat f64 | VText string | VBlob string

datatype turso_status = Done | Row | Io

text \<open>\<open>td_debug\<close> and \<open>td_debug_result\<close> are the \<open>Debug\<close> texts that diagnostics keep.\<close>

record ('s, 'st) turso_driver =
  td_connect :: "'s \<Rightarrow> 's \<times> (turso_error, unit) outcome"
  td_prepare :: "string \<Rightarrow> 's \<Rightarrow> 's \<times> (turso_error, 'st) outcome"
  td_bind :: "'st \<Rightarrow> nat \<Rightarrow> turso_value \<Rightarrow> 's \<Rightarrow> 's \<times> (turso_error, unit) outcome"
  td_step :: "'st \<Rightarrow> 's \<Rightarrow> 's \<times> (turso_error, turso_status) outcome"
  td_set_timeouts :: "nat \<Rightarrow> 's \<Rightarrow> 's"
  td_close :: "'s \<Rightarrow> 's"
  td_column_count :: "'st \<Rightarrow> nat"
  td_column_name :: "'st \<Rightarrow> nat \<Rightarrow> (turso_error, string) outcome"
  td_row_value :: "'st \<Rightarrow> 's \<Rightarrow> nat \<Rightarrow> (turso_error, turso_value) outcome"
  td_auto_commit :: "'s \<Rightarrow> bool"
  td_debug :: "turso_error \<Rightarrow> string"
  td_debug_result :: "(turso_error, turso_status) outcome \<Rightarrow> string"

definition database_error_generic :: sqlrest_error where
  "database_error_generic = new_error 500 ''database_error'' ''Database operation failed''"

definition read_only_violation :: sqlrest_error where
  "read_only_violation = new_error 403 ''read_only_violation'' ''Read-only requests cannot modify the database''"

definition turso_public_error :: "turso_error \<Rightarrow> sqlrest_error" where
  "turso_public_error e =
     (if e = Error_text ''Parse error: Cannot execute write statement in query_only mode''
      then read_only_violation
      else case e of
        Interrupt _ \<Rightarrow> timeout_error
      | Readonly _ \<Rightarrow> read_only_violation
      | Constraint _ \<Rightarrow> new_error 409 ''constraint_violation'' ''Database constraint rejected the operation''
      | Busy _ \<Rightarrow> new_error 409 ''database_busy'' ''Database is busy''
      | BusySnapshot _ \<Rightarrow> new_error 409 ''database_busy'' ''Database is busy''
      | _ \<Rightarrow> database_error_generic)"

definition turso_database_error :: "(turso_error \<Rightarrow> string) \<Rightarrow> turso_error \<Rightarrow> sqlrest_error" where
  "turso_database_error debug e = with_diagnostic ''turso'' (debug e) (turso_public_error e)"

text \<open>A call of the SDK with \<open>map_err(database_error)\<close>.\<close>

definition call ::
  "('e \<Rightarrow> sqlrest_error) \<Rightarrow> ('s \<Rightarrow> 's \<times> ('e, 'a) outcome) \<Rightarrow> ('s world, 'a) action" where
  "call conv f w = (case f (w_db w) of (s, r) \<Rightarrow> (w\<lparr>w_db := s\<rparr>, map_err conv r))"

abbreviation tcall :: "('s, 'st) turso_driver \<Rightarrow> ('s \<Rightarrow> 's \<times> (turso_error, 'a) outcome) \<Rightarrow> ('s world, 'a) action" where
  "tcall drv \<equiv> call (turso_database_error (td_debug drv))"

definition set_timeouts :: "('s, 'st) turso_driver \<Rightarrow> nat \<Rightarrow> ('s world, unit) action" where
  "set_timeouts drv d w = (w\<lparr>w_db := td_set_timeouts drv d (w_db w)\<rparr>, Ok ())"


section \<open>Values\<close>

text \<open>\<open>bind\<close>; \<open>to_text\<close> is \<open>Value::to_string\<close>.\<close>

fun turso_bind_value :: "(json \<Rightarrow> string) \<Rightarrow> ptype \<Rightarrow> json \<Rightarrow> turso_value result" where
  "turso_bind_value to_text ty v =
     (if v = JNull then Ok VNull
      else case ty of
        Nullable_T inner \<Rightarrow> turso_bind_value to_text inner v
      | String_T \<Rightarrow> map_ok VText (unwrap (as_str v))
      | Boolean_T \<Rightarrow> map_ok (\<lambda>b. VInteger (if b then 1 else 0)) (unwrap (as_bool v))
      | Int64_T \<Rightarrow> map_ok VInteger (unwrap (as_i64 v))
      | Float64_T \<Rightarrow> map_ok VFloat (unwrap (as_f64 v))
      | Array_T _ \<Rightarrow> Ok (VText (to_text v)))"

declare turso_bind_value.simps [simp del]

definition turso_bind :: "(json \<Rightarrow> string) \<Rightarrow> bound_value \<Rightarrow> turso_value result" where
  "turso_bind to_text b = turso_bind_value to_text (bv_ty b) (bv_value b)"

fun turso_cell :: "turso_value \<Rightarrow> cell result" where
  "turso_cell VNull = Ok CNull"
| "turso_cell (VInteger v) = Ok (CInteger v)"
| "turso_cell (VFloat v) = Ok (CReal v)"
| "turso_cell (VText v) = Ok (CText v)"
| "turso_cell (VBlob _) = Err (contract_error ''Binary columns require explicit SQL encoding'')"


section \<open>Executing one statement\<close>

text \<open>The loop of \<open>execute\<close>: rows are skipped, the deadline is looked at after each.\<close>

primrec execute_loop ::
  "nat \<Rightarrow> ('s, 'st) turso_driver \<Rightarrow> env \<Rightarrow> nat \<Rightarrow> 'st \<Rightarrow> ('s world, unit) action" where
  "execute_loop 0 drv env deadline st = lift Panic"
| "execute_loop (Suc n) drv env deadline st = (\<lambda>w.
     case td_step drv st (w_db w) of
       (s, Ok Done) \<Rightarrow> ret () (w\<lparr>w_db := s\<rparr>)
     | (s, Ok Row) \<Rightarrow>
         seq (now env) (\<lambda>t. if deadline \<le> t then fail timeout_error else execute_loop n drv env deadline st)
           (w\<lparr>w_db := s\<rparr>)
     | (s, Ok Io) \<Rightarrow> fail database_error_generic (w\<lparr>w_db := s\<rparr>)
     | (s, Err e) \<Rightarrow>
         seq (now env) (\<lambda>t. fail (if deadline \<le> t then with_diagnostic ''turso'' (td_debug drv e) timeout_error
             else turso_database_error (td_debug drv) e)) (w\<lparr>w_db := s\<rparr>)
     | (s, Panic) \<Rightarrow> lift Panic (w\<lparr>w_db := s\<rparr>))"

definition execute ::
  "nat \<Rightarrow> ('s, 'st) turso_driver \<Rightarrow> env \<Rightarrow> nat \<Rightarrow> string \<Rightarrow> ('s world, unit) action" where
  "execute fuel drv env deadline sql =
     seq (now env) (\<lambda>t.
       if t < deadline then
         seq (set_timeouts drv (deadline - t)) (\<lambda>_.
         seq (tcall drv (td_prepare drv sql)) (\<lambda>st.
         execute_loop fuel drv env deadline st))
       else fail timeout_error)"

definition FIVE_SECONDS :: nat where
  "FIVE_SECONDS = 5000000000"

text \<open>\<open>cleanup\<close>: \<open>Instant::now() + Duration\<close> panics beyond the last instant.\<close>

definition turso_cleanup :: "nat \<Rightarrow> ('s, 'st) turso_driver \<Rightarrow> env \<Rightarrow> ('s world, unit) action" where
  "turso_cleanup fuel drv env w =
     seq (if td_auto_commit drv (w_db w) then ret ()
          else seq (now env) (\<lambda>t.
            if env_limit env < t + FIVE_SECONDS then lift Panic
            else attempt (execute fuel drv env (t + FIVE_SECONDS) ''ROLLBACK'') (\<lambda>r.
              case r of Ok _ \<Rightarrow> ret () | Err _ \<Rightarrow> fail cleanup_failed | Panic \<Rightarrow> lift Panic)))
       (\<lambda>_ w. (if td_auto_commit drv (w_db w) then ret () else fail cleanup_failed) w) w"


section \<open>One request\<close>

record request_libs =
  rl_response :: response_libs
  rl_to_vec :: "json \<Rightarrow> string option"
  rl_to_text :: "json \<Rightarrow> string"

definition bind_parameter ::
  "('s, 'st) turso_driver \<Rightarrow> request_libs \<Rightarrow> 'st \<Rightarrow> nat \<times> bound_value \<Rightarrow> unit \<Rightarrow> ('s world, unit) action" where
  "bind_parameter drv libs st = (\<lambda>(i, value) _.
     seq (lift (turso_bind (rl_to_text libs) value)) (\<lambda>v. tcall drv (td_bind drv st (i + 1) v)))"

text \<open>The column names of the final statement, checked against the contract.\<close>

definition final_columns :: "('s, 'st) turso_driver \<Rightarrow> endpoint \<Rightarrow> 'st \<Rightarrow> string list result" where
  "final_columns drv e st =
     and_then (try_map (\<lambda>i. map_err (turso_database_error (td_debug drv)) (td_column_name drv st i))
         [0..<td_column_count drv st]) (\<lambda>names.
       if names = [] then Ok names
       else and_then (ok_or columns_need_schema (e_contract e)) (\<lambda>c.
         map_ok (\<lambda>_. names) (check_columns c names)))"

definition row_cells :: "('s, 'st) turso_driver \<Rightarrow> 'st \<Rightarrow> 's \<Rightarrow> cell list result" where
  "row_cells drv st s =
     try_map (\<lambda>i. and_then (map_err (turso_database_error (td_debug drv)) (td_row_value drv st s i)) turso_cell)
       [0..<td_column_count drv st]"

primrec row_loop ::
  "nat \<Rightarrow> ('s, 'st) turso_driver \<Rightarrow> env \<Rightarrow> nat \<Rightarrow> nat \<Rightarrow> bool \<Rightarrow> 'st \<Rightarrow> cell list list
     \<Rightarrow> ('s world, cell list list) action" where
  "row_loop 0 drv env deadline max_rows final st rows = lift Panic"
| "row_loop (Suc n) drv env deadline max_rows final st rows =
     seq (check env deadline) (\<lambda>_.
     seq (tcall drv (td_step drv st)) (\<lambda>status.
       case status of
         Done \<Rightarrow> ret rows
       | Row \<Rightarrow>
           if final then
             if max_rows \<le> length rows then fail row_limit
             else (\<lambda>w. seq (lift (row_cells drv st (w_db w))) (\<lambda>cells.
               row_loop n drv env deadline max_rows final st (rows @ [cells])) w)
           else row_loop n drv env deadline max_rows final st rows
       | Io \<Rightarrow> fail database_error_generic))"

definition statement_step ::
  "nat \<Rightarrow> ('s, 'st) turso_driver \<Rightarrow> request_libs \<Rightarrow> env \<Rightarrow> nat \<Rightarrow> nat \<Rightarrow> endpoint
     \<Rightarrow> nat \<times> statement \<times> bound_value list \<Rightarrow> string list \<times> cell list list
     \<Rightarrow> ('s world, string list \<times> cell list list) action" where
  "statement_step fuel drv libs env deadline max_rows e = (\<lambda>(index, sql, values) (names, rows).
     seq (remaining env deadline) (\<lambda>d.
     seq (set_timeouts drv d) (\<lambda>_.
     seq (tcall drv (td_prepare drv (s_sql sql))) (\<lambda>st.
     seq (each_step (bind_parameter drv libs st) (enumerate 0 values) ()) (\<lambda>_.
     let final = (index + 1 = length (e_statements e)) in
     seq (if final then lift (final_columns drv e st) else ret names) (\<lambda>names.
     seq (row_loop fuel drv env deadline max_rows final st rows) (\<lambda>rows.
     ret (names, rows))))))))"

definition is_read :: "endpoint \<Rightarrow> bool" where
  "is_read e \<longleftrightarrow> e_method e \<in> {''get'', ''head''}"

text \<open>The closure of \<open>request\<close>: everything between the connection and the commit.\<close>

definition transaction_body ::
  "nat \<Rightarrow> ('s, 'st) turso_driver \<Rightarrow> request_libs \<Rightarrow> env \<Rightarrow> nat \<Rightarrow> nat \<Rightarrow> endpoint \<Rightarrow> prepared
     \<Rightarrow> ('s world, string) action" where
  "transaction_body fuel drv libs env deadline max_rows e prep =
     seq (execute fuel drv env deadline ''PRAGMA foreign_keys=1'') (\<lambda>_.
     seq (if is_read e then execute fuel drv env deadline ''PRAGMA query_only=1'' else ret ()) (\<lambda>_.
     seq (check env deadline) (\<lambda>_.
     seq (execute fuel drv env deadline ''BEGIN'') (\<lambda>_.
     seq (each_step (statement_step fuel drv libs env deadline max_rows e)
       (enumerate 0 (zip (e_statements e) prep)) ([], [])) (\<lambda>(names, rows).
     response env deadline (rl_response libs) (rl_to_vec libs) e names rows True)))))"

definition cleanup_then_fail :: "nat \<Rightarrow> ('s, 'st) turso_driver \<Rightarrow> env \<Rightarrow> sqlrest_error \<Rightarrow> ('s world, 'a) action" where
  "cleanup_then_fail fuel drv env e = seq (turso_cleanup fuel drv env) (\<lambda>_. fail e)"

definition prepare_commit :: "('s, 'st) turso_driver \<Rightarrow> env \<Rightarrow> nat \<Rightarrow> ('s world, 'st) action" where
  "prepare_commit drv env deadline =
     seq (remaining env deadline) (\<lambda>d.
     seq (set_timeouts drv d) (\<lambda>_.
     seq (tcall drv (td_prepare drv ''COMMIT'')) (\<lambda>st.
     seq (check env deadline) (\<lambda>_. ret st))))"

definition commit_step ::
  "nat \<Rightarrow> ('s, 'st) turso_driver \<Rightarrow> env \<Rightarrow> 'st \<Rightarrow> string \<Rightarrow> ('s world, string) action" where
  "commit_step fuel drv env st bytes w =
     (case td_step drv st (w_db w) of
        (s, Ok Done) \<Rightarrow> ret bytes (w\<lparr>w_db := s\<rparr>)
      | (s, r) \<Rightarrow>
          attempt (turso_cleanup fuel drv env) (\<lambda>c.
            if c = Panic \<or> r = Panic then lift Panic
            else fail (with_diagnostic ''turso'' (td_debug_result drv r) commit_unknown)) (w\<lparr>w_db := s\<rparr>))"

definition close_after :: "('s, 'st) turso_driver \<Rightarrow> ('s world, 'a) action \<Rightarrow> ('s world, 'a) action" where
  "close_after drv f w = (case f w of (w', r) \<Rightarrow> (w'\<lparr>w_db := td_close drv (w_db w')\<rparr>, r))"

definition transaction ::
  "nat \<Rightarrow> ('s, 'st) turso_driver \<Rightarrow> request_libs \<Rightarrow> env \<Rightarrow> nat \<Rightarrow> nat \<Rightarrow> endpoint \<Rightarrow> prepared
     \<Rightarrow> ('s world, string) action" where
  "transaction fuel drv libs env deadline max_rows e prep =
     attempt (transaction_body fuel drv libs env deadline max_rows e prep) (\<lambda>r.
       case r of
         Ok bytes \<Rightarrow>
           attempt (check env deadline) (\<lambda>c.
             case c of
               Ok _ \<Rightarrow>
                 attempt (prepare_commit drv env deadline) (\<lambda>p.
                   case p of
                     Ok st \<Rightarrow> commit_step fuel drv env st bytes
                   | Err error \<Rightarrow> cleanup_then_fail fuel drv env error
                   | Panic \<Rightarrow> lift Panic)
             | Err error \<Rightarrow> cleanup_then_fail fuel drv env error
             | Panic \<Rightarrow> lift Panic)
       | Err error \<Rightarrow>
           attempt (check env deadline) (\<lambda>c.
             cleanup_then_fail fuel drv env (case c of Err original \<Rightarrow> original | _ \<Rightarrow> error))
       | Panic \<Rightarrow> lift Panic)"

definition request ::
  "nat \<Rightarrow> ('s, 'st) turso_driver \<Rightarrow> request_libs \<Rightarrow> env \<Rightarrow> nat \<Rightarrow> nat \<Rightarrow> endpoint \<Rightarrow> prepared
     \<Rightarrow> ('s world, string) action" where
  "request fuel drv libs env deadline max_rows e prep =
     seq (check env deadline) (\<lambda>_.
     seq (tcall drv (td_connect drv)) (\<lambda>_.
     close_after drv
       (seq (check env deadline) (\<lambda>_. transaction fuel drv libs env deadline max_rows e prep))))"

text \<open>
  \<open>run_request\<close>: what became of the blocking worker when the supervisor looked. It may still be
  queued when the deadline or a cancellation is noticed (\<open>Queued\<close>: the supervisor cancels it under
  the gate, returns, and no database work is ever done), it may have been cancelled by the runtime,
  or it runs to its end; \<open>alive\<close> says that the weak reference to the database still resolves. The
  watchdog only calls \<open>interrupt\<close>, which the worker sees as an \<^const>\<open>Interrupt\<close> error of a step. A
  panic of the worker is reported as a failed task.
\<close>

datatype worker_fate = Queued | Worker_cancelled | Ran bool

definition worker ::
  "bool \<Rightarrow> nat \<Rightarrow> ('s, 'st) turso_driver \<Rightarrow> request_libs \<Rightarrow> env \<Rightarrow> nat \<Rightarrow> nat \<Rightarrow> endpoint \<Rightarrow> prepared
     \<Rightarrow> ('s world, string) action" where
  "worker alive fuel drv libs env deadline max_rows e prep =
     seq (check env deadline) (\<lambda>_.
     if alive then request fuel drv libs env deadline max_rows e prep else fail database_error_generic)"

definition turso_run_request ::
  "worker_fate \<Rightarrow> nat \<Rightarrow> ('s, 'st) turso_driver \<Rightarrow> request_libs \<Rightarrow> env \<Rightarrow> nat \<Rightarrow> nat \<Rightarrow> endpoint \<Rightarrow> prepared
     \<Rightarrow> ('s world, string) action" where
  "turso_run_request fate fuel drv libs env deadline max_rows e prep =
     (case fate of
        Ran alive \<Rightarrow>
          attempt (worker alive fuel drv libs env deadline max_rows e prep) (\<lambda>r.
            case r of
              Panic \<Rightarrow> fail (task_failed ''Database worker failed'')
            | _ \<Rightarrow> lift r)
      | _ \<Rightarrow> attempt (check env deadline) (\<lambda>c. fail (case c of Err error \<Rightarrow> error | _ \<Rightarrow> timeout_error)))"


section \<open>What the program relies on from the SDK\<close>

text \<open>
  \<open>durable\<close> is what this connection has made durable, \<open>staged\<close> what a commit would make
  durable, \<open>sql_of\<close> the text of a prepared statement, and \<open>plain\<close> the texts of supported
  transactional statements (those are neither \<open>BEGIN\<close>, \<open>COMMIT\<close> nor \<open>ROLLBACK\<close>).
  A successful step of a plain statement inside a transaction stays inside it, whatever it
  does there is not durable yet, and a commit is all or nothing.
\<close>

definition step_law ::
  "('s, 'st) turso_driver \<Rightarrow> ('st \<Rightarrow> string) \<Rightarrow> ('s \<Rightarrow> 'd) \<Rightarrow> ('s \<Rightarrow> 'd) \<Rightarrow> (string \<Rightarrow> bool) \<Rightarrow> bool" where
  "step_law drv sql_of durable staged plain \<longleftrightarrow> (\<forall>st s s' r. td_step drv st s = (s', r) \<longrightarrow>
     (sql_of st \<in> {''PRAGMA foreign_keys=1'', ''PRAGMA query_only=1''} \<longrightarrow> td_auto_commit drv s \<longrightarrow>
        durable s' = durable s \<and> td_auto_commit drv s') \<and>
     (sql_of st = ''BEGIN'' \<longrightarrow> td_auto_commit drv s \<longrightarrow>
        durable s' = durable s \<and> (r = Ok Done \<longrightarrow> \<not> td_auto_commit drv s') \<and> (r = Ok Row \<longrightarrow> td_auto_commit drv s')) \<and>
     (sql_of st = ''ROLLBACK'' \<longrightarrow> durable s' = durable s) \<and>
     (plain (sql_of st) \<longrightarrow> \<not> td_auto_commit drv s \<longrightarrow>
        durable s' = durable s \<and> (is_ok r \<longrightarrow> \<not> td_auto_commit drv s')) \<and>
     (sql_of st = ''COMMIT'' \<longrightarrow> \<not> td_auto_commit drv s \<longrightarrow>
        durable s' \<in> {durable s, staged s} \<and> (r = Ok Done \<longrightarrow> durable s' = staged s)))"

definition quiet_law ::
  "('s, 'st) turso_driver \<Rightarrow> ('st \<Rightarrow> string) \<Rightarrow> ('s \<Rightarrow> 'd) \<Rightarrow> ('s \<Rightarrow> 'd) \<Rightarrow> bool" where
  "quiet_law drv sql_of durable staged \<longleftrightarrow>
     (\<forall>s s' r. td_connect drv s = (s', r) \<longrightarrow> durable s' = durable s \<and> (is_ok r \<longrightarrow> td_auto_commit drv s')) \<and>
     (\<forall>q s s' r. td_prepare drv q s = (s', r) \<longrightarrow> durable s' = durable s \<and> staged s' = staged s
        \<and> td_auto_commit drv s' = td_auto_commit drv s \<and> (\<forall>st. r = Ok st \<longrightarrow> sql_of st = q)) \<and>
     (\<forall>st i v s s' r. td_bind drv st i v s = (s', r) \<longrightarrow> durable s' = durable s \<and> staged s' = staged s
        \<and> td_auto_commit drv s' = td_auto_commit drv s) \<and>
     (\<forall>d s. durable (td_set_timeouts drv d s) = durable s \<and> staged (td_set_timeouts drv d s) = staged s
        \<and> td_auto_commit drv (td_set_timeouts drv d s) = td_auto_commit drv s) \<and>
     (\<forall>s. durable (td_close drv s) = durable s)"

text \<open>Facts about the database survive a look at the clock.\<close>

lemma triple_check: "(\<And>s. R s \<Longrightarrow> D s) \<Longrightarrow> triple (\<lambda>w. R (w_db w)) (check env dl) (\<lambda>_ w. R (w_db w)) (\<lambda>w. D (w_db w))"
  by (simp add: triple_def check_def)

lemma triple_now: "triple (\<lambda>w. R (w_db w)) (now env) (\<lambda>_ w. R (w_db w)) (\<lambda>w. D (w_db w))"
  by (simp add: triple_def now_def)

lemma triple_remaining:
  "(\<And>s. R s \<Longrightarrow> D s) \<Longrightarrow> triple (\<lambda>w. R (w_db w)) (remaining env dl) (\<lambda>_ w. R (w_db w)) (\<lambda>w. D (w_db w))"
  unfolding remaining_def
  by (intro triple_seq[OF triple_check] triple_seq[OF triple_now] triple_rules)

lemma triple_call:
  fixes f :: "'s \<Rightarrow> 's \<times> ('e, 'a) outcome"
  assumes "\<And>s s' r. R s \<Longrightarrow> f s = (s', r) \<Longrightarrow> D s' \<and> (\<forall>x. r = Ok x \<longrightarrow> Q x s')"
  shows "triple (\<lambda>w. R (w_db w)) (call conv f) (\<lambda>x w. Q x (w_db w)) (\<lambda>w. D (w_db w))"
  unfolding triple_def
proof (intro allI impI)
  fix w :: "'s world" assume R: "R (w_db w)"
  obtain s' r where f: "f (w_db w) = (s', r)" by force
  show "case call conv f w of (w', Ok x) \<Rightarrow> Q x (w_db w') | (w', _) \<Rightarrow> D (w_db w')"
    using assms[OF R f] f by (cases r) (auto simp: call_def)
qed

lemma triple_set_timeouts:
  assumes "\<And>s. R s \<Longrightarrow> R (td_set_timeouts drv d s)"
  shows "triple (\<lambda>w. R (w_db w)) (set_timeouts drv d) (\<lambda>_ w. R (w_db w)) E"
  using assms by (simp add: triple_def set_timeouts_def)

text \<open>The loop that drives one statement to completion.\<close>

lemma triple_execute_loop:
  fixes drv :: "('s, 'st) turso_driver"
  assumes step: "\<And>s s' r. R s \<Longrightarrow> td_step drv st s = (s', r) \<Longrightarrow> D s' \<and> (r = Ok Row \<longrightarrow> R s') \<and> (r = Ok Done \<longrightarrow> Q s')"
    and RD: "\<And>s. R s \<Longrightarrow> D s"
  shows "triple (\<lambda>w. R (w_db w)) (execute_loop n drv env dl st) (\<lambda>_ w. Q (w_db w)) (\<lambda>w. D (w_db w))"
proof (induction n)
  case 0
  then show ?case using RD by (simp add: triple_def lift_def)
next
  case (Suc n)
  show ?case unfolding triple_def
  proof (intro allI impI)
    fix w :: "'s world" assume R: "R (w_db w)"
    obtain s' r where s: "td_step drv st (w_db w) = (s', r)" by force
    note facts = step[OF R s]
    show "case execute_loop (Suc n) drv env dl st w of (w', Ok x) \<Rightarrow> Q (w_db w') | (w', _) \<Rightarrow> D (w_db w')"
    proof (cases r)
      case (Ok status)
      show ?thesis
      proof (cases status)
        case Row
        have "triple (\<lambda>w. R (w_db w)) (seq (now env) (\<lambda>t. if dl \<le> t then fail timeout_error else execute_loop n drv env dl st))
            (\<lambda>_ w. Q (w_db w)) (\<lambda>w. D (w_db w))"
          by (intro triple_seq[OF triple_now] triple_rules Suc.IH RD)
        then show ?thesis using facts Ok Row s by (simp add: triple_def)
      qed (use facts Ok s in \<open>auto simp: ret_def fail_def\<close>)
    qed (use facts s in \<open>auto simp: seq_def now_def fail_def lift_def\<close>)
  qed
qed

lemma triple_execute:
  assumes quiet: "quiet_law drv sql_of durable staged"
    and step: "\<And>st s s' r. sql_of st = q \<Longrightarrow> R s \<Longrightarrow> td_step drv st s = (s', r) \<Longrightarrow>
        durable s' = d \<and> (r = Ok Row \<longrightarrow> R s') \<and> (r = Ok Done \<longrightarrow> Q s')"
    and RD: "\<And>s. R s \<Longrightarrow> durable s = d"
    and keep: "\<And>s s'. R s \<Longrightarrow> durable s' = durable s \<Longrightarrow> td_auto_commit drv s' = td_auto_commit drv s \<Longrightarrow> R s'"
  shows "triple (\<lambda>w. R (w_db w)) (execute fuel drv env dl q) (\<lambda>_ w. Q (w_db w)) (\<lambda>w. durable (w_db w) = d)"
proof -
  have prep: "triple (\<lambda>w. R (w_db w)) (tcall drv (td_prepare drv q)) (\<lambda>st w. R (w_db w) \<and> sql_of st = q) (\<lambda>w. durable (w_db w) = d)"
  proof (rule triple_call)
    fix s s' r assume R: "R s" and p: "td_prepare drv q s = (s', r)"
    then have "durable s' = durable s" "td_auto_commit drv s' = td_auto_commit drv s" "\<forall>st. r = Ok st \<longrightarrow> sql_of st = q"
      using quiet unfolding quiet_law_def by blast+
    then show "durable s' = d \<and> (\<forall>x. r = Ok x \<longrightarrow> R s' \<and> sql_of x = q)"
      using keep[OF R] RD[OF R] by metis
  qed
  have loop: "triple (\<lambda>w. R (w_db w) \<and> sql_of st = q) (execute_loop fuel drv env dl st) (\<lambda>_ w. Q (w_db w)) (\<lambda>w. durable (w_db w) = d)" for st
    using triple_execute_loop[of "\<lambda>s. R s \<and> sql_of st = q" drv st "\<lambda>s. durable s = d" Q] step RD by blast
  have keep_t: "R (td_set_timeouts drv t s)" if "R s" for t s
    using keep[OF that] quiet unfolding quiet_law_def by blast
  show ?thesis unfolding execute_def
    by (intro triple_seq[OF triple_now] triple_rules triple_seq[OF triple_set_timeouts] triple_seq[OF prep] loop keep_t RD)
qed


section \<open>The transaction protocol\<close>

abbreviation idle :: "('s, 'st) turso_driver \<Rightarrow> ('s \<Rightarrow> 'd) \<Rightarrow> 'd \<Rightarrow> 's \<Rightarrow> bool" where
  "idle drv durable d s \<equiv> durable s = d \<and> td_auto_commit drv s"

abbreviation in_transaction :: "('s, 'st) turso_driver \<Rightarrow> ('s \<Rightarrow> 'd) \<Rightarrow> 'd \<Rightarrow> 's \<Rightarrow> bool" where
  "in_transaction drv durable d s \<equiv> durable s = d \<and> \<not> td_auto_commit drv s"

lemma quiet_prepare:
  assumes "quiet_law drv sql_of durable staged" and "td_prepare drv q s = (s', r)"
  shows "durable s' = durable s" and "staged s' = staged s" and "td_auto_commit drv s' = td_auto_commit drv s"
    and "r = Ok st \<Longrightarrow> sql_of st = q"
  using assms unfolding quiet_law_def by blast+

lemma quiet_bind:
  assumes "quiet_law drv sql_of durable staged" and "td_bind drv st i v s = (s', r)"
  shows "durable s' = durable s" and "td_auto_commit drv s' = td_auto_commit drv s"
  using assms unfolding quiet_law_def by blast+

lemma quiet_timeouts:
  assumes "quiet_law drv sql_of durable staged"
  shows "durable (td_set_timeouts drv t s) = durable s" and "staged (td_set_timeouts drv t s) = staged s"
    and "td_auto_commit drv (td_set_timeouts drv t s) = td_auto_commit drv s"
  using assms unfolding quiet_law_def by blast+

lemma quiet_close: "quiet_law drv sql_of durable staged \<Longrightarrow> durable (td_close drv s) = durable s"
  unfolding quiet_law_def by blast

lemma quiet_connect:
  assumes "quiet_law drv sql_of durable staged" and "td_connect drv s = (s', r)"
  shows "durable s' = durable s" and "r = Ok u \<Longrightarrow> td_auto_commit drv s'"
  using assms unfolding quiet_law_def is_ok_iff by blast+

lemma step_pragma:
  assumes "step_law drv sql_of durable staged plain" and "td_step drv st s = (s', r)"
    and "sql_of st = ''PRAGMA foreign_keys=1'' \<or> sql_of st = ''PRAGMA query_only=1''" and "td_auto_commit drv s"
  shows "durable s' = durable s \<and> td_auto_commit drv s'"
  using assms unfolding step_law_def by blast

lemma step_begin:
  assumes "step_law drv sql_of durable staged plain" and "td_step drv st s = (s', r)"
    and "sql_of st = ''BEGIN''" and "td_auto_commit drv s"
  shows "durable s' = durable s \<and> (r = Ok Done \<longrightarrow> \<not> td_auto_commit drv s') \<and> (r = Ok Row \<longrightarrow> td_auto_commit drv s')"
  using assms unfolding step_law_def by blast

lemma step_rollback:
  assumes "step_law drv sql_of durable staged plain" and "td_step drv st s = (s', r)" and "sql_of st = ''ROLLBACK''"
  shows "durable s' = durable s"
  using assms unfolding step_law_def by blast

lemma step_plain:
  assumes "step_law drv sql_of durable staged plain" and "td_step drv st s = (s', r)"
    and "plain (sql_of st)" and "\<not> td_auto_commit drv s"
  shows "durable s' = durable s" and "r = Ok x \<Longrightarrow> \<not> td_auto_commit drv s'"
  using assms unfolding step_law_def is_ok_iff by blast+

lemma step_commit:
  assumes "step_law drv sql_of durable staged plain" and "td_step drv st s = (s', r)"
    and "sql_of st = ''COMMIT''" and "\<not> td_auto_commit drv s"
  shows "durable s' = durable s \<or> durable s' = staged s" and "r = Ok Done \<Longrightarrow> durable s' = staged s"
  using assms unfolding step_law_def by blast+

lemma triple_response:
  assumes D: "\<And>s. R s \<Longrightarrow> D s"
  shows "triple (\<lambda>w. R (w_db w)) (response env dl libs to_vec e names rows turso) (\<lambda>_ w. R (w_db w)) (\<lambda>w. D (w_db w))"
  unfolding response_def by (intro keep_rules triple_check D; assumption)

lemma triple_row_loop:
  assumes step: "\<And>s s' r. R s \<Longrightarrow> td_step drv st s = (s', r) \<Longrightarrow> D s' \<and> (\<forall>x. r = Ok x \<longrightarrow> R s')"
    and D: "\<And>s. R s \<Longrightarrow> D s"
  shows "triple (\<lambda>w. R (w_db w)) (row_loop n drv env dl max_rows final st rows) (\<lambda>_ w. R (w_db w)) (\<lambda>w. D (w_db w))"
proof (induction n arbitrary: rows)
  case 0
  then show ?case by (simp add: triple_def lift_def D)
next
  case (Suc n)
  have cells: "triple (\<lambda>w. R (w_db w)) (\<lambda>w. seq (lift (row_cells drv st (w_db w))) (\<lambda>cells.
      row_loop n drv env dl max_rows final st (rows @ [cells])) w) (\<lambda>_ w. R (w_db w)) (\<lambda>w. D (w_db w))"
    unfolding triple_def
  proof (intro allI impI)
    fix w :: "'a world" assume R: "R (w_db w)"
    have "triple (\<lambda>w. R (w_db w)) (seq (lift (row_cells drv st (w_db w))) (\<lambda>cells.
      row_loop n drv env dl max_rows final st (rows @ [cells]))) (\<lambda>_ w. R (w_db w)) (\<lambda>w. D (w_db w))"
      by (intro keep_rules Suc.IH D)
    then show "case seq (lift (row_cells drv st (w_db w))) (\<lambda>cells. row_loop n drv env dl max_rows final st (rows @ [cells])) w
        of (w', Ok x) \<Rightarrow> R (w_db w') | (w', _) \<Rightarrow> D (w_db w')"
      using R by (simp add: triple_def)
  qed
  have status: "triple (\<lambda>w. R (w_db w)) (case status of Done \<Rightarrow> ret rows
       | Row \<Rightarrow> if final then if max_rows \<le> length rows then fail row_limit
             else (\<lambda>w. seq (lift (row_cells drv st (w_db w))) (\<lambda>cells.
               row_loop n drv env dl max_rows final st (rows @ [cells])) w)
           else row_loop n drv env dl max_rows final st rows
       | Io \<Rightarrow> fail database_error_generic) (\<lambda>_ w. R (w_db w)) (\<lambda>w. D (w_db w))" for status
  proof (cases status)
    case Row
    show ?thesis unfolding Row turso_status.case by (intro triple_if triple_fail cells Suc.IH D)
  next
    case Done
    show ?thesis unfolding Done turso_status.case by (rule keep_ret)
  next
    case Io
    show ?thesis unfolding Io turso_status.case by (intro triple_fail D)
  qed
  show ?case unfolding row_loop.simps
    by (intro keep_seq triple_check triple_call status D step)
qed


lemma triple_bind_parameter:
  assumes quiet: "quiet_law drv sql_of durable staged"
  shows "triple (\<lambda>w. in_transaction drv durable d (w_db w)) (bind_parameter drv libs st p u)
    (\<lambda>_ w. in_transaction drv durable d (w_db w)) (\<lambda>w. durable (w_db w) = d)"
proof -
  have "triple (\<lambda>w. in_transaction drv durable d (w_db w)) (tcall drv (td_bind drv st i v))
    (\<lambda>_ w. in_transaction drv durable d (w_db w)) (\<lambda>w. durable (w_db w) = d)" for i v
    by (rule triple_call) (simp add: quiet_bind[OF quiet])
  then show ?thesis unfolding bind_parameter_def split_def by (intro keep_rules; blast)
qed

lemma triple_prepare:
  assumes quiet: "quiet_law drv sql_of durable staged"
  shows "triple (\<lambda>w. in_transaction drv durable d (w_db w)) (tcall drv (td_prepare drv q))
    (\<lambda>st w. in_transaction drv durable d (w_db w) \<and> sql_of st = q) (\<lambda>w. durable (w_db w) = d)"
  by (rule triple_call) (simp add: quiet_prepare[OF quiet])

lemma triple_statement_step:
  assumes quiet: "quiet_law drv sql_of durable staged" and law: "step_law drv sql_of durable staged plain"
    and plain: "plain (s_sql (fst (snd x)))"
  shows "triple (\<lambda>w. in_transaction drv durable d (w_db w)) (statement_step fuel drv libs env dl max_rows e x acc)
    (\<lambda>_ w. in_transaction drv durable d (w_db w)) (\<lambda>w. durable (w_db w) = d)"
proof -
  obtain i sq vs where x: "x = (i, sq, vs)" by (cases x)
  obtain names rows where acc: "acc = (names, rows)" by (cases acc)
  let ?T = "\<lambda>w. in_transaction drv durable d (w_db w)" and ?E = "\<lambda>w. durable (w_db w) = d"
  have loop: "triple ?T (row_loop fuel drv env dl max_rows final st rows) (\<lambda>_. ?T) ?E"
    if "sql_of st = s_sql sq" for final st rows
    by (rule triple_row_loop) (use that plain x in \<open>auto dest: step_plain[OF law]\<close>)
  have timeouts: "triple ?T (set_timeouts drv t) (\<lambda>_. ?T) ?E" for t
    by (rule triple_set_timeouts) (simp add: quiet_timeouts[OF quiet])
  have rest: "triple (\<lambda>w. ?T w \<and> sql_of st = s_sql sq)
      (seq (each_step (bind_parameter drv libs st) (enumerate 0 vs) ()) (\<lambda>_.
        let final = (i + 1 = length (e_statements e)) in
        seq (if final then lift (final_columns drv e st) else ret names) (\<lambda>names.
        seq (row_loop fuel drv env dl max_rows final st rows) (\<lambda>rows. ret (names, rows))))) (\<lambda>_. ?T) ?E" for st
  proof (cases "sql_of st = s_sql sq")
    case True
    then show ?thesis unfolding Let_def
      by (simp only: simp_thms) (intro keep_rules loop triple_bind_parameter[OF quiet]; simp)
  qed (simp add: triple_def)
  show ?thesis unfolding statement_step_def x acc split_conv
    by (intro keep_seq triple_seq[OF triple_prepare[OF quiet]] rest timeouts triple_remaining; simp)
qed

lemma triple_transaction_body:
  assumes quiet: "quiet_law drv sql_of durable staged" and law: "step_law drv sql_of durable staged plain"
    and plain: "\<forall>s \<in> set (e_statements e). plain (s_sql s)"
  shows "triple (\<lambda>w. idle drv durable d (w_db w)) (transaction_body fuel drv libs env dl max_rows e prep)
    (\<lambda>_ w. in_transaction drv durable d (w_db w)) (\<lambda>w. durable (w_db w) = d)"
proof -
  let ?I = "\<lambda>w. idle drv durable d (w_db w)" and ?T = "\<lambda>w. in_transaction drv durable d (w_db w)"
    and ?E = "\<lambda>w. durable (w_db w) = d"
  have pragma: "triple ?I (execute fuel drv env dl q) (\<lambda>_. ?I) ?E"
    if "q = ''PRAGMA foreign_keys=1'' \<or> q = ''PRAGMA query_only=1''" for q
    by (rule triple_execute[OF quiet]) (use that in \<open>auto dest: step_pragma[OF law]\<close>)
  have start: "triple ?I (execute fuel drv env dl ''BEGIN'') (\<lambda>_. ?T) ?E"
    by (rule triple_execute[OF quiet]) (auto dest: step_begin[OF law])
  have statements: "triple ?T (each_step (statement_step fuel drv libs env dl max_rows e)
       (enumerate 0 (zip (e_statements e) prep)) ([], [])) (\<lambda>_. ?T) ?E"
  proof (rule triple_each_step)
    fix x acc assume "x \<in> set (enumerate 0 (zip (e_statements e) prep))"
    then have "snd x \<in> set (zip (e_statements e) prep)" by (metis enumerate_eq_zip set_zip_rightD prod.collapse)
    then have "fst (snd x) \<in> set (e_statements e)" by (metis prod.collapse set_zip_leftD)
    then show "triple ?T (statement_step fuel drv libs env dl max_rows e x acc) (\<lambda>_. ?T) ?E"
      using triple_statement_step[OF quiet law] plain by blast
  qed
  show ?thesis unfolding transaction_body_def split_def
    by (intro keep_seq[OF pragma] keep_seq[OF triple_if[OF pragma keep_ret]] keep_seq[OF triple_check]
        triple_seq[OF start] triple_seq[OF statements] triple_response; simp)
qed

lemma triple_turso_cleanup:
  assumes quiet: "quiet_law drv sql_of durable staged" and law: "step_law drv sql_of durable staged plain"
  shows "triple (\<lambda>w. durable (w_db w) = d) (turso_cleanup fuel drv env)
    (\<lambda>_ w. durable (w_db w) = d) (\<lambda>w. durable (w_db w) = d)"
proof -
  let ?E = "\<lambda>w. durable (w_db w) = d"
  have rollback: "triple ?E (execute fuel drv env dl ''ROLLBACK'') (\<lambda>_. ?E) ?E" for dl
    by (rule triple_execute[OF quiet]) (auto dest: step_rollback[OF law])
  have undo: "triple ?E (attempt (execute fuel drv env dl ''ROLLBACK'') (\<lambda>r.
      case r of Ok _ \<Rightarrow> ret () | Err _ \<Rightarrow> fail cleanup_failed | Panic \<Rightarrow> lift Panic)) (\<lambda>_. ?E) ?E" for dl
    by (rule triple_attempt[OF rollback]) (simp_all add: triple_def ret_def fail_def lift_def)
  have check_end: "triple ?E (\<lambda>w. (if td_auto_commit drv (w_db w) then ret () else fail cleanup_failed) w) (\<lambda>_. ?E) ?E"
    by (simp add: triple_def ret_def fail_def)
  have main: "triple ?E (seq (if b then ret () else seq (now env) (\<lambda>t.
            if env_limit env < t + FIVE_SECONDS then lift Panic
            else attempt (execute fuel drv env (t + FIVE_SECONDS) ''ROLLBACK'') (\<lambda>r.
              case r of Ok _ \<Rightarrow> ret () | Err _ \<Rightarrow> fail cleanup_failed | Panic \<Rightarrow> lift Panic)))
       (\<lambda>_ w. (if td_auto_commit drv (w_db w) then ret () else fail cleanup_failed) w)) (\<lambda>_. ?E) ?E" for b
    by (intro keep_seq check_end triple_if undo keep_ret keep_lift triple_now)
  show ?thesis unfolding triple_def turso_cleanup_def
    by (intro allI impI) (rule main[unfolded triple_def, rule_format])
qed


text \<open>
  How a request may end: with success exactly when what its statements staged has become
  durable, with the durable state untouched on any error, and with the unknown-outcome error
  when a commit was tried and not confirmed.
\<close>

definition atomic_end ::
  "('s \<Rightarrow> 'd) \<Rightarrow> 'd \<Rightarrow> (string \<Rightarrow> 'd \<Rightarrow> bool) \<Rightarrow> 's world \<times> string result \<Rightarrow> bool" where
  "atomic_end durable before staged_by =
     (\<lambda>(w', r). case r of
        Ok bytes \<Rightarrow> staged_by bytes (durable (w_db w'))
      | Err x \<Rightarrow> durable (w_db w') = before
          \<or> (err_code x = ''commit_outcome_unknown'' \<and> (\<exists>bytes. staged_by bytes (durable (w_db w'))))
      | Panic \<Rightarrow> durable (w_db w') = before \<or> (\<exists>bytes. staged_by bytes (durable (w_db w'))))"

lemma triple_unchanged:
  assumes "triple P f (\<lambda>_. P) (\<lambda>w. durable (w_db w) = d)" and "\<And>w. P w \<Longrightarrow> durable (w_db w) = d" and "P w"
  shows "durable (w_db (fst (f w))) = d"
proof -
  obtain w' r where r: "f w = (w', r)" by force
  show ?thesis using tripleD_Ok[OF assms(1,3)] tripleD_Err[OF assms(1,3)] tripleD_Panic[OF assms(1,3)] assms(2) r
    by (cases r) auto
qed

lemma commit_step_atomic:
  assumes quiet: "quiet_law drv sql_of durable staged" and law: "step_law drv sql_of durable staged plain"
    and st: "sql_of st = ''COMMIT''" and w: "in_transaction drv durable d (w_db w)"
    and made: "S bytes (staged (w_db w))"
  shows "atomic_end durable d S (commit_step fuel drv env st bytes w)"
proof -
  obtain s r where s: "td_step drv st (w_db w) = (s, r)" by force
  note commit = step_commit[OF law s st] 
  have d: "durable s = d \<or> durable s = staged (w_db w)" using commit(1) w by auto
  show ?thesis
  proof (cases "r = Ok Done")
    case True
    then show ?thesis using commit(2) w s made by (simp add: commit_step_def atomic_end_def ret_def)
  next
    case False
    let ?w = "w\<lparr>w_db := s\<rparr>"
    obtain w' c where c: "turso_cleanup fuel drv env ?w = (w', c)" by force
    have "durable (w_db (fst (turso_cleanup fuel drv env ?w))) = durable s"
      by (rule triple_unchanged[OF triple_turso_cleanup[OF quiet law]]) simp_all
    then have w': "durable (w_db w') = d \<or> durable (w_db w') = staged (w_db w)" using c d by simp
    have "commit_step fuel drv env st bytes w = (w', if c = Panic \<or> r = Panic then Panic
        else Err (with_diagnostic ''turso'' (td_debug_result drv r) commit_unknown))"
      using s c False by (simp add: commit_step_def attempt_def lift_def fail_def split: outcome.splits turso_status.splits)
    then show ?thesis using w' made by (auto simp: atomic_end_def commit_unknown_def)
  qed
qed

lemma cleanup_then_fail_atomic:
  assumes quiet: "quiet_law drv sql_of durable staged" and law: "step_law drv sql_of durable staged plain"
    and w: "durable (w_db w) = d"
  shows "atomic_end durable d S (cleanup_then_fail fuel drv env x w)"
proof -
  have "durable (w_db (fst (turso_cleanup fuel drv env w))) = d"
    by (rule triple_unchanged[OF triple_turso_cleanup[OF quiet law]]) (use w in simp_all)
  then show ?thesis
    by (auto simp: cleanup_then_fail_def seq_def fail_def atomic_end_def split: prod.splits outcome.splits)
qed

lemma check_keeps_db: "w_db (fst (check env dl w)) = w_db w"
  by (simp add: check_def)

text \<open>The same facts with the staged state, which the preparation of the commit leaves alone.\<close>

lemma triple_prepare_commit:
  assumes quiet: "quiet_law drv sql_of durable staged"
  shows "triple (\<lambda>w. in_transaction drv durable d (w_db w) \<and> staged (w_db w) = p) (prepare_commit drv env dl)
    (\<lambda>st w. (in_transaction drv durable d (w_db w) \<and> staged (w_db w) = p) \<and> sql_of st = ''COMMIT'')
    (\<lambda>w. durable (w_db w) = d)"
proof -
  let ?R = "\<lambda>s. in_transaction drv durable d s \<and> staged s = p"
  have prep: "triple (\<lambda>w. ?R (w_db w)) (tcall drv (td_prepare drv ''COMMIT''))
      (\<lambda>st w. ?R (w_db w) \<and> sql_of st = ''COMMIT'') (\<lambda>w. durable (w_db w) = d)"
    by (rule triple_call) (simp add: quiet_prepare[OF quiet])
  have timeouts: "triple (\<lambda>w. ?R (w_db w)) (set_timeouts drv t) (\<lambda>_ w. ?R (w_db w)) (\<lambda>w. durable (w_db w) = d)" for t
    by (rule triple_set_timeouts) (simp add: quiet_timeouts[OF quiet])
  have last: "triple (\<lambda>w. ?R (w_db w) \<and> sql_of st = ''COMMIT'') (seq (check env dl) (\<lambda>_. ret st))
      (\<lambda>st w. ?R (w_db w) \<and> sql_of st = ''COMMIT'') (\<lambda>w. durable (w_db w) = d)" for st
    using triple_seq[OF triple_check[of "\<lambda>s. ?R s \<and> sql_of st = ''COMMIT''" "\<lambda>s. durable s = d" env dl]] triple_ret
    by (simp add: triple_def check_def ret_def seq_def)
  show ?thesis unfolding prepare_commit_def
    by (intro keep_seq[OF triple_remaining] keep_seq[OF timeouts] triple_seq[OF prep] last; simp)
qed

lemma transaction_atomic:
  assumes quiet: "quiet_law drv sql_of durable staged" and law: "step_law drv sql_of durable staged plain"
    and plain: "\<forall>s \<in> set (e_statements e). plain (s_sql s)" and w: "idle drv durable d (w_db w)"
  shows "atomic_end durable d
    (\<lambda>bytes x. \<exists>w1. transaction_body fuel drv libs env dl max_rows e prep w = (w1, Ok bytes) \<and> x = staged (w_db w1))
    (transaction fuel drv libs env dl max_rows e prep w)"
    (is "atomic_end _ _ ?S _")
proof -
  note tb = triple_transaction_body[OF quiet law plain, of d fuel libs env dl max_rows prep]
  obtain w1 r where r: "transaction_body fuel drv libs env dl max_rows e prep w = (w1, r)" by force
  obtain w2 c where c: "check env dl w1 = (w2, c)" by force
  then have w2: "w_db w2 = w_db w1" using check_keeps_db[of env dl w1] by simp
  show ?thesis
  proof (cases r)
    case (Ok bytes)
    then have w1: "in_transaction drv durable d (w_db w1)" using tripleD_Ok[OF tb] w r by blast
    show ?thesis
    proof (cases c)
      case cOk: (Ok u)
      obtain w3 p where p: "prepare_commit drv env dl w2 = (w3, p)" by force
      note pc = triple_prepare_commit[OF quiet, of d "staged (w_db w1)" env dl]
      show ?thesis
      proof (cases p)
        case pOk: (Ok st)
        have "(in_transaction drv durable d (w_db w3) \<and> staged (w_db w3) = staged (w_db w1)) \<and> sql_of st = ''COMMIT''"
          by (rule tripleD_Ok[OF pc]) (use w1 w2 p pOk in auto)
        then have "atomic_end durable d ?S (commit_step fuel drv env st bytes w3)"
          using commit_step_atomic[OF quiet law, where w = w3 and d = d and S = ?S and bytes = bytes] r Ok by auto
        then show ?thesis using r Ok c cOk p pOk by (simp add: transaction_def attempt_def)
      next
        case (Err x)
        have "durable (w_db w3) = d" by (rule tripleD_Err[OF pc]) (use w1 w2 p Err in auto)
        then show ?thesis using cleanup_then_fail_atomic[OF quiet law, of w3] r Ok c cOk p Err
          by (simp add: transaction_def attempt_def)
      next
        case Panic
        have "durable (w_db w3) = d" by (rule tripleD_Panic[OF pc]) (use w1 w2 p Panic in auto)
        then show ?thesis using r Ok c cOk p Panic by (simp add: transaction_def attempt_def lift_def atomic_end_def)
      qed
    next
      case (Err x)
      then show ?thesis using cleanup_then_fail_atomic[OF quiet law, of w2] r Ok c w1 w2
        by (simp add: transaction_def attempt_def)
    next
      case Panic
      then show ?thesis using c by (simp add: check_def split: if_splits)
    qed
  next
    case (Err x)
    then have "durable (w_db w2) = d" using tripleD_Err[OF tb, of w w1 x] w r w2 by simp
    then show ?thesis using cleanup_then_fail_atomic[OF quiet law, of w2] r Err c
      by (simp add: transaction_def attempt_def)
  next
    case Panic
    then have "durable (w_db w1) = d" using tripleD_Panic[OF tb, of w w1] w r by simp
    then show ?thesis using r Panic by (simp add: transaction_def attempt_def lift_def atomic_end_def)
  qed
qed

lemma atomic_end_mono: "atomic_end durable d S e \<Longrightarrow> (\<And>b x. S b x \<Longrightarrow> S' b x) \<Longrightarrow> atomic_end durable d S' e"
  by (cases e; cases "snd e") (auto simp: atomic_end_def; blast)+

lemma atomic_end_close:
  assumes quiet: "quiet_law drv sql_of durable staged" and "atomic_end durable d S (f w)"
  shows "atomic_end durable d S (close_after drv f w)"
  using assms(2) quiet_close[OF quiet] by (auto simp: close_after_def atomic_end_def split: prod.splits outcome.splits)

lemma request_atomic:
  assumes quiet: "quiet_law drv sql_of durable staged" and law: "step_law drv sql_of durable staged plain"
    and plain: "\<forall>s \<in> set (e_statements e). plain (s_sql s)"
  shows "atomic_end durable (durable (w_db w))
    (\<lambda>bytes x. \<exists>w0 w1. transaction_body fuel drv libs env dl max_rows e prep w0 = (w1, Ok bytes)
        \<and> durable (w_db w0) = durable (w_db w) \<and> x = staged (w_db w1))
    (request fuel drv libs env dl max_rows e prep w)"
    (is "atomic_end _ ?d ?S _")
proof -
  obtain w1 r1 where r1: "check env dl w = (w1, r1)" by force
  then have w1: "w_db w1 = w_db w" using check_keeps_db[of env dl w] by simp
  obtain s2 r2 where r2: "td_connect drv (w_db w1) = (s2, r2)" by force
  let ?w2 = "w1\<lparr>w_db := s2\<rparr>"
  have s2: "durable s2 = ?d" "r2 = Ok u \<Longrightarrow> td_auto_commit drv s2" for u
    using quiet_connect[OF quiet r2] w1 by auto
  let ?f = "seq (check env dl) (\<lambda>_. transaction fuel drv libs env dl max_rows e prep)"
  have f: "atomic_end durable ?d ?S (?f ?w2)" if "r2 = Ok u" for u
  proof -
    obtain w3 r3 where r3: "check env dl ?w2 = (w3, r3)" by force
    then have w3: "w_db w3 = s2" using check_keeps_db[of env dl ?w2] by simp
    show ?thesis
    proof (cases r3)
      case (Ok v)
      have "atomic_end durable ?d ?S (transaction fuel drv libs env dl max_rows e prep w3)"
        by (rule atomic_end_mono[OF transaction_atomic[OF quiet law plain]]) (use s2 that w3 in auto)
      then show ?thesis using r3 Ok by (simp add: seq_def)
    qed (use r3 w3 s2 in \<open>auto simp: seq_def atomic_end_def\<close>)
  qed
  show ?thesis
  proof (cases r1)
    case (Ok u)
    show ?thesis
    proof (cases r2)
      case rOk: (Ok v)
      have "request fuel drv libs env dl max_rows e prep w = close_after drv ?f ?w2"
        using r1 Ok r2 rOk by (simp add: request_def seq_def call_def)
      then show ?thesis using atomic_end_close[OF quiet, where f = ?f and w = ?w2, OF f[OF rOk]] by simp
    qed (use r1 Ok r2 s2 in \<open>auto simp: request_def seq_def call_def atomic_end_def\<close>)
  qed (use r1 w1 in \<open>auto simp: request_def seq_def atomic_end_def\<close>)
qed


section \<open>Requests end\<close>

lemma turso_bind_value_total: "Type_check ty v \<Longrightarrow> turso_bind_value to_text ty v \<noteq> Panic"
proof (induction ty)
  case Float64_T
  then show ?case by (auto simp: turso_bind_value.simps[of _ Float64_T] outcome_simps split: option.splits)
qed (auto simp: turso_bind_value.simps[of _ String_T] turso_bind_value.simps[of _ Boolean_T]
    turso_bind_value.simps[of _ Int64_T] turso_bind_value.simps[of _ "Array_T _"]
    turso_bind_value.simps[of _ "Nullable_T _"] outcome_simps)

text \<open>
  The calls of the SDK return, and the clock advances: from the \<open>K\<close>th observation on the
  deadline has passed, and \<open>K\<close> observations take at least the five seconds of a cleanup.
\<close>

definition sdk_returns :: "('s, 'st) turso_driver \<Rightarrow> bool" where
  "sdk_returns drv \<longleftrightarrow>
     (\<forall>s. snd (td_connect drv s) \<noteq> Panic) \<and> (\<forall>q s. snd (td_prepare drv q s) \<noteq> Panic) \<and>
     (\<forall>st i v s. snd (td_bind drv st i v s) \<noteq> Panic) \<and> (\<forall>st s. snd (td_step drv st s) \<noteq> Panic) \<and>
     (\<forall>st i. td_column_name drv st i \<noteq> Panic) \<and> (\<forall>st s i. td_row_value drv st s i \<noteq> Panic)"

lemma sdk_simps:
  assumes "sdk_returns drv"
  shows "snd (td_connect drv s) \<noteq> Panic" "snd (td_prepare drv q s) \<noteq> Panic" "snd (td_bind drv st i v s) \<noteq> Panic"
    "snd (td_step drv st s) \<noteq> Panic" "td_column_name drv st i \<noteq> Panic" "td_row_value drv st s i \<noteq> Panic"
  using assms unfolding sdk_returns_def by blast+

definition clock_advances :: "env \<Rightarrow> nat \<Rightarrow> nat \<Rightarrow> bool" where
  "clock_advances env K deadline \<longleftrightarrow>
     (\<forall>n \<ge> K. deadline \<le> env_now env n) \<and> (\<forall>m. \<forall>n \<ge> m + K. env_now env m + FIVE_SECONDS \<le> env_now env n)"

text \<open>The one way left to panic: the clock is about to leave the representable instants.\<close>

definition clock_overflow :: "env \<Rightarrow> nat \<Rightarrow> bool" where
  "clock_overflow env seen \<longleftrightarrow> (\<exists>n < seen. env_limit env < env_now env n + FIVE_SECONDS)"

definition ends :: "env \<Rightarrow> ('s world, 'a) action \<Rightarrow> bool" where
  "ends env f \<longleftrightarrow> (\<forall>w w'. f w = (w', Panic) \<longrightarrow> clock_overflow env (w_seen w'))"

lemma ends_seq: "ends env f \<Longrightarrow> (\<And>x. ends env (g x)) \<Longrightarrow> ends env (seq f g)"
  unfolding ends_def seq_def by (fastforce split: prod.splits outcome.splits)

lemma ends_each_step: "(\<And>x acc. x \<in> set xs \<Longrightarrow> ends env (f x acc)) \<Longrightarrow> ends env (each_step f xs acc)"
proof (induction xs arbitrary: acc)
  case (Cons x xs)
  then have "ends env (f x acc)" "ends env (each_step f xs a)" for a by simp_all
  then show ?case by (simp add: ends_seq)
qed (simp add: ends_def ret_def)

lemma ends_simple:
  "ends env (ret x)" "ends env (fail e)" "ends env (check env' dl)" "ends env (now env')" "ends env (set_timeouts drv d)"
  by (simp_all add: ends_def ret_def fail_def check_def now_def set_timeouts_def)

lemma ends_lift: "r \<noteq> Panic \<Longrightarrow> ends env (lift r)"
  by (simp add: ends_def lift_def)

lemma ends_if: "(b \<Longrightarrow> ends env f) \<Longrightarrow> (\<not> b \<Longrightarrow> ends env g) \<Longrightarrow> ends env (if b then f else g)"
  by simp

lemmas ends_rules = ends_seq ends_each_step ends_simple ends_if

lemma ends_remaining: "ends env (remaining env' dl)"
  unfolding remaining_def by (intro ends_rules)

lemma ends_call: "(\<And>s. snd (f s) \<noteq> Panic) \<Longrightarrow> ends env (call conv f)"
  by (simp add: ends_def call_def split_def outcome_simps)

lemma ends_fails_well: "fails_well f \<Longrightarrow> ends env f"
  unfolding ends_def fails_well_def
proof (intro allI impI)
  fix w w' assume "\<forall>w. case snd (f w) of Ok _ \<Rightarrow> True | Err x \<Rightarrow> response_error x | Panic \<Rightarrow> False" and "f w = (w', Panic)"
  from spec[OF this(1), of w] this(2) show "clock_overflow env (w_seen w')" by simp
qed

text \<open>A loop that is out of fuel has looked at the clock once per round, before the deadline.\<close>

lemma execute_loop_out:
  assumes "sdk_returns drv" and "execute_loop fuel drv env dl st w = (w', Panic)" and "k < fuel"
  shows "env_now env (w_seen w + k) < dl"
  using assms(2,3)
proof (induction fuel arbitrary: w k)
  case (Suc n)
  obtain s r where s: "td_step drv st (w_db w) = (s, r)" by force
  have "r \<noteq> Panic" using sdk_simps(4)[OF assms(1), of st "w_db w"] s by simp
  then have "r = Ok Row" using Suc.prems(1) s
    by (cases r) (auto simp: ret_def fail_def seq_def now_def split: turso_status.splits)
  then have now: "env_now env (w_seen w) < dl"
    and rest: "execute_loop n drv env dl st (w\<lparr>w_db := s, w_seen := Suc (w_seen w)\<rparr>) = (w', Panic)"
    using Suc.prems(1) s by (auto simp: seq_def now_def fail_def split: if_splits)
  show ?case
  proof (cases k)
    case (Suc j)
    then show ?thesis using Suc.IH[OF rest, of j] Suc.prems(2) by simp
  qed (use now in simp)
qed simp

lemma row_loop_out:
  assumes sdk: "sdk_returns drv" and "row_loop fuel drv env dl max_rows final st rows w = (w', Panic)" and "k < fuel"
  shows "env_now env (w_seen w + k) < dl"
  using assms(2,3)
proof (induction fuel arbitrary: w k rows)
  case (Suc n)
  let ?w1 = "w\<lparr>w_seen := Suc (w_seen w)\<rparr>"
  obtain s r where s: "td_step drv st (w_db w) = (s, r)" by force
  let ?w2 = "?w1\<lparr>w_db := s\<rparr>"
  have step: "r \<noteq> Panic" using sdk_simps(4)[OF sdk, of st "w_db w"] s by simp
  have cells: "row_cells drv st s \<noteq> Panic" for s unfolding row_cells_def
    by (rule try_map_not_Panic) (use sdk_simps(6)[OF sdk] in \<open>auto simp: outcome_simps elim: turso_cell.elims\<close>)
  have now: "env_now env (w_seen w) < dl" and check: "check env dl w = (?w1, Ok ())"
    using Suc.prems(1) by (auto simp: seq_def check_def split: if_splits)
  have r: "r = Ok Row" using Suc.prems(1) s step check
    by (cases r) (auto simp: seq_def call_def ret_def fail_def split: turso_status.splits)
  have "\<exists>rows'. row_loop n drv env dl max_rows final st rows' ?w2 = (w', Panic)"
  proof (cases final)
    case True
    then have "seq (lift (row_cells drv st s)) (\<lambda>cells. row_loop n drv env dl max_rows final st (rows @ [cells])) ?w2 = (w', Panic)"
      using Suc.prems(1) s r check by (auto simp: seq_def[of "check _ _"] seq_def[of "call _ _"] call_def fail_def split: if_splits)
    then show ?thesis using cells[of s] by (cases "row_cells drv st s") (auto simp: seq_def lift_def)
  next
    case False
    then show ?thesis using Suc.prems(1) s r check by (auto simp: seq_def call_def)
  qed
  then obtain rows' where rest: "row_loop n drv env dl max_rows final st rows' ?w2 = (w', Panic)" by blast
  show ?case
  proof (cases k)
    case (Suc j)
    then show ?thesis using Suc.IH[OF rest, of j] Suc.prems(2) by simp
  qed (use now in simp)
qed simp


text \<open>\<open>d\<close> is reached within \<open>K\<close> observations of any start.\<close>

lemma ends_execute_loop:
  assumes sdk: "sdk_returns drv" and fuel: "K < fuel" and late: "\<forall>n \<ge> K. d \<le> env_now env n"
  shows "ends env (execute_loop fuel drv env d st)"
  unfolding ends_def
proof (intro allI impI)
  fix w w' assume "execute_loop fuel drv env d st w = (w', Panic)"
  from execute_loop_out[OF sdk this fuel] late show "clock_overflow env (w_seen w')"
    by (meson le_add2 not_le)
qed

lemma ends_row_loop:
  assumes sdk: "sdk_returns drv" and fuel: "K < fuel" and late: "\<forall>n \<ge> K. d \<le> env_now env n"
  shows "ends env (row_loop fuel drv env d max_rows final st rows)"
  unfolding ends_def
proof (intro allI impI)
  fix w w' assume "row_loop fuel drv env d max_rows final st rows w = (w', Panic)"
  from row_loop_out[OF sdk this fuel] late show "clock_overflow env (w_seen w')"
    by (meson le_add2 not_le)
qed

lemma ends_execute:
  assumes sdk: "sdk_returns drv" and "K < fuel" and "\<forall>n \<ge> K. d \<le> env_now env n"
  shows "ends env (execute fuel drv env d q)"
  unfolding execute_def
  by (intro ends_rules ends_call sdk_simps[OF sdk] ends_execute_loop[OF assms])

lemma cleanup_execute_returns:
  assumes sdk: "sdk_returns drv" and fuel: "K < fuel"
    and late: "\<forall>n \<ge> w_seen w + K. d \<le> env_now env n"
  shows "snd (execute fuel drv env d q w) \<noteq> Panic"
proof
  assume "snd (execute fuel drv env d q w) = Panic"
  then obtain w' where p: "execute fuel drv env d q w = (w', Panic)" by (metis prod.collapse)
  let ?w1 = "w\<lparr>w_seen := Suc (w_seen w)\<rparr>"
  let ?w2 = "?w1\<lparr>w_db := td_set_timeouts drv (d - env_now env (w_seen w)) (w_db w)\<rparr>"
  obtain s r where s: "td_prepare drv q (w_db ?w2) = (s, r)" by force
  then have "r \<noteq> Panic" using sdk_simps(2)[OF sdk, of q "w_db ?w2"] by simp
  then obtain st where "execute_loop fuel drv env d st (?w2\<lparr>w_db := s\<rparr>) = (w', Panic)"
    using p s by (cases r) (auto simp: execute_def seq_def now_def set_timeouts_def call_def fail_def split: if_splits)
  from execute_loop_out[OF sdk this fuel] show False using late[rule_format, of "Suc (w_seen w + K)"] by simp
qed

lemma ends_turso_cleanup:
  assumes sdk: "sdk_returns drv" and fuel: "K < fuel" and clock: "clock_advances env K dl"
  shows "ends env (turso_cleanup fuel drv env)"
  unfolding ends_def
proof (intro allI impI)
  fix w w' :: "'a world" assume p: "turso_cleanup fuel drv env w = (w', Panic)"
  let ?t = "env_now env (w_seen w)" and ?w1 = "w\<lparr>w_seen := Suc (w_seen w)\<rparr>"
  have auto: "\<not> td_auto_commit drv (w_db w)"
    using p by (auto simp: turso_cleanup_def seq_def ret_def fail_def split: if_splits)
  show "clock_overflow env (w_seen w')"
  proof (cases "env_limit env < ?t + FIVE_SECONDS")
    case True
    then have "w' = ?w1" using p auto by (simp add: turso_cleanup_def seq_def now_def lift_def)
    then show ?thesis using True unfolding clock_overflow_def by auto
  next
    case False
    obtain w2 r where e: "execute fuel drv env (?t + FIVE_SECONDS) ''ROLLBACK'' ?w1 = (w2, r)" by force
    have "r = Panic"
    proof (cases r)
      case (Ok u)
      then show ?thesis using p auto False e
        by (auto simp: turso_cleanup_def seq_def now_def attempt_def ret_def fail_def split: if_splits)
    next
      case (Err x)
      then show ?thesis using p auto False e
        by (auto simp: turso_cleanup_def seq_def now_def attempt_def fail_def)
    qed
    moreover have "snd (execute fuel drv env (?t + FIVE_SECONDS) ''ROLLBACK'' ?w1) \<noteq> Panic"
      using clock unfolding clock_advances_def by (intro cleanup_execute_returns[OF sdk fuel]) auto
    ultimately show ?thesis using e by simp
  qed
qed

definition values_typed :: "prepared \<Rightarrow> bool" where
  "values_typed prep \<longleftrightarrow> list_all (list_all (\<lambda>b. Type_check (bv_ty b) (bv_value b))) prep"

lemma snd_enumerate_zip:
  assumes "x \<in> set (enumerate n (zip ss prep))"
  shows "fst (snd x) \<in> set ss" and "snd (snd x) \<in> set prep"
proof -
  have "snd x \<in> set (zip ss prep)" using assms by (metis enumerate_eq_zip set_zip_rightD prod.collapse)
  then show "fst (snd x) \<in> set ss" and "snd (snd x) \<in> set prep"
    by (metis prod.collapse set_zip_leftD, metis prod.collapse set_zip_rightD)
qed

lemma final_columns_not_Panic: "sdk_returns drv \<Longrightarrow> final_columns drv e st \<noteq> Panic"
  by (auto simp: final_columns_def outcome_simps check_columns_def sdk_simps intro!: try_map_not_Panic)

lemma ends_statement_step:
  assumes sdk: "sdk_returns drv" and fuel: "K < fuel" and late: "\<forall>n \<ge> K. dl \<le> env_now env n"
    and typed: "list_all (\<lambda>b. Type_check (bv_ty b) (bv_value b)) (snd (snd x))"
  shows "ends env (statement_step fuel drv libs env dl max_rows e x acc)"
proof -
  obtain i sq vs where x: "x = (i, sq, vs)" by (cases x)
  obtain names rows where acc: "acc = (names, rows)" by (cases acc)
  have bind: "ends env (bind_parameter drv libs st p u)" if "p \<in> set (enumerate 0 vs)" for st p u
  proof -
    have "snd p \<in> set vs" using that by (metis enumerate_eq_zip set_zip_rightD prod.collapse)
    then have "turso_bind (rl_to_text libs) (snd p) \<noteq> Panic"
      using typed x turso_bind_value_total by (simp add: turso_bind_def list_all_iff)
    then show ?thesis unfolding bind_parameter_def split_def
      by (intro ends_rules ends_lift ends_call sdk_simps[OF sdk])
  qed
  show ?thesis unfolding statement_step_def x acc split_conv Let_def
    by (intro ends_rules ends_remaining ends_call sdk_simps[OF sdk] bind ends_lift final_columns_not_Panic[OF sdk]
        ends_row_loop[OF sdk fuel late])
qed

lemma ends_transaction_body:
  assumes sdk: "sdk_returns drv" and fuel: "K < fuel" and late: "\<forall>n \<ge> K. dl \<le> env_now env n"
    and typed: "values_typed prep"
  shows "ends env (transaction_body fuel drv libs env dl max_rows e prep)"
proof -
  have statement: "ends env (statement_step fuel drv libs env dl max_rows e x acc)"
    if "x \<in> set (enumerate 0 (zip (e_statements e) prep))" for x acc
    using snd_enumerate_zip(2)[OF that] typed
    by (intro ends_statement_step[OF sdk fuel late]) (simp add: values_typed_def list_all_iff)
  show ?thesis unfolding transaction_body_def split_def
    by (intro ends_rules ends_execute[OF sdk fuel late] statement ends_fails_well[OF response_fails_well])
qed

lemma ends_attempt:
  assumes "ends env f" and "\<And>x. ends env (k (Ok x))" and "\<And>e. ends env (k (Err e))" and "\<And>w. k Panic w = (w, Panic)"
  shows "ends env (attempt f k)"
  unfolding ends_def
proof (intro allI impI)
  fix w w' assume a: "attempt f k w = (w', Panic)"
  obtain w1 r where r: "f w = (w1, r)" by force
  show "clock_overflow env (w_seen w')"
    using a r assms unfolding ends_def attempt_def by (cases r) auto
qed

lemma ends_transaction:
  fixes drv :: "('a, 'st) turso_driver"
  assumes sdk: "sdk_returns drv" and fuel: "K < fuel" and clock: "clock_advances env K dl" and typed: "values_typed prep"
  shows "ends env (transaction fuel drv libs env dl max_rows e prep)"
proof -
  have late: "\<forall>n \<ge> K. dl \<le> env_now env n" using clock by (simp add: clock_advances_def)
  note cleanup = ends_turso_cleanup[OF sdk fuel clock]
  have c: "ends env (cleanup_then_fail fuel drv env x :: ('a world, string) action)" for x
    unfolding cleanup_then_fail_def by (intro ends_rules cleanup)
  have s: "ends env (commit_step fuel drv env st bytes)" for st bytes
    unfolding ends_def
  proof (intro allI impI)
    fix w w' :: "'a world" assume p: "commit_step fuel drv env st bytes w = (w', Panic)"
    obtain s r where s: "td_step drv st (w_db w) = (s, r)" by force
    then have "r \<noteq> Panic" using sdk_simps(4)[OF sdk, of st "w_db w"] by simp
    then have "turso_cleanup fuel drv env (w\<lparr>w_db := s\<rparr>) = (w', Panic)" using p s
      by (cases "turso_cleanup fuel drv env (w\<lparr>w_db := s\<rparr>)")
        (auto simp: commit_step_def ret_def attempt_def fail_def lift_def split: outcome.splits turso_status.splits if_splits)
    then show "clock_overflow env (w_seen w')" using cleanup by (simp add: ends_def)
  qed
  have p: "ends env (prepare_commit drv env dl)"
    unfolding prepare_commit_def by (intro ends_rules ends_remaining ends_call sdk_simps[OF sdk])
  have k: "ends env (attempt (check env dl) (\<lambda>r. cleanup_then_fail fuel drv env (case r of Err original \<Rightarrow> original | _ \<Rightarrow> x))
      :: ('a world, string) action)" for x
    unfolding ends_def
  proof (intro allI impI)
    fix w w' :: "'a world"
    assume "(attempt (check env dl) (\<lambda>r. cleanup_then_fail fuel drv env (case r of Err original \<Rightarrow> original | _ \<Rightarrow> x))
        :: ('a world, string) action) w = (w', Panic)"
    moreover obtain w1 r where "check env dl w = (w1, r)" by force
    ultimately have "(cleanup_then_fail fuel drv env (case r of Err original \<Rightarrow> original | _ \<Rightarrow> x)
        :: ('a world, string) action) w1 = (w', Panic)"
      by (simp add: attempt_def)
    then show "clock_overflow env (w_seen w')" using c unfolding ends_def by blast
  qed
  show ?thesis unfolding transaction_def
    apply (rule ends_attempt[OF ends_transaction_body[OF sdk fuel late typed]])
      apply (simp_all add: k lift_def)
    apply (rule ends_attempt[OF ends_simple(3)], simp_all add: c lift_def)
    apply (rule ends_attempt[OF p], simp_all add: c s lift_def)
    done
qed

lemma ends_request:
  fixes drv :: "('a, 'st) turso_driver"
  assumes sdk: "sdk_returns drv" and fuel: "K < fuel" and clock: "clock_advances env K dl" and typed: "values_typed prep"
  shows "ends env (request fuel drv libs env dl max_rows e prep)"
proof -
  have close: "ends env (close_after drv f)" if "ends env f" for f :: "('a world, string) action"
    using that by (auto simp: ends_def close_after_def split: prod.splits)
  show ?thesis unfolding request_def
    by (intro ends_rules ends_call close sdk_simps[OF sdk] ends_transaction[OF assms])
qed


section \<open>Properties\<close>

text \<open>
  C7: a Turso request is atomic. It reports success exactly with what its statements staged made
  durable; it reports an error with the durable state untouched, except that a commit which was tried
  and not confirmed is reported as \<open>commit_outcome_unknown\<close>.
\<close>

theorem turso_request_atomic:
  assumes "quiet_law drv sql_of durable staged" and "step_law drv sql_of durable staged plain"
    and "\<forall>s \<in> set (e_statements e). plain (s_sql s)"
  shows "atomic_end durable (durable (w_db w))
    (\<lambda>bytes x. \<exists>w0 w1. transaction_body fuel drv libs env dl max_rows e prep w0 = (w1, Ok bytes)
        \<and> durable (w_db w0) = durable (w_db w) \<and> x = staged (w_db w1))
    (request fuel drv libs env dl max_rows e prep w)"
  using assms by (rule request_atomic)

text \<open>
  C29: a Turso request ends: when the calls of the SDK return, the clock advances past the deadline and
  the values have their declared types, a number of rounds beyond the observations the clock needs is
  enough for every loop, and nothing panics unless the clock leaves the representable instants.
\<close>

theorem turso_request_returns:
  assumes "sdk_returns drv" and "clock_advances env K dl" and "K < fuel" and "values_typed prep"
    and "\<not> clock_overflow env (w_seen (fst (request fuel drv libs env dl max_rows e prep w)))"
  shows "snd (request fuel drv libs env dl max_rows e prep w) \<noteq> Panic"
  using ends_request[OF assms(1,3,2,4), of libs max_rows e] assms(5) unfolding ends_def
  by (metis prod.collapse)

text \<open>the supervisor of a request reports what its worker did: nothing touches the database when the
  worker never ran, a finished worker's result is passed on unchanged, and a panicking worker becomes
  \<open>execution_task_failed\<close>, so that a request itself never panics.
\<close>

theorem turso_run_request_outcome:
  "case turso_run_request fate fuel drv libs env dl max_rows e prep w of (w', r) \<Rightarrow>
     (case fate of
        Ran alive \<Rightarrow>
          (case worker alive fuel drv libs env dl max_rows e prep w of (w1, r1) \<Rightarrow>
             w' = w1 \<and> r = (if r1 = Panic then Err (task_failed ''Database worker failed'') else r1))
      | _ \<Rightarrow> w_db w' = w_db w \<and> r \<in> {Err request_cancelled, Err timeout_error})"
proof (cases fate)
  case (Ran alive)
  obtain w1 r1 where "worker alive fuel drv libs env dl max_rows e prep w = (w1, r1)" by force
  then show ?thesis using Ran by (cases r1) (simp_all add: turso_run_request_def attempt_def fail_def lift_def)
qed (simp_all add: turso_run_request_def attempt_def check_def fail_def)

section \<open>Witnesses\<close>

text \<open>
  A small database: a counter with its durable and its working value, whether a transaction is open,
  and the statement \<open>ADD\<close>.
\<close>

type_synonym counter = "nat \<times> nat \<times> bool"

definition counter_step :: "string \<Rightarrow> counter \<Rightarrow> counter \<times> (turso_error, turso_status) outcome" where
  "counter_step q = (\<lambda>(d, p, auto).
     if q = ''BEGIN'' then ((d, d, False), Ok Done)
     else if q = ''COMMIT'' then ((p, p, True), Ok Done)
     else if q = ''ROLLBACK'' then ((d, d, True), Ok Done)
     else if q = ''ADD'' then ((if auto then p + 1 else d, p + 1, auto), Ok Done)
     else ((d, p, auto), Ok Done))"

definition counter_driver :: "(counter, string) turso_driver" where
  "counter_driver =
     \<lparr>td_connect = (\<lambda>(d, _, _). ((d, d, True), Ok ())), td_prepare = (\<lambda>q s. (s, Ok q)),
      td_bind = (\<lambda>_ _ _ s. (s, Ok ())), td_step = counter_step, td_set_timeouts = (\<lambda>_ s. s), td_close = id,
      td_column_count = (\<lambda>_. 0), td_column_name = (\<lambda>_ _. Ok []), td_row_value = (\<lambda>_ _ _. Ok VNull),
      td_auto_commit = (\<lambda>(_, _, auto). auto), td_debug = (\<lambda>_. []), td_debug_result = (\<lambda>_. [])\<rparr>"

definition counter_env :: env where
  "counter_env = \<lparr>env_cancelled = (\<lambda>_. False), env_now = (\<lambda>n. n * FIVE_SECONDS),
     env_interrupt = (\<lambda>_. None), env_limit = 1000 * FIVE_SECONDS\<rparr>"

definition counter_endpoint :: endpoint where
  "counter_endpoint = \<lparr>e_backend = Turso, e_method = ''post'', e_path = ''/add'', e_segments = [],
     e_statements = [\<lparr>s_sql = ''ADD'', s_parameters = [], s_returns_rows = False\<rparr>], e_parameters = [],
     e_contract = None, e_operation_id = ''add''\<rparr>"

lemmas counter_defs = counter_driver_def counter_step_def counter_env_def counter_endpoint_def

lemma counter_laws:
  "quiet_law counter_driver id fst (\<lambda>s. fst (snd s))"
  "step_law counter_driver id fst (\<lambda>s. fst (snd s)) (\<lambda>q. q = ''ADD'')"
  "sdk_returns counter_driver"
  by (auto simp: quiet_law_def step_law_def sdk_returns_def counter_defs
      split: if_splits)

definition counter_libs :: request_libs where
  "counter_libs = \<lparr>rl_response = sample_libs, rl_to_vec = (\<lambda>_. Some ''{}''), rl_to_text = (\<lambda>_. [])\<rparr>"

definition still_env :: env where
  "still_env = counter_env\<lparr>env_now := (\<lambda>_. 0)\<rparr>"

abbreviation (input) counter_start :: "counter world" where
  "counter_start \<equiv> \<lparr>w_seen = 0, w_db = (3, 3, True)\<rparr>"

abbreviation (input) counter_request :: "(counter world, string) action" where
  "counter_request \<equiv> request (Suc 0) counter_driver counter_libs still_env 7 5 counter_endpoint [[]]"

lemmas counter_run = counter_defs counter_libs_def request_def transaction_def transaction_body_def execute_def
  commit_step_def prepare_commit_def close_after_def statement_step_def response_def is_read_def final_columns_def
  seq_def attempt_def check_def now_def remaining_def ret_def fail_def lift_def call_def set_timeouts_def still_env_def

lemma counter_result: "snd (counter_request counter_start) = Ok ''{}'' \<and> w_db (fst (counter_request counter_start)) = (4, 4, True)"
  by (simp add: counter_run)

theorem turso_request_atomic_witness:
  "\<exists>w0 w1. transaction_body (Suc 0) counter_driver counter_libs still_env 7 5 counter_endpoint [[]] w0 = (w1, Ok ''{}'')
     \<and> fst (w_db w0) = 3 \<and> 4 = fst (snd (w_db w1))"
proof -
  have "atomic_end fst (fst (w_db counter_start))
    (\<lambda>bytes x. \<exists>w0 w1. transaction_body (Suc 0) counter_driver counter_libs still_env 7 5 counter_endpoint [[]] w0
         = (w1, Ok bytes) \<and> fst (w_db w0) = fst (w_db counter_start) \<and> x = fst (snd (w_db w1)))
    (counter_request counter_start)"
    by (rule turso_request_atomic[OF counter_laws(1,2)]) (simp add: counter_endpoint_def)
  then show ?thesis using counter_result unfolding atomic_end_def split_def by simp
qed

lemma counter_observations:
  "w_seen (fst (request (Suc 49) counter_driver counter_libs counter_env (40 * FIVE_SECONDS) 5 counter_endpoint [[]]
     counter_start)) < 40"
  by (simp add: counter_run FIVE_SECONDS_def execute_loop.simps(2)[of 49, unfolded Suc_numeral semiring_norm] row_loop.simps(2)[of 49, unfolded Suc_numeral semiring_norm])

theorem turso_request_returns_witness:
  "snd (request (Suc 49) counter_driver counter_libs counter_env (40 * FIVE_SECONDS) 5 counter_endpoint [[]]
     counter_start) \<noteq> Panic"
proof (rule turso_request_returns[OF counter_laws(3), where K = 40])
  have "m * FIVE_SECONDS + FIVE_SECONDS \<le> n * FIVE_SECONDS" if "m + 40 \<le> n" for m n
    using mult_le_mono1[of "Suc m" n FIVE_SECONDS] that by simp
  then show "clock_advances counter_env 40 (40 * FIVE_SECONDS)" by (simp add: clock_advances_def counter_env_def)
  show "values_typed [[]]" by (simp add: values_typed_def)
  show "\<not> clock_overflow counter_env
      (w_seen (fst (request (Suc 49) counter_driver counter_libs counter_env (40 * FIVE_SECONDS) 5 counter_endpoint
        [[]] counter_start)))"
    using counter_observations by (auto simp: clock_overflow_def counter_env_def FIVE_SECONDS_def)
qed simp

end
