(* ===== verification/Postgres.thy ===== *)
theory Postgres
  imports Turso
begin

text \<open>
  \<^verbatim>\<open>src/postgres_driver.rs\<close>: one request as one PostgreSQL transaction, and
  \<^verbatim>\<open>Executor\<close> of \<^verbatim>\<open>src/execution.rs\<close>, which chooses the driver. The client is a
  parameter (\<open>pg_driver\<close>). Inside \<open>Control::wait\<close> every awaited call may be abandoned by
  the surrounding \<open>select!\<close>, before or after the server has acted (\<^const>\<open>awaited\<close>).
\<close>

section \<open>The client\<close>

datatype pg_type =
    BOOL_P | INT2_P | INT4_P | INT8_P | FLOAT4_P | FLOAT8_P | TEXT_P | VARCHAR_P | BPCHAR_P | NAME_P
  | JSON_P | JSONB_P | Other_type string

record pg_error =
  pe_code :: "string option"
  pe_debug :: string

text \<open>What \<open>try_get\<close> reads, at the width of the column, and the values \<open>bind\<close> boxes.\<close>

datatype pg_value =
    PBool bool
  | PInt2 "16 word"
  | PInt4 "32 word"
  | PInt8 i64
  | PFloat4 "32 word"
  | PFloat8 f64
  | PText string
  | PJson json

datatype pg_param =
    OText "string option"
  | OBool "bool option"
  | OInt8 "i64 option"
  | OFloat8 "f64 option"
  | OJson "json option"

text \<open>
  A row is the type of each column with the outcome of reading it (\<open>Inl\<close> the \<open>Debug\<close> text of an
  error). \<open>pg_cancel\<close> is the best-effort \<open>cancel_query\<close>, \<open>pg_drop\<close> dropping the client and
  aborting its connection, \<open>pg_debug_error\<close> the derived \<open>Debug\<close> text of an error of this program.
\<close>

type_synonym pg_row = "(pg_type \<times> (string + pg_value option)) list"

record ('s, 'st) pg_driver =
  pg_connect :: "'s \<Rightarrow> 's \<times> (pg_error, unit) outcome"
  pg_batch :: "string \<Rightarrow> 's \<Rightarrow> 's \<times> (pg_error, unit) outcome"
  pg_query_one :: "string \<Rightarrow> string \<Rightarrow> 's \<Rightarrow> 's \<times> (pg_error, unit) outcome"
  pg_prepare :: "string \<Rightarrow> pg_type list \<Rightarrow> 's \<Rightarrow> 's \<times> (pg_error, 'st) outcome"
  pg_query :: "'st \<Rightarrow> pg_param list \<Rightarrow> 's \<Rightarrow> 's \<times> (pg_error, unit) outcome"
  pg_next :: "'st \<Rightarrow> 's \<Rightarrow> 's \<times> (pg_error, pg_row option) outcome"
  pg_columns :: "'st \<Rightarrow> (string \<times> pg_type) list"
  pg_cancel :: "'s \<Rightarrow> 's"
  pg_drop :: "'s \<Rightarrow> 's"
  pg_debug_error :: "sqlrest_error \<Rightarrow> string"


section \<open>Errors, types and values\<close>

definition pg_public_error :: "string option \<Rightarrow> sqlrest_error" where
  "pg_public_error code =
     (case code of
        None \<Rightarrow> database_error_generic
      | Some c \<Rightarrow>
          if c = ''57014'' then timeout_error
          else if c = ''25006'' then read_only_violation
          else if c \<in> {''23505'', ''23503'', ''23502'', ''23514'', ''23P01''}
          then new_error 409 ''constraint_violation'' ''Database constraint rejected the operation''
          else if c \<in> {''40001'', ''40P01'', ''55P03''}
          then new_error 409 ''database_busy'' ''Concurrent database operation conflicted''
          else database_error_generic)"

definition pg_database_error :: "pg_error \<Rightarrow> sqlrest_error" where
  "pg_database_error e = with_diagnostic ''postgres'' (pe_debug e) (pg_public_error (pe_code e))"

fun parameter_type :: "ptype \<Rightarrow> pg_type" where
  "parameter_type (Nullable_T inner) = parameter_type inner"
| "parameter_type String_T = TEXT_P"
| "parameter_type Boolean_T = BOOL_P"
| "parameter_type Int64_T = INT8_P"
| "parameter_type Float64_T = FLOAT8_P"
| "parameter_type (Array_T _) = JSONB_P"

fun strip_nullable :: "ptype \<Rightarrow> ptype" where
  "strip_nullable (Nullable_T inner) = strip_nullable inner"
| "strip_nullable ty = ty"

definition pg_bind :: "bound_value \<Rightarrow> pg_param result" where
  "pg_bind b =
     (case strip_nullable (bv_ty b) of
        String_T \<Rightarrow> Ok (OText (as_str (bv_value b)))
      | Boolean_T \<Rightarrow> Ok (OBool (as_bool (bv_value b)))
      | Int64_T \<Rightarrow> Ok (OInt8 (as_i64 (bv_value b)))
      | Float64_T \<Rightarrow> Ok (OFloat8 (as_f64 (bv_value b)))
      | Array_T _ \<Rightarrow> Ok (OJson (if bv_value b = JNull then None else Some (bv_value b)))
      | Nullable_T _ \<Rightarrow> Panic)"

text \<open>
  \<open>f64::from\<close> on an \<open>f32\<close>: sign, exponent and fraction of the 32-bit pattern, with a subnormal
  normalized (\<open>k\<close> is the position of its leading bit) and a signalling NaN made quiet.
\<close>

definition leading_bit :: "nat \<Rightarrow> nat" where
  "leading_bit m = last (0 # filter (\<lambda>k. 2 ^ k \<le> m) [0..<23])"

definition f64_from_f32 :: "32 word \<Rightarrow> f64" where
  "f64_from_f32 w =
     (let n = unat w; sign = n div 2 ^ 31; ex = (n div 2 ^ 23) mod 256; frac = n mod 2 ^ 23;
          (ex', frac') =
            (if ex = 255 then (2047, if frac = 0 then 0 else (frac * 2 ^ 29) mod 2 ^ 51 + 2 ^ 51)
             else if ex = 0 then
               if frac = 0 then (0, 0)
               else (let k = leading_bit frac in (874 + k, (frac - 2 ^ k) * 2 ^ (52 - k)))
             else (ex + 896, frac * 2 ^ 29))
      in of_nat (sign * 2 ^ 63 + ex' * 2 ^ 52 + frac'))"

definition cannot_decode :: "string \<Rightarrow> sqlrest_error" where
  "cannot_decode detail =
     with_diagnostic ''postgres'' detail (contract_error ''Cannot decode database result type'')"

definition unsupported_type :: sqlrest_error where
  "unsupported_type = contract_error ''Unsupported result type; use explicit SQL conversion''"

text \<open>The macro \<open>read!\<close>: a value of the expected Rust type, or null, or an error.\<close>

definition read_column :: "(pg_value \<Rightarrow> cell option) \<Rightarrow> string + pg_value option \<Rightarrow> cell result" where
  "read_column conv content =
     (case content of
        Inl detail \<Rightarrow> Err (cannot_decode detail)
      | Inr None \<Rightarrow> Ok CNull
      | Inr (Some v) \<Rightarrow> (case conv v of Some c \<Rightarrow> Ok c | None \<Rightarrow> Err (cannot_decode ''WrongType'')))"

fun read_bool :: "pg_value \<Rightarrow> cell option" where
  "read_bool (PBool b) = Some (CBoolean b)" | "read_bool _ = None"

fun read_int2 :: "pg_value \<Rightarrow> cell option" where
  "read_int2 (PInt2 v) = Some (CInteger (scast v))" | "read_int2 _ = None"

fun read_int4 :: "pg_value \<Rightarrow> cell option" where
  "read_int4 (PInt4 v) = Some (CInteger (scast v))" | "read_int4 _ = None"

fun read_int8 :: "pg_value \<Rightarrow> cell option" where
  "read_int8 (PInt8 v) = Some (CInteger v)" | "read_int8 _ = None"

fun read_float4 :: "pg_value \<Rightarrow> cell option" where
  "read_float4 (PFloat4 v) = Some (CReal (f64_from_f32 v))" | "read_float4 _ = None"

fun read_float8 :: "pg_value \<Rightarrow> cell option" where
  "read_float8 (PFloat8 v) = Some (CReal v)" | "read_float8 _ = None"

fun read_string :: "pg_value \<Rightarrow> cell option" where
  "read_string (PText v) = Some (CText v)" | "read_string _ = None"

fun read_json :: "pg_value \<Rightarrow> cell option" where
  "read_json (PJson v) = Some (CJson v)" | "read_json _ = None"

fun decode_column :: "pg_type \<times> (string + pg_value option) \<Rightarrow> cell result" where
  "decode_column (BOOL_P, x) = read_column read_bool x"
| "decode_column (INT2_P, x) = read_column read_int2 x"
| "decode_column (INT4_P, x) = read_column read_int4 x"
| "decode_column (INT8_P, x) = read_column read_int8 x"
| "decode_column (FLOAT4_P, x) = read_column read_float4 x"
| "decode_column (FLOAT8_P, x) = read_column read_float8 x"
| "decode_column (TEXT_P, x) = read_column read_string x"
| "decode_column (VARCHAR_P, x) = read_column read_string x"
| "decode_column (BPCHAR_P, x) = read_column read_string x"
| "decode_column (NAME_P, x) = read_column read_string x"
| "decode_column (JSON_P, x) = read_column read_json x"
| "decode_column (JSONB_P, x) = read_column read_json x"
| "decode_column (Other_type _, x) = Err unsupported_type"

definition pg_decode :: "pg_row \<Rightarrow> cell list result" where
  "pg_decode row = try_map decode_column row"

definition supported :: "pg_type \<Rightarrow> bool" where
  "supported ty \<longleftrightarrow> ty \<in> {BOOL_P, INT2_P, INT4_P, INT8_P, FLOAT4_P, FLOAT8_P, TEXT_P, VARCHAR_P, BPCHAR_P,
     NAME_P, JSON_P, JSONB_P}"


section \<open>The transaction\<close>

definition pg_await :: "env \<Rightarrow> ('s \<Rightarrow> 's \<times> (pg_error, 'a) outcome) \<Rightarrow> ('s world, 'a) action" where
  "pg_await env f = awaited env (call pg_database_error f)"

definition I32_MAX :: nat where
  "I32_MAX = 2147483647"

definition deadline_millis :: "nat \<Rightarrow> nat" where
  "deadline_millis d = max 1 (min (d div 1000000) I32_MAX)"

definition set_deadline :: "('s, 'st) pg_driver \<Rightarrow> env \<Rightarrow> nat \<Rightarrow> ('s world, unit) action" where
  "set_deadline drv env deadline =
     seq (remaining env deadline) (\<lambda>d.
     pg_await env (pg_query_one drv (''SELECT set_config('' @ [CHR 0x27] @ ''statement_timeout'' @ [CHR 0x27] @ '',$1,true)'')
       (show_nat (deadline_millis d))))"

definition pg_final_columns :: "('s, 'st) pg_driver \<Rightarrow> endpoint \<Rightarrow> 'st \<Rightarrow> string list result" where
  "pg_final_columns drv e st =
     (if list_ex (\<lambda>(_, ty). \<not> supported ty) (pg_columns drv st) then Err unsupported_type
      else
        let names = map fst (pg_columns drv st) in
        if names = [] then Ok names
        else and_then (ok_or columns_need_schema (e_contract e)) (\<lambda>c.
          map_ok (\<lambda>_. names) (check_columns c names)))"

primrec stream_loop ::
  "nat \<Rightarrow> ('s, 'st) pg_driver \<Rightarrow> env \<Rightarrow> nat \<Rightarrow> nat \<Rightarrow> bool \<Rightarrow> 'st \<Rightarrow> cell list list
     \<Rightarrow> ('s world, cell list list) action" where
  "stream_loop 0 drv env deadline max_rows final st rows = lift Panic"
| "stream_loop (Suc n) drv env deadline max_rows final st rows =
     seq (pg_await env (pg_next drv st)) (\<lambda>row.
       case row of
         None \<Rightarrow> ret rows
       | Some row \<Rightarrow>
           seq (check env deadline) (\<lambda>_.
           if final then
             if max_rows \<le> length rows then fail row_limit
             else seq (lift (pg_decode row)) (\<lambda>cells.
               stream_loop n drv env deadline max_rows final st (rows @ [cells]))
           else stream_loop n drv env deadline max_rows final st rows))"

definition pg_statement_step ::
  "nat \<Rightarrow> ('s, 'st) pg_driver \<Rightarrow> env \<Rightarrow> nat \<Rightarrow> nat \<Rightarrow> endpoint
     \<Rightarrow> nat \<times> statement \<times> bound_value list \<Rightarrow> string list \<times> cell list list
     \<Rightarrow> ('s world, string list \<times> cell list list) action" where
  "pg_statement_step fuel drv env deadline max_rows e = (\<lambda>(index, sql, values) (names, rows).
     seq (set_deadline drv env deadline) (\<lambda>_.
     let types = map (\<lambda>v. parameter_type (bv_ty v)) values in
     seq (lift (try_map pg_bind values)) (\<lambda>params.
     seq (pg_await env (pg_prepare drv (s_sql sql) types)) (\<lambda>st.
     let final = (index + 1 = length (e_statements e)) in
     seq (if final then lift (pg_final_columns drv e st) else ret names) (\<lambda>names.
     seq (set_deadline drv env deadline) (\<lambda>_.
     seq (pg_await env (pg_query drv st params)) (\<lambda>_.
     seq (stream_loop fuel drv env deadline max_rows final st rows) (\<lambda>rows.
     ret (names, rows)))))))))"

text \<open>A blocking task that panics is reported by its join error.\<close>

definition joined :: "sqlrest_error \<Rightarrow> ('w, 'a) action \<Rightarrow> ('w, 'a) action" where
  "joined e f w = (case f w of (w', Panic) \<Rightarrow> (w', Err e) | (w', r) \<Rightarrow> (w', r))"

definition pg_transaction_body ::
  "nat \<Rightarrow> ('s, 'st) pg_driver \<Rightarrow> request_libs \<Rightarrow> env \<Rightarrow> nat \<Rightarrow> nat \<Rightarrow> endpoint \<Rightarrow> prepared
     \<Rightarrow> ('s world, string) action" where
  "pg_transaction_body fuel drv libs env deadline max_rows e prep =
     seq (pg_await env (pg_batch drv (if is_read e then ''BEGIN READ ONLY'' else ''BEGIN''))) (\<lambda>_.
     seq (each_step (pg_statement_step fuel drv env deadline max_rows e)
       (enumerate 0 (zip (e_statements e) prep)) ([], [])) (\<lambda>(names, rows).
     awaited env (joined (task_failed ''Response worker failed'')
       (response env deadline (rl_response libs) (rl_to_vec libs) e names rows False))))"

text \<open>
  \<open>cleanup\<close>: \<open>ROLLBACK\<close> until it is acknowledged. Each round is one poll of the biased
  \<open>select!\<close>: \<open>None\<close> is an answer of the server (only a cancelled \<open>ROLLBACK\<close> is tried again);
  otherwise the deadline gives up, having sent the \<open>ROLLBACK\<close> or not, and before it a tick sends a
  cancel request.
\<close>

primrec rollback_loop :: "nat \<Rightarrow> ('s, 'st) pg_driver \<Rightarrow> env \<Rightarrow> nat \<Rightarrow> ('s world, unit) action" where
  "rollback_loop 0 drv env deadline = lift Panic"
| "rollback_loop (Suc n) drv env deadline = (\<lambda>w.
     let w' = w\<lparr>w_seen := Suc (w_seen w)\<rparr> in
     case env_interrupt env (w_seen w) of
       None \<Rightarrow>
         (case pg_batch drv ''ROLLBACK'' (w_db w) of
            (s, Ok _) \<Rightarrow> ret () (w'\<lparr>w_db := s\<rparr>)
          | (s, Err error) \<Rightarrow>
              if pe_code error = Some ''57014'' then rollback_loop n drv env deadline (w'\<lparr>w_db := s\<rparr>)
              else fail (with_diagnostic ''postgres'' (pe_debug error) cleanup_failed) (w'\<lparr>w_db := s\<rparr>)
          | (s, Panic) \<Rightarrow> lift Panic (w'\<lparr>w_db := s\<rparr>))
     | Some (sent, _) \<Rightarrow>
         if deadline \<le> env_now env (w_seen w)
         then fail cleanup_failed (if sent then w'\<lparr>w_db := fst (pg_batch drv ''ROLLBACK'' (w_db w))\<rparr> else w')
         else rollback_loop n drv env deadline (w'\<lparr>w_db := pg_cancel drv (w_db w)\<rparr>))"

definition pg_cleanup :: "nat \<Rightarrow> ('s, 'st) pg_driver \<Rightarrow> env \<Rightarrow> ('s world, unit) action" where
  "pg_cleanup fuel drv env =
     seq (now env) (\<lambda>t.
       if env_limit env < t + FIVE_SECONDS then lift Panic
       else rollback_loop fuel drv env (t + FIVE_SECONDS))"

definition pg_cleanup_then_fail :: "nat \<Rightarrow> ('s, 'st) pg_driver \<Rightarrow> env \<Rightarrow> sqlrest_error \<Rightarrow> ('s world, 'a) action" where
  "pg_cleanup_then_fail fuel drv env e = seq (pg_cleanup fuel drv env) (\<lambda>_. fail e)"

text \<open>The commit: the block of \<open>wait\<close> has been entered exactly when the first check passed.\<close>

definition pg_commit ::
  "nat \<Rightarrow> ('s, 'st) pg_driver \<Rightarrow> env \<Rightarrow> nat \<Rightarrow> string \<Rightarrow> ('s world, string) action" where
  "pg_commit fuel drv env deadline bytes =
     attempt (check env deadline) (\<lambda>c.
       case c of
         Ok _ \<Rightarrow>
           attempt (pg_await env (pg_batch drv ''COMMIT'')) (\<lambda>r.
             case r of
               Ok _ \<Rightarrow> ret bytes
             | Err error \<Rightarrow>
                 attempt (pg_cleanup fuel drv env) (\<lambda>c.
                   if c = Panic then lift Panic
                   else fail (with_diagnostic ''postgres'' (pg_debug_error drv error) commit_unknown))
             | Panic \<Rightarrow> lift Panic)
       | Err error \<Rightarrow>
           attempt (pg_cleanup fuel drv env) (\<lambda>c. if c = Panic then lift Panic else fail error)
       | Panic \<Rightarrow> lift Panic)"

definition execute_transaction ::
  "nat \<Rightarrow> ('s, 'st) pg_driver \<Rightarrow> request_libs \<Rightarrow> env \<Rightarrow> nat \<Rightarrow> nat \<Rightarrow> endpoint \<Rightarrow> prepared
     \<Rightarrow> ('s world, string) action" where
  "execute_transaction fuel drv libs env deadline max_rows e prep =
     attempt (wait env deadline (pg_transaction_body fuel drv libs env deadline max_rows e prep)) (\<lambda>r.
       case r of
         Ok bytes \<Rightarrow>
           attempt (check env deadline) (\<lambda>c.
             case c of
               Ok _ \<Rightarrow>
                 attempt (wait env deadline (set_deadline drv env deadline)) (\<lambda>d.
                   case d of
                     Ok _ \<Rightarrow> pg_commit fuel drv env deadline bytes
                   | Err error \<Rightarrow> pg_cleanup_then_fail fuel drv env error
                   | Panic \<Rightarrow> lift Panic)
             | Err error \<Rightarrow> pg_cleanup_then_fail fuel drv env error
             | Panic \<Rightarrow> lift Panic)
       | Err error \<Rightarrow> pg_cleanup_then_fail fuel drv env error
       | Panic \<Rightarrow> lift Panic)"

definition drop_after :: "('s, 'st) pg_driver \<Rightarrow> ('s world, 'a) action \<Rightarrow> ('s world, 'a) action" where
  "drop_after drv f w = (case f w of (w', r) \<Rightarrow> (w'\<lparr>w_db := pg_drop drv (w_db w')\<rparr>, r))"

definition pg_run_request ::
  "nat \<Rightarrow> ('s, 'st) pg_driver \<Rightarrow> request_libs \<Rightarrow> env \<Rightarrow> nat \<Rightarrow> nat \<Rightarrow> endpoint \<Rightarrow> prepared
     \<Rightarrow> ('s world, string) action" where
  "pg_run_request fuel drv libs env deadline max_rows e prep =
     seq (wait env deadline (pg_await env (pg_connect drv))) (\<lambda>_.
     drop_after drv (execute_transaction fuel drv libs env deadline max_rows e prep))"


section \<open>The executor\<close>

datatype ('s, 't, 'p) database = Turso_database "('s, 't) turso_driver" | Postgres_database "('s, 'p) pg_driver"

primrec database_backend :: "('s, 't, 'p) database \<Rightarrow> backend" where
  "database_backend (Turso_database _) = backend.Turso"
| "database_backend (Postgres_database _) = backend.Postgres"

text \<open>
  \<open>execute_tracked\<close>: the spawned task reads the input, then runs the request of its backend;
  \<open>fate\<close> is the fate of the Turso worker. Dropping the caller's future cancels the token, which
  is an observation of the environment.
\<close>

definition run_database ::
  "('s, 't, 'p) database \<Rightarrow> worker_fate \<Rightarrow> nat \<Rightarrow> request_libs \<Rightarrow> env \<Rightarrow> nat \<Rightarrow> nat \<Rightarrow> endpoint \<Rightarrow> prepared
     \<Rightarrow> ('s world, string) action" where
  "run_database db fate fuel libs env deadline max_rows e prep =
     (case db of
        Turso_database drv \<Rightarrow> turso_run_request fate fuel drv libs env deadline max_rows e prep
      | Postgres_database drv \<Rightarrow> pg_run_request fuel drv libs env deadline max_rows e prep)"

definition execute_tracked ::
  "('s, 't, 'p) database \<Rightarrow> worker_fate \<Rightarrow> nat \<Rightarrow> params_libs \<Rightarrow> request_libs \<Rightarrow> env \<Rightarrow> endpoint \<Rightarrow> input \<Rightarrow> limits
     \<Rightarrow> ('s world, string) action" where
  "execute_tracked db fate fuel plibs libs env e i lim =
     (if e_backend e \<noteq> database_backend db
      then fail (definition_error ''Endpoint and executor database backends differ'')
      else
        seq (now env) (\<lambda>t.
        if env_limit env < t + lim_timeout lim then fail (definition_error ''Execution timeout is too large'')
        else
          let deadline = t + lim_timeout lim in
          joined (task_failed ''Execution worker failed'')
            (seq (wait env deadline (awaited env (joined (task_failed ''Input validation worker failed'')
               (prepare env deadline plibs e i)))) (\<lambda>prep.
             run_database db fate fuel libs env deadline (lim_max_rows lim) e prep))))"

section \<open>What the program relies on from the server\<close>

text \<open>
  \<open>durable\<close> is what this connection has made durable, \<open>staged\<close> what a commit would make
  durable, \<open>in_tx\<close> that a transaction is open. Inside a transaction nothing but a commit is durable,
  a statement that was answered leaves it open, and a commit is all or nothing.
\<close>

definition pg_law ::
  "('s, 'st) pg_driver \<Rightarrow> ('st \<Rightarrow> string) \<Rightarrow> ('s \<Rightarrow> 'd) \<Rightarrow> ('s \<Rightarrow> 'd) \<Rightarrow> ('s \<Rightarrow> bool) \<Rightarrow> (string \<Rightarrow> bool) \<Rightarrow> bool" where
  "pg_law drv sql_of durable staged in_tx plain \<longleftrightarrow>
     (\<forall>s s' r. pg_connect drv s = (s', r) \<longrightarrow> durable s' = durable s \<and> (\<forall>x. r = Ok x \<longrightarrow> \<not> in_tx s')) \<and>
     (\<forall>q s s' r. pg_batch drv q s = (s', r) \<longrightarrow> q = ''BEGIN'' \<or> q = ''BEGIN READ ONLY'' \<longrightarrow> \<not> in_tx s \<longrightarrow>
        durable s' = durable s \<and> (\<forall>x. r = Ok x \<longrightarrow> in_tx s')) \<and>
     (\<forall>s s' r. pg_batch drv ''ROLLBACK'' s = (s', r) \<longrightarrow> durable s' = durable s) \<and>
     (\<forall>s s' r. pg_batch drv ''COMMIT'' s = (s', r) \<longrightarrow> in_tx s \<longrightarrow>
        (durable s' = durable s \<or> durable s' = staged s) \<and> (\<forall>x. r = Ok x \<longrightarrow> durable s' = staged s)) \<and>
     (\<forall>q v s s' r. pg_query_one drv q v s = (s', r) \<longrightarrow> in_tx s \<longrightarrow>
        durable s' = durable s \<and> (\<forall>x. r = Ok x \<longrightarrow> in_tx s' \<and> staged s' = staged s)) \<and>
     (\<forall>q ts s s' r. pg_prepare drv q ts s = (s', r) \<longrightarrow> in_tx s \<longrightarrow>
        durable s' = durable s \<and> (\<forall>st. r = Ok st \<longrightarrow> in_tx s' \<and> sql_of st = q)) \<and>
     (\<forall>st ps s s' r. pg_query drv st ps s = (s', r) \<longrightarrow> in_tx s \<longrightarrow> plain (sql_of st) \<longrightarrow>
        durable s' = durable s \<and> (\<forall>x. r = Ok x \<longrightarrow> in_tx s')) \<and>
     (\<forall>st s s' r. pg_next drv st s = (s', r) \<longrightarrow> in_tx s \<longrightarrow> plain (sql_of st) \<longrightarrow>
        durable s' = durable s \<and> (\<forall>x. r = Ok x \<longrightarrow> in_tx s')) \<and>
     (\<forall>s. durable (pg_cancel drv s) = durable s) \<and> (\<forall>s. durable (pg_drop drv s) = durable s)"

lemma pg_law_connect:
  "pg_law drv sql_of durable staged in_tx plain \<Longrightarrow> pg_connect drv s = (s', r) \<Longrightarrow>
     durable s' = durable s \<and> (\<forall>x. r = Ok x \<longrightarrow> \<not> in_tx s')"
  unfolding pg_law_def by (elim conjE) metis

lemma pg_law_begin:
  "pg_law drv sql_of durable staged in_tx plain \<Longrightarrow> pg_batch drv q s = (s', r) \<Longrightarrow>
     q = ''BEGIN'' \<or> q = ''BEGIN READ ONLY'' \<Longrightarrow> \<not> in_tx s \<Longrightarrow> durable s' = durable s \<and> (\<forall>x. r = Ok x \<longrightarrow> in_tx s')"
  unfolding pg_law_def by (elim conjE) metis

lemma pg_law_rollback:
  "pg_law drv sql_of durable staged in_tx plain \<Longrightarrow> pg_batch drv ''ROLLBACK'' s = (s', r) \<Longrightarrow> durable s' = durable s"
  unfolding pg_law_def by (elim conjE) metis

lemma pg_law_commit:
  "pg_law drv sql_of durable staged in_tx plain \<Longrightarrow> pg_batch drv ''COMMIT'' s = (s', r) \<Longrightarrow> in_tx s \<Longrightarrow>
     (durable s' = durable s \<or> durable s' = staged s) \<and> (\<forall>x. r = Ok x \<longrightarrow> durable s' = staged s)"
  unfolding pg_law_def by (elim conjE) metis

lemma pg_law_query_one:
  "pg_law drv sql_of durable staged in_tx plain \<Longrightarrow> pg_query_one drv q v s = (s', r) \<Longrightarrow> in_tx s \<Longrightarrow>
     durable s' = durable s \<and> (\<forall>x. r = Ok x \<longrightarrow> in_tx s' \<and> staged s' = staged s)"
  unfolding pg_law_def by (elim conjE) metis

lemma pg_law_prepare:
  "pg_law drv sql_of durable staged in_tx plain \<Longrightarrow> pg_prepare drv q ts s = (s', r) \<Longrightarrow> in_tx s \<Longrightarrow>
     durable s' = durable s \<and> (\<forall>st. r = Ok st \<longrightarrow> in_tx s' \<and> sql_of st = q)"
  unfolding pg_law_def by (elim conjE) metis

lemma pg_law_query:
  "pg_law drv sql_of durable staged in_tx plain \<Longrightarrow> pg_query drv st ps s = (s', r) \<Longrightarrow> in_tx s \<Longrightarrow>
     plain (sql_of st) \<Longrightarrow> durable s' = durable s \<and> (\<forall>x. r = Ok x \<longrightarrow> in_tx s')"
  unfolding pg_law_def by (elim conjE) metis

lemma pg_law_next:
  "pg_law drv sql_of durable staged in_tx plain \<Longrightarrow> pg_next drv st s = (s', r) \<Longrightarrow> in_tx s \<Longrightarrow>
     plain (sql_of st) \<Longrightarrow> durable s' = durable s \<and> (\<forall>x. r = Ok x \<longrightarrow> in_tx s')"
  unfolding pg_law_def by (elim conjE) metis

lemma pg_law_quiet:
  assumes "pg_law drv sql_of durable staged in_tx plain"
  shows "durable (pg_cancel drv s) = durable s" and "durable (pg_drop drv s) = durable s"
  using assms unfolding pg_law_def by blast+

text \<open>An abandoned call may or may not have acted: the assertion for other ends must allow both.\<close>

lemma triple_pg_await:
  fixes f :: "'s \<Rightarrow> 's \<times> (pg_error, 'a) outcome"
  assumes f: "\<And>s s' r. R s \<Longrightarrow> f s = (s', r) \<Longrightarrow> D s' \<and> (\<forall>x. r = Ok x \<longrightarrow> Q x s')" and RD: "\<And>s. R s \<Longrightarrow> D s"
  shows "triple (\<lambda>w. R (w_db w)) (pg_await env f) (\<lambda>x w. Q x (w_db w)) (\<lambda>w. D (w_db w))"
  unfolding triple_def
proof (intro allI impI)
  fix w :: "'s world" assume R: "R (w_db w)"
  obtain s' r where s: "f (w_db w) = (s', r)" by force
  note facts = f[OF R s]
  show "case pg_await env f w of (w', Ok x) \<Rightarrow> Q x (w_db w') | (w', _) \<Rightarrow> D (w_db w')"
  proof (cases "env_interrupt env (w_seen w)")
    case None
    then show ?thesis using facts s by (cases r) (simp_all add: pg_await_def awaited_def call_def)
  next
    case (Some p)
    then show ?thesis using facts s RD[OF R] by (cases p) (simp add: pg_await_def awaited_def call_def Let_def)
  qed
qed

lemma triple_wait:
  "(\<And>s. R s \<Longrightarrow> D s) \<Longrightarrow> triple (\<lambda>w. R (w_db w)) f Q (\<lambda>w. D (w_db w)) \<Longrightarrow>
     triple (\<lambda>w. R (w_db w)) (wait env dl f) Q (\<lambda>w. D (w_db w))"
  unfolding wait_def by (rule triple_seq[OF triple_check])

abbreviation pg_open :: "('s \<Rightarrow> 'd) \<Rightarrow> ('s \<Rightarrow> bool) \<Rightarrow> 'd \<Rightarrow> 's \<Rightarrow> bool" where
  "pg_open durable in_tx d s \<equiv> durable s = d \<and> in_tx s"

lemma triple_set_deadline:
  assumes law: "pg_law drv sql_of durable staged in_tx plain"
  shows "triple (\<lambda>w. pg_open durable in_tx d (w_db w)) (set_deadline drv env dl)
     (\<lambda>_ w. pg_open durable in_tx d (w_db w)) (\<lambda>w. durable (w_db w) = d)"
  unfolding set_deadline_def
  by (intro keep_seq triple_remaining triple_pg_await) (auto dest: pg_law_query_one[OF law])

lemma triple_set_deadline_staged:
  assumes law: "pg_law drv sql_of durable staged in_tx plain"
  shows "triple (\<lambda>w. pg_open durable in_tx d (w_db w) \<and> staged (w_db w) = p) (set_deadline drv env dl)
     (\<lambda>_ w. pg_open durable in_tx d (w_db w) \<and> staged (w_db w) = p) (\<lambda>w. durable (w_db w) = d)"
  unfolding set_deadline_def
  by (intro keep_seq triple_remaining[where R = "\<lambda>s. pg_open durable in_tx d s \<and> staged s = p"]
      triple_pg_await[where R = "\<lambda>s. pg_open durable in_tx d s \<and> staged s = p"]) (auto dest: pg_law_query_one[OF law])

lemma triple_stream_loop:
  assumes law: "pg_law drv sql_of durable staged in_tx plain" and plain: "plain (sql_of st)"
  shows "triple (\<lambda>w. pg_open durable in_tx d (w_db w)) (stream_loop n drv env dl max_rows final st rows)
     (\<lambda>_ w. pg_open durable in_tx d (w_db w)) (\<lambda>w. durable (w_db w) = d)"
proof (induction n arbitrary: rows)
  case 0
  then show ?case by (simp add: triple_def lift_def)
next
  case (Suc n)
  have next_row: "triple (\<lambda>w. pg_open durable in_tx d (w_db w)) (pg_await env (pg_next drv st))
      (\<lambda>_ w. pg_open durable in_tx d (w_db w)) (\<lambda>w. durable (w_db w) = d)"
    by (rule triple_pg_await) (use plain in \<open>auto dest: pg_law_next[OF law]\<close>)
  have step: "triple (\<lambda>w. pg_open durable in_tx d (w_db w))
      (case row of None \<Rightarrow> ret rows | Some row \<Rightarrow> seq (check env dl) (\<lambda>_.
           if final then if max_rows \<le> length rows then fail row_limit
             else seq (lift (pg_decode row)) (\<lambda>cells. stream_loop n drv env dl max_rows final st (rows @ [cells]))
           else stream_loop n drv env dl max_rows final st rows))
      (\<lambda>_ w. pg_open durable in_tx d (w_db w)) (\<lambda>w. durable (w_db w) = d)" for row
  proof (cases row)
    case None
    show ?thesis unfolding None option.case by (rule keep_ret)
  next
    case (Some x)
    show ?thesis unfolding Some option.case by (intro keep_rules triple_check Suc.IH; simp)
  qed
  show ?case unfolding stream_loop.simps by (intro keep_seq[OF next_row] step)
qed


lemma triple_pg_statement_step:
  assumes law: "pg_law drv sql_of durable staged in_tx plain" and plain: "plain (s_sql (fst (snd x)))"
  shows "triple (\<lambda>w. pg_open durable in_tx d (w_db w)) (pg_statement_step fuel drv env dl max_rows e x acc)
    (\<lambda>_ w. pg_open durable in_tx d (w_db w)) (\<lambda>w. durable (w_db w) = d)"
proof -
  obtain i sq vs where x: "x = (i, sq, vs)" by (cases x)
  obtain names rows where acc: "acc = (names, rows)" by (cases acc)
  let ?T = "\<lambda>w. pg_open durable in_tx d (w_db w)" and ?E = "\<lambda>w. durable (w_db w) = d"
  have prep: "triple ?T (pg_await env (pg_prepare drv q ts)) (\<lambda>st w. ?T w \<and> sql_of st = q) ?E" for q ts
    using triple_pg_await[of "pg_open durable in_tx d" "pg_prepare drv q ts" "\<lambda>s. durable s = d"
        "\<lambda>st s. pg_open durable in_tx d s \<and> sql_of st = q" env] pg_law_prepare[OF law] by metis
  have query: "triple ?T (pg_await env (pg_query drv st ps)) (\<lambda>_. ?T) ?E" if "plain (sql_of st)" for st ps
    by (rule triple_pg_await) (use that in \<open>auto dest: pg_law_query[OF law]\<close>)
  have rest: "triple (\<lambda>w. ?T w \<and> sql_of st = s_sql sq)
      (let final = (i + 1 = length (e_statements e)) in
       seq (if final then lift (pg_final_columns drv e st) else ret names) (\<lambda>names.
       seq (set_deadline drv env dl) (\<lambda>_.
       seq (pg_await env (pg_query drv st params)) (\<lambda>_.
       seq (stream_loop fuel drv env dl max_rows final st rows) (\<lambda>rows. ret (names, rows)))))) (\<lambda>_. ?T) ?E" for st params
  proof (cases "sql_of st = s_sql sq")
    case True
    then have p: "plain (sql_of st)" using plain x by simp
    show ?thesis unfolding Let_def using True
      by (simp only: simp_thms) (intro keep_rules triple_stream_loop[OF law p] query[OF p] triple_set_deadline[OF law]; simp)
  qed (simp add: triple_def)
  show ?thesis unfolding pg_statement_step_def x acc split_conv
    by (subst Let_def) (intro keep_seq[OF triple_set_deadline[OF law]] keep_seq[OF keep_lift] triple_seq[OF prep] rest; simp)
qed

lemma triple_response_joined:
  assumes "\<And>s. R s \<Longrightarrow> D s"
  shows "triple (\<lambda>w. R (w_db w)) (awaited env (joined x (response env dl libs to_vec e names rows turso)))
    (\<lambda>_ w. R (w_db w)) (\<lambda>w. D (w_db w))"
  unfolding triple_def
proof (intro allI impI)
  fix w :: "'a world" assume R: "R (w_db w)"
  let ?w = "w\<lparr>w_seen := Suc (w_seen w)\<rparr>" and ?f = "response env dl libs to_vec e names rows turso"
  have "triple (\<lambda>w. R (w_db w)) ?f (\<lambda>_ w. R (w_db w)) (\<lambda>w. R (w_db w))" by (rule triple_response)
  from triple_kept[OF this, of ?w] R have R': "R (w_db (fst (?f ?w)))" by simp
  obtain w1 r where r: "?f ?w = (w1, r)" by force
  then have "w_db (fst (joined x ?f ?w)) = w_db w1" by (cases r) (simp_all add: joined_def)
  then show "case awaited env (joined x ?f) w of (w', Ok y) \<Rightarrow> R (w_db w') | (w', _) \<Rightarrow> D (w_db w')"
    using R R' r assms by (cases r) (auto simp: awaited_def Let_def joined_def split: option.splits)
qed

lemma triple_pg_transaction_body:
  assumes law: "pg_law drv sql_of durable staged in_tx plain"
    and plain: "\<forall>s \<in> set (e_statements e). plain (s_sql s)"
  shows "triple (\<lambda>w. durable (w_db w) = d \<and> \<not> in_tx (w_db w)) (pg_transaction_body fuel drv libs env dl max_rows e prep)
    (\<lambda>_ w. pg_open durable in_tx d (w_db w)) (\<lambda>w. durable (w_db w) = d)"
proof -
  let ?I = "\<lambda>w. durable (w_db w) = d \<and> \<not> in_tx (w_db w)" and ?T = "\<lambda>w. pg_open durable in_tx d (w_db w)"
    and ?E = "\<lambda>w. durable (w_db w) = d"
  have start: "triple ?I (pg_await env (pg_batch drv (if is_read e then ''BEGIN READ ONLY'' else ''BEGIN''))) (\<lambda>_. ?T) ?E"
    by (rule triple_pg_await) (auto dest!: pg_law_begin[OF law])
  have statements: "triple ?T (each_step (pg_statement_step fuel drv env dl max_rows e)
       (enumerate 0 (zip (e_statements e) prep)) ([], [])) (\<lambda>_. ?T) ?E"
  proof (rule triple_each_step)
    fix x acc assume "x \<in> set (enumerate 0 (zip (e_statements e) prep))"
    from snd_enumerate_zip(1)[OF this]
    show "triple ?T (pg_statement_step fuel drv env dl max_rows e x acc) (\<lambda>_. ?T) ?E"
      using triple_pg_statement_step[OF law] plain by blast
  qed
  show ?thesis unfolding pg_transaction_body_def split_def
    by (intro triple_seq[OF start] triple_seq[OF statements] triple_response_joined; simp)
qed

lemma rollback_loop_durable:
  assumes law: "pg_law drv sql_of durable staged in_tx plain"
  shows "durable (w_db (fst (rollback_loop n drv env dl w))) = durable (w_db w)"
proof (induction n arbitrary: w)
  case (Suc n)
  obtain s r where s: "pg_batch drv ''ROLLBACK'' (w_db w) = (s, r)" by force
  then have d: "durable s = durable (w_db w)" using pg_law_rollback[OF law] by blast
  show ?case
  proof (cases "env_interrupt env (w_seen w)")
    case None
    then show ?thesis using d s Suc.IH by (cases r) (simp_all add: Let_def ret_def fail_def lift_def)
  next
    case (Some p)
    then show ?thesis using d s Suc.IH pg_law_quiet(1)[OF law] by (cases p) (simp add: Let_def fail_def)
  qed
qed (simp add: lift_def)

lemma pg_cleanup_durable:
  assumes law: "pg_law drv sql_of durable staged in_tx plain"
  shows "durable (w_db (fst (pg_cleanup fuel drv env w))) = durable (w_db w)"
  by (simp add: pg_cleanup_def seq_def now_def lift_def rollback_loop_durable[OF law])

lemma pg_cleanup_then_fail_atomic:
  assumes law: "pg_law drv sql_of durable staged in_tx plain" and w: "durable (w_db w) = d"
  shows "atomic_end durable d S (pg_cleanup_then_fail fuel drv env x w)"
  using pg_cleanup_durable[OF law, of fuel env w] w
  by (auto simp: pg_cleanup_then_fail_def seq_def fail_def atomic_end_def split: prod.splits outcome.splits)

lemma pg_commit_atomic:
  assumes law: "pg_law drv sql_of durable staged in_tx plain" and w: "pg_open durable in_tx d (w_db w)"
    and made: "S bytes (staged (w_db w))"
  shows "atomic_end durable d S (pg_commit fuel drv env dl bytes w)"
proof -
  obtain w1 c where c: "check env dl w = (w1, c)" by force
  have w1: "w_db w1 = w_db w" using check_keeps_db[of env dl w] c by simp
  obtain w2 r where r: "pg_await env (pg_batch drv ''COMMIT'') w1 = (w2, r)" by force
  let ?R = "\<lambda>s. pg_open durable in_tx d s \<and> staged s = staged (w_db w)"
  have "triple (\<lambda>w. ?R (w_db w)) (pg_await env (pg_batch drv ''COMMIT'')) (\<lambda>_ w'. durable (w_db w') = staged (w_db w))
      (\<lambda>w'. durable (w_db w') = d \<or> durable (w_db w') = staged (w_db w))"
    by (rule triple_pg_await) (auto dest: pg_law_commit[OF law])
  note t = this
  have R: "?R (w_db w1)" using w w1 by simp
  note ok = tripleD_Ok[OF t, of w1] and err = tripleD_Err[OF t, of w1] and panic = tripleD_Panic[OF t, of w1]
  show ?thesis
  proof (cases c)
    case (Ok u)
    show ?thesis
    proof (cases r)
      case rOk: (Ok v)
      then have "durable (w_db w2) = staged (w_db w)" using ok R r by simp
      then show ?thesis using c Ok r rOk made by (simp add: pg_commit_def attempt_def ret_def atomic_end_def)
    next
      case (Err x)
      then have w2: "durable (w_db w2) = d \<or> durable (w_db w2) = staged (w_db w)" using err R r by simp
      obtain w3 k where k: "pg_cleanup fuel drv env w2 = (w3, k)" by force
      then have "durable (w_db w3) = durable (w_db w2)" using pg_cleanup_durable[OF law, of fuel env w2] by simp
      then show ?thesis using c Ok r Err k made w2
        by (auto simp: pg_commit_def attempt_def fail_def lift_def atomic_end_def commit_unknown_def)
    next
      case Panic
      then have "durable (w_db w2) = d \<or> durable (w_db w2) = staged (w_db w)" using panic R r by simp
      then show ?thesis using c Ok r Panic made by (auto simp: pg_commit_def attempt_def lift_def atomic_end_def)
    qed
  next
    case (Err x)
    obtain w3 k where k: "pg_cleanup fuel drv env w1 = (w3, k)" by force
    then have "durable (w_db w3) = d" using pg_cleanup_durable[OF law, of fuel env w1] w1 w by simp
    then show ?thesis using c Err k by (auto simp: pg_commit_def attempt_def fail_def lift_def atomic_end_def)
  next
    case Panic
    then show ?thesis using c by (simp add: check_def split: if_splits)
  qed
qed


lemma execute_transaction_atomic:
  assumes law: "pg_law drv sql_of durable staged in_tx plain"
    and plain: "\<forall>s \<in> set (e_statements e). plain (s_sql s)" and w: "durable (w_db w) = d \<and> \<not> in_tx (w_db w)"
  shows "atomic_end durable d
    (\<lambda>bytes x. \<exists>w0 w1. pg_transaction_body fuel drv libs env dl max_rows e prep w0 = (w1, Ok bytes)
        \<and> durable (w_db w0) = d \<and> x = staged (w_db w1))
    (execute_transaction fuel drv libs env dl max_rows e prep w)"
    (is "atomic_end _ _ ?S _")
proof -
  let ?body = "wait env dl (pg_transaction_body fuel drv libs env dl max_rows e prep)"
  have tb: "triple (\<lambda>w. durable (w_db w) = d \<and> \<not> in_tx (w_db w)) ?body
      (\<lambda>_ w. pg_open durable in_tx d (w_db w)) (\<lambda>w. durable (w_db w) = d)"
    by (rule triple_wait[OF _ triple_pg_transaction_body[OF law plain]]) simp
  obtain w1 r where r: "?body w = (w1, r)" by force
  obtain w2 c where c: "check env dl w1 = (w2, c)" by force
  then have w2: "w_db w2 = w_db w1" using check_keeps_db[of env dl w1] by simp
  show ?thesis
  proof (cases r)
    case (Ok bytes)
    then have w1: "pg_open durable in_tx d (w_db w1)" using tripleD_Ok[OF tb] w r by blast
    from r Ok obtain w0 where "check env dl w = (w0, Ok ())" "pg_transaction_body fuel drv libs env dl max_rows e prep w0 = (w1, Ok bytes)"
      by (auto simp: wait_def seq_Ok)
    then have made: "?S bytes (staged (w_db w1))" using check_keeps_db[of env dl w] w
      by (intro exI[of _ w0] exI[of _ w1]) auto
    show ?thesis
    proof (cases c)
      case cOk: (Ok u)
      let ?set = "wait env dl (set_deadline drv env dl)" and ?R = "\<lambda>s. pg_open durable in_tx d s \<and> staged s = staged (w_db w1)"
      obtain w3 p where p: "?set w2 = (w3, p)" by force
      have ts: "triple (\<lambda>w. ?R (w_db w)) ?set (\<lambda>_ w. ?R (w_db w)) (\<lambda>w. durable (w_db w) = d)"
        by (rule triple_wait[OF _ triple_set_deadline_staged[OF law]]) simp
      show ?thesis
      proof (cases p)
        case pOk: (Ok v)
        have "?R (w_db w3)" by (rule tripleD_Ok[OF ts]) (use w1 w2 p pOk in auto)
        then have "atomic_end durable d ?S (pg_commit fuel drv env dl bytes w3)"
          using pg_commit_atomic[OF law, where w = w3 and d = d and S = ?S and bytes = bytes] made by simp
        then show ?thesis using r Ok c cOk p pOk by (simp add: execute_transaction_def attempt_def)
      next
        case (Err x)
        have "durable (w_db w3) = d" by (rule tripleD_Err[OF ts]) (use w1 w2 p Err in auto)
        then show ?thesis using pg_cleanup_then_fail_atomic[OF law, of w3] r Ok c cOk p Err
          by (simp add: execute_transaction_def attempt_def)
      next
        case Panic
        have "durable (w_db w3) = d" by (rule tripleD_Panic[OF ts]) (use w1 w2 p Panic in auto)
        then show ?thesis using r Ok c cOk p Panic by (simp add: execute_transaction_def attempt_def lift_def atomic_end_def)
      qed
    next
      case (Err x)
      then show ?thesis using pg_cleanup_then_fail_atomic[OF law, of w2] r Ok c w1 w2
        by (simp add: execute_transaction_def attempt_def)
    next
      case Panic
      then show ?thesis using c by (simp add: check_def split: if_splits)
    qed
  next
    case (Err x)
    then have "durable (w_db w1) = d" using tripleD_Err[OF tb, of w w1 x] w r by simp
    then show ?thesis using pg_cleanup_then_fail_atomic[OF law, of w1] r Err
      by (simp add: execute_transaction_def attempt_def)
  next
    case Panic
    then have "durable (w_db w1) = d" using tripleD_Panic[OF tb, of w w1] w r by simp
    then show ?thesis using r Panic by (simp add: execute_transaction_def attempt_def lift_def atomic_end_def)
  qed
qed

lemma pg_run_request_atomic:
  assumes law: "pg_law drv sql_of durable staged in_tx plain"
    and plain: "\<forall>s \<in> set (e_statements e). plain (s_sql s)"
  shows "atomic_end durable (durable (w_db w))
    (\<lambda>bytes x. \<exists>w0 w1. pg_transaction_body fuel drv libs env dl max_rows e prep w0 = (w1, Ok bytes)
        \<and> durable (w_db w0) = durable (w_db w) \<and> x = staged (w_db w1))
    (pg_run_request fuel drv libs env dl max_rows e prep w)"
    (is "atomic_end _ ?d ?S _")
proof -
  let ?c = "wait env dl (pg_await env (pg_connect drv))"
  have t: "triple (\<lambda>w. durable (w_db w) = ?d) ?c (\<lambda>_ w. durable (w_db w) = ?d \<and> \<not> in_tx (w_db w)) (\<lambda>w. durable (w_db w) = ?d)"
    by (rule triple_wait[OF _ triple_pg_await]) (auto dest: pg_law_connect[OF law])
  obtain w1 r where r: "?c w = (w1, r)" by force
  let ?f = "execute_transaction fuel drv libs env dl max_rows e prep"
  show ?thesis
  proof (cases r)
    case (Ok u)
    then have "durable (w_db w1) = ?d \<and> \<not> in_tx (w_db w1)" using tripleD_Ok[OF t refl] r by blast
    from execute_transaction_atomic[OF law plain this] have "atomic_end durable ?d ?S (?f w1)" .
    then have "atomic_end durable ?d ?S (drop_after drv ?f w1)"
      using pg_law_quiet(2)[OF law] by (auto simp: drop_after_def atomic_end_def split: prod.splits outcome.splits)
    then show ?thesis using r Ok by (simp add: pg_run_request_def seq_def)
  next
    case (Err x)
    then show ?thesis using tripleD_Err[OF t refl] r by (simp add: pg_run_request_def seq_def atomic_end_def)
  next
    case Panic
    then show ?thesis using tripleD_Panic[OF t refl] r by (simp add: pg_run_request_def seq_def atomic_end_def)
  qed
qed

lemma atomic_end_unchanged: "durable (w_db w') = d \<Longrightarrow> \<not> is_ok r \<Longrightarrow> atomic_end durable d S (w', r)"
  by (cases r) (simp_all add: atomic_end_def)

lemma turso_run_request_atomic:
  assumes quiet: "quiet_law drv sql_of durable staged" and law: "step_law drv sql_of durable staged plain"
    and plain: "\<forall>s \<in> set (e_statements e). plain (s_sql s)"
  shows "case turso_run_request fate fuel drv libs env dl max_rows e prep w of (w', r) \<Rightarrow>
     (case r of
        Ok bytes \<Rightarrow> \<exists>w0 w1. transaction_body fuel drv libs env dl max_rows e prep w0 = (w1, Ok bytes)
          \<and> durable (w_db w0) = durable (w_db w) \<and> durable (w_db w') = staged (w_db w1)
      | Err x \<Rightarrow> durable (w_db w') = durable (w_db w)
          \<or> err_code x \<in> {''commit_outcome_unknown'', ''execution_task_failed''}
      | Panic \<Rightarrow> False)"
proof (cases "\<exists>alive. fate = Ran alive")
  case False
  then show ?thesis by (cases fate) (simp_all add: turso_run_request_def attempt_def check_def fail_def)
next
  case True
  then obtain alive where fate: "fate = Ran alive" ..
  obtain w1 c where c: "check env dl w = (w1, c)" by force
  then have w1: "w_db w1 = w_db w" using check_keeps_db[of env dl w] by simp
  show ?thesis
  proof (cases "c = Ok () \<and> alive")
    case False
    then show ?thesis using c w1 fate by (cases c)
      (auto simp: turso_run_request_def worker_def attempt_def seq_def fail_def lift_def task_failed_def)
  next
    case True
    obtain w2 r where r: "request fuel drv libs env dl max_rows e prep w1 = (w2, r)" by force
    have "turso_run_request fate fuel drv libs env dl max_rows e prep w =
        (w2, case r of Panic \<Rightarrow> Err (task_failed ''Database worker failed'') | _ \<Rightarrow> r)"
      using True fate c r by (cases r) (simp_all add: turso_run_request_def worker_def attempt_def seq_def fail_def lift_def)
    moreover note request_atomic[OF quiet law plain, where w = w1 and fuel = fuel and libs = libs and env = env and dl = dl
        and max_rows = max_rows and prep = prep]
    ultimately show ?thesis using r w1 by (cases r) (auto simp: atomic_end_def task_failed_def)
  qed
qed


section \<open>The executor\<close>

text \<open>The transaction of either backend, and the laws its client keeps.\<close>

definition database_body ::
  "('s, 't, 'p) database \<Rightarrow> nat \<Rightarrow> request_libs \<Rightarrow> env \<Rightarrow> nat \<Rightarrow> nat \<Rightarrow> endpoint \<Rightarrow> prepared \<Rightarrow> ('s world, string) action" where
  "database_body db fuel libs env deadline max_rows e prep =
     (case db of
        Turso_database drv \<Rightarrow> transaction_body fuel drv libs env deadline max_rows e prep
      | Postgres_database drv \<Rightarrow> pg_transaction_body fuel drv libs env deadline max_rows e prep)"

definition lawful_database ::
  "('s, 't, 'p) database \<Rightarrow> ('s \<Rightarrow> 'd) \<Rightarrow> ('s \<Rightarrow> 'd) \<Rightarrow> (string \<Rightarrow> bool) \<Rightarrow> bool" where
  "lawful_database db durable staged plain \<longleftrightarrow>
     (case db of
        Turso_database drv \<Rightarrow> \<exists>sql_of. quiet_law drv sql_of durable staged \<and> step_law drv sql_of durable staged plain
      | Postgres_database drv \<Rightarrow> \<exists>sql_of in_tx. pg_law drv sql_of durable staged in_tx plain)"

lemma run_database_atomic:
  assumes "lawful_database db durable staged plain" and plain: "\<forall>s \<in> set (e_statements e). plain (s_sql s)"
    and "run_database db fate fuel libs env dl max_rows e prep w = (w', r)"
  shows "case r of
        Ok bytes \<Rightarrow> \<exists>w0 w1. database_body db fuel libs env dl max_rows e prep w0 = (w1, Ok bytes)
          \<and> durable (w_db w0) = durable (w_db w) \<and> durable (w_db w') = staged (w_db w1)
      | Err x \<Rightarrow> durable (w_db w') = durable (w_db w)
          \<or> err_code x \<in> {''commit_outcome_unknown'', ''execution_task_failed''}
      | Panic \<Rightarrow> True"
proof (cases db)
  case (Turso_database drv)
  then obtain sql_of where "quiet_law drv sql_of durable staged" "step_law drv sql_of durable staged plain"
    using assms(1) by (auto simp: lawful_database_def)
  from turso_run_request_atomic[OF this plain, where fate = fate and fuel = fuel and libs = libs and env = env and dl = dl
      and max_rows = max_rows and prep = prep and w = w] show ?thesis
    using assms(3) Turso_database by (cases r) (simp_all add: run_database_def database_body_def)
next
  case (Postgres_database drv)
  then obtain sql_of in_tx where "pg_law drv sql_of durable staged in_tx plain"
    using assms(1) by (auto simp: lawful_database_def)
  from pg_run_request_atomic[OF this plain, where fuel = fuel and libs = libs and env = env and dl = dl
      and max_rows = max_rows and prep = prep and w = w] show ?thesis
    using assms(3) Postgres_database by (cases r) (auto simp: run_database_def database_body_def atomic_end_def)
qed

lemma prepare_awaited:
  assumes "wait env dl (awaited env (joined x (prepare env dl plibs e i))) w = (w', r)"
  shows "w_db w' = w_db w" and "r = Ok prep \<Longrightarrow>
    list_all2 (\<lambda>s vs. list_all2 (reads_as plibs i) (s_parameters s) vs) (e_statements e) prep"
proof -
  obtain w1 c where c: "check env dl w = (w1, c)" by force
  then have w1: "w_db w1 = w_db w" using check_keeps_db[of env dl w] by simp
  let ?w = "w1\<lparr>w_seen := Suc (w_seen w1)\<rparr>"
  obtain w2 r2 where r2: "prepare env dl plibs e i ?w = (w2, r2)" by force
  have w2: "w_db w2 = w_db w" using prepare_keeps_db[of env dl plibs e i ?w] r2 w1 by simp
  have j: "joined x (prepare env dl plibs e i) ?w = (w2, if r2 = Panic then Err x else r2)"
    using r2 by (cases r2) (simp_all add: joined_def)
  show "w_db w' = w_db w"
    using assms c w1 w2 j by (cases c) (auto simp: wait_def seq_def awaited_def Let_def split: option.splits if_splits)
  show "list_all2 (\<lambda>s vs. list_all2 (reads_as plibs i) (s_parameters s) vs) (e_statements e) prep" if "r = Ok prep"
  proof -
    have "r2 = Ok prep" using that assms c j
      by (cases c) (auto simp: wait_def seq_def awaited_def Let_def split: option.splits if_splits)
    then show ?thesis using prepare_outcome[OF r2] by simp
  qed
qed

text \<open>The three stages of \<open>execute_tracked\<close>, written out.\<close>

lemma execute_tracked_stages:
  assumes "execute_tracked db fate fuel plibs libs env e i lim w = (w', r)"
  shows "(\<exists>m. r = Err (definition_error m)) \<and> w_db w' = w_db w
    \<or> (\<exists>dl w1 w2 p. w_db w1 = w_db w
        \<and> wait env dl (awaited env (joined (task_failed ''Input validation worker failed'')
               (prepare env dl plibs e i))) w1 = (w2, p)
        \<and> (case p of
             Ok prep \<Rightarrow> (\<exists>r'. run_database db fate fuel libs env dl (lim_max_rows lim) e prep w2 = (w', r')
               \<and> r = (if r' = Panic then Err (task_failed ''Execution worker failed'') else r'))
           | Err x \<Rightarrow> w' = w2 \<and> r = Err x
           | Panic \<Rightarrow> w' = w2 \<and> r = Err (task_failed ''Execution worker failed'')))"
proof (cases "e_backend e \<noteq> database_backend db \<or> env_limit env < env_now env (w_seen w) + lim_timeout lim")
  case True
  then show ?thesis using assms by (auto simp: execute_tracked_def seq_def now_def fail_def split: if_splits)
next
  case False
  let ?dl = "env_now env (w_seen w) + lim_timeout lim" and ?w = "w\<lparr>w_seen := Suc (w_seen w)\<rparr>"
  let ?p = "wait env ?dl (awaited env (joined (task_failed ''Input validation worker failed'') (prepare env ?dl plibs e i)))"
  obtain w2 p where p: "?p ?w = (w2, p)" by force
  let ?x = "task_failed ''Execution worker failed''"
  have e: "execute_tracked db fate fuel plibs libs env e i lim w =
      joined ?x (seq ?p (\<lambda>prep. run_database db fate fuel libs env ?dl (lim_max_rows lim) e prep)) ?w"
    using False by (simp add: execute_tracked_def seq_def[of "now env"] now_def Let_def)
  have "case p of
             Ok prep \<Rightarrow> (\<exists>r'. run_database db fate fuel libs env ?dl (lim_max_rows lim) e prep w2 = (w', r')
               \<and> r = (if r' = Panic then Err ?x else r'))
           | Err x \<Rightarrow> w' = w2 \<and> r = Err x
           | Panic \<Rightarrow> w' = w2 \<and> r = Err ?x"
  proof (cases p)
    case (Ok prep)
    obtain w3 r3 where "run_database db fate fuel libs env ?dl (lim_max_rows lim) e prep w2 = (w3, r3)" by force
    then show ?thesis using assms e p Ok by (cases r3) (auto simp: joined_def seq_def)
  qed (use assms e p in \<open>simp_all add: joined_def seq_def\<close>)
  then show ?thesis using p by (intro disjI2 exI[of _ ?dl] exI[of _ ?w] exI[of _ w2] exI[of _ p]) simp
qed

section \<open>Properties\<close>

text \<open>a request on either backend is executed atomically and never panics. Success means that the
  transaction ran on the values read from the request for every parameter, and what it staged became
  durable; an error means that the durable state is untouched, except for the two errors that say so:
  an unknown commit outcome and a failed worker.
\<close>

theorem execute_tracked_atomic:
  assumes "lawful_database db durable staged plain" and "\<forall>s \<in> set (e_statements e). plain (s_sql s)"
  shows "case execute_tracked db fate fuel plibs libs env e i lim w of (w', r) \<Rightarrow>
     (case r of
        Ok bytes \<Rightarrow> \<exists>dl prep w0 w1.
            list_all2 (\<lambda>s vs. list_all2 (reads_as plibs i) (s_parameters s) vs) (e_statements e) prep
          \<and> database_body db fuel libs env dl (lim_max_rows lim) e prep w0 = (w1, Ok bytes)
          \<and> durable (w_db w0) = durable (w_db w) \<and> durable (w_db w') = staged (w_db w1)
      | Err x \<Rightarrow> durable (w_db w') = durable (w_db w)
          \<or> err_code x \<in> {''commit_outcome_unknown'', ''execution_task_failed''}
      | Panic \<Rightarrow> False)"
proof -
  obtain w' r where r: "execute_tracked db fate fuel plibs libs env e i lim w = (w', r)" by force
  from execute_tracked_stages[OF r] consider
      (rejected) m where "r = Err (definition_error m)" "w_db w' = w_db w"
    | (ran) dl w1 w2 p where "w_db w1 = w_db w"
        "wait env dl (awaited env (joined (task_failed ''Input validation worker failed'')
               (prepare env dl plibs e i))) w1 = (w2, p)"
        "case p of
             Ok prep \<Rightarrow> (\<exists>r'. run_database db fate fuel libs env dl (lim_max_rows lim) e prep w2 = (w', r')
               \<and> r = (if r' = Panic then Err (task_failed ''Execution worker failed'') else r'))
           | Err x \<Rightarrow> w' = w2 \<and> r = Err x
           | Panic \<Rightarrow> w' = w2 \<and> r = Err (task_failed ''Execution worker failed'')"
    by blast
  then show ?thesis
  proof cases
    case rejected
    then show ?thesis using r by simp
  next
    case ran
    note p = prepare_awaited[OF ran(2)]
    have w2: "w_db w2 = w_db w" using p(1) ran(1) by simp
    show ?thesis
    proof (cases p)
      case (Ok prep)
      then obtain r' where r': "run_database db fate fuel libs env dl (lim_max_rows lim) e prep w2 = (w', r')"
        and rr: "r = (if r' = Panic then Err (task_failed ''Execution worker failed'') else r')" using ran(3) by auto
      from run_database_atomic[OF assms r'] show ?thesis
        using r rr w2 p(2)[OF Ok] by (cases r') (auto simp: task_failed_def)
    qed (use r ran(3) w2 in \<open>auto simp: task_failed_def\<close>)
  qed
qed


text \<open>
  C6: a PostgreSQL request is atomic whatever awaited call is abandoned by cancellation or by the
  deadline, before or after it reached the server: success means that what its statements staged is
  durable, an error that nothing is, except that an unconfirmed commit is reported as
  \<open>commit_outcome_unknown\<close>.
\<close>

theorem pg_request_atomic:
  assumes "pg_law drv sql_of durable staged in_tx plain" and "\<forall>s \<in> set (e_statements e). plain (s_sql s)"
  shows "atomic_end durable (durable (w_db w))
    (\<lambda>bytes x. \<exists>w0 w1. pg_transaction_body fuel drv libs env dl max_rows e prep w0 = (w1, Ok bytes)
        \<and> durable (w_db w0) = durable (w_db w) \<and> x = staged (w_db w1))
    (pg_run_request fuel drv libs env dl max_rows e prep w)"
  using assms by (rule pg_run_request_atomic)

text \<open>Which boxed option the server expects for a declared type, and whether it is a null.\<close>

fun param_fits :: "pg_type \<Rightarrow> pg_param \<Rightarrow> bool" where
  "param_fits TEXT_P (OText _) = True"
| "param_fits BOOL_P (OBool _) = True"
| "param_fits INT8_P (OInt8 _) = True"
| "param_fits FLOAT8_P (OFloat8 _) = True"
| "param_fits JSONB_P (OJson _) = True"
| "param_fits _ _ = False"

fun param_null :: "pg_param \<Rightarrow> bool" where
  "param_null (OText x) = (x = None)"
| "param_null (OBool x) = (x = None)"
| "param_null (OInt8 x) = (x = None)"
| "param_null (OFloat8 x) = (x = None)"
| "param_null (OJson x) = (x = None)"

lemma strip_nullable_check:
  "Type_check ty v \<Longrightarrow> v \<noteq> JNull \<Longrightarrow> Type_check (strip_nullable ty) v"
  by (induction ty) auto

lemma strip_nullable_type: "parameter_type (strip_nullable ty) = parameter_type ty"
  by (induction ty) auto

lemma strip_nullable_not: "strip_nullable ty \<noteq> Nullable_T t"
  by (induction ty) auto

text \<open>binding a value of the declared type never reaches \<open>unreachable!\<close>, boxes it for exactly the type
  the statement is prepared with, and binds a null only for a JSON null.
\<close>

theorem pg_bind_typed:
  assumes "Type_check (bv_ty b) (bv_value b)"
  shows "\<exists>p. pg_bind b = Ok p \<and> param_fits (parameter_type (bv_ty b)) p \<and> (param_null p \<longleftrightarrow> bv_value b = JNull)"
proof (cases "bv_value b = JNull")
  case True
  then show ?thesis using strip_nullable_not[of "bv_ty b"] strip_nullable_type[of "bv_ty b"]
    by (cases "strip_nullable (bv_ty b)") (auto simp: pg_bind_def simp flip: strip_nullable_type[of "bv_ty b"])
next
  case False
  from strip_nullable_check[OF assms False] show ?thesis using False strip_nullable_not[of "bv_ty b"]
    by (cases "strip_nullable (bv_ty b)")
      (auto simp: pg_bind_def simp flip: strip_nullable_type[of "bv_ty b"] split: option.splits)
qed

text \<open>a row of supported columns never fails for an unsupported type; decoding it either gives one
  cell per column, null exactly where the column is null, or fails as a contract mismatch.
\<close>

theorem pg_decode_supported:
  assumes "list_all (\<lambda>(ty, _). supported ty) row"
  shows "case pg_decode row of
      Ok cells \<Rightarrow> list_all2 (\<lambda>(_, x) c. x = Inr None \<longleftrightarrow> c = CNull) row cells
    | Err x \<Rightarrow> err_code x = ''response_contract_mismatch'' \<and> err_status x = 500 \<and> x \<noteq> unsupported_type
    | Panic \<Rightarrow> False"
proof -
  have conv: "read_column f x = Ok c \<Longrightarrow> (\<And>v. f v \<noteq> Some CNull) \<Longrightarrow> (x = Inr None \<longleftrightarrow> c = CNull)" for f x c
    by (auto simp: read_column_def split: sum.splits option.splits)
  have err: "read_column f x = Err y \<Longrightarrow> err_code y = ''response_contract_mismatch'' \<and> err_status y = 500 \<and> y \<noteq> unsupported_type" for f x y
    by (auto simp: read_column_def cannot_decode_def unsupported_type_def with_diagnostic_def contract_error_def new_error_def
        split: sum.splits option.splits)
  have panic: "read_column f x \<noteq> Panic" for f x
    by (auto simp: read_column_def split: sum.splits option.splits)
  have no_null: "read_bool v \<noteq> Some CNull" "read_int2 v \<noteq> Some CNull" "read_int4 v \<noteq> Some CNull" "read_int8 v \<noteq> Some CNull"
    "read_float4 v \<noteq> Some CNull" "read_float8 v \<noteq> Some CNull" "read_string v \<noteq> Some CNull" "read_json v \<noteq> Some CNull" for v
    by (cases v; simp)+
  have "\<exists>f. decode_column p = read_column f (snd p) \<and> (\<forall>v. f v \<noteq> Some CNull)" if "supported (fst p)" for p
    using that no_null by (cases p; cases "fst p") (auto simp: supported_def)
  then have col: "\<exists>f. decode_column p = read_column f (snd p) \<and> (\<forall>v. f v \<noteq> Some CNull)" if "p \<in> set row" for p
    using that assms by (auto simp: list_all_iff)
  show ?thesis
  proof (cases "pg_decode row")
    case (Ok cells)
    then have "list_all2 (\<lambda>p c. decode_column p = Ok c) row cells" by (simp add: pg_decode_def outcome_simps)
    then have "list_all2 (\<lambda>(_, x) c. x = Inr None \<longleftrightarrow> c = CNull) row cells"
      by (rule list.rel_mono_strong) (use col conv in \<open>fastforce split: prod.splits\<close>)
    then show ?thesis using Ok by simp
  next
    case (Err x)
    then obtain p where "p \<in> set row" "decode_column p = Err x" 
      unfolding pg_decode_def by (induction row) (auto simp: outcome_simps)
    then show ?thesis using col err Err by fastforce
  next
    case Panic
    then show ?thesis using col panic try_map_not_Panic[of row decode_column] unfolding pg_decode_def by metis
  qed
qed


section \<open>Witnesses\<close>

definition pg_counter_batch :: "string \<Rightarrow> counter \<Rightarrow> counter \<times> (pg_error, unit) outcome" where
  "pg_counter_batch q = (\<lambda>(d, p, tx).
     if q = ''BEGIN'' \<or> q = ''BEGIN READ ONLY'' then ((d, d, True), Ok ())
     else if q = ''COMMIT'' then ((p, p, False), Ok ())
     else ((d, d, False), Ok ()))"

definition pg_counter :: "(counter, string) pg_driver" where
  "pg_counter =
     \<lparr>pg_connect = (\<lambda>(d, _, _). ((d, d, False), Ok ())), pg_batch = pg_counter_batch,
      pg_query_one = (\<lambda>_ _ s. (s, Ok ())), pg_prepare = (\<lambda>q _ s. (s, Ok q)),
      pg_query = (\<lambda>q _ (d, p, tx). ((if tx then d else p + 1, p + 1, tx), Ok ())),
      pg_next = (\<lambda>_ s. (s, Ok None)), pg_columns = (\<lambda>_. []), pg_cancel = id, pg_drop = (\<lambda>(d, _, _). (d, d, False)),
      pg_debug_error = (\<lambda>_. [])\<rparr>"

definition pg_endpoint :: endpoint where
  "pg_endpoint = counter_endpoint\<lparr>e_backend := backend.Postgres\<rparr>"

lemma pg_counter_law: "pg_law pg_counter id fst (\<lambda>s. fst (snd s)) (\<lambda>s. snd (snd s)) (\<lambda>q. q = ''ADD'')"
  by (auto simp: pg_law_def pg_counter_def pg_counter_batch_def split: if_splits)

abbreviation (input) pg_start :: "counter world" where
  "pg_start \<equiv> \<lparr>w_seen = 0, w_db = (3, 3, False)\<rparr>"

lemmas pg_run = pg_counter_def pg_counter_batch_def pg_endpoint_def counter_endpoint_def counter_libs_def pg_run_request_def
  execute_transaction_def pg_transaction_body_def pg_statement_step_def set_deadline_def pg_final_columns_def pg_commit_def
  pg_await_def awaited_def wait_def joined_def drop_after_def response_def is_read_def seq_def attempt_def check_def now_def
  remaining_def ret_def fail_def lift_def call_def still_env_def counter_env_def Let_def

abbreviation (input) pg_counter_request :: "env \<Rightarrow> (counter world, string) action" where
  "pg_counter_request env \<equiv> pg_run_request (Suc 0) pg_counter counter_libs env 7 5 pg_endpoint [[]]"

lemma pg_counter_result: "snd (pg_counter_request still_env pg_start) = Ok ''{}''
    \<and> w_db (fst (pg_counter_request still_env pg_start)) = (4, 4, False)"
  by (simp add: pg_run)

theorem pg_request_atomic_witness:
  "\<exists>w0 w1. pg_transaction_body (Suc 0) pg_counter counter_libs still_env 7 5 pg_endpoint [[]] w0 = (w1, Ok ''{}'')
     \<and> fst (w_db w0) = 3 \<and> 4 = fst (snd (w_db w1))"
proof -
  have "atomic_end fst (fst (w_db pg_start))
    (\<lambda>bytes x. \<exists>w0 w1. pg_transaction_body (Suc 0) pg_counter counter_libs still_env 7 5 pg_endpoint [[]] w0
         = (w1, Ok bytes) \<and> fst (w_db w0) = fst (w_db pg_start) \<and> x = fst (snd (w_db w1)))
    (pg_counter_request still_env pg_start)"
    by (rule pg_request_atomic[OF pg_counter_law]) (simp add: pg_endpoint_def counter_endpoint_def)
  then show ?thesis using pg_counter_result unfolding atomic_end_def split_def by simp
qed

definition counter_params_libs :: params_libs where
  "counter_params_libs = \<lparr>lib_from_str = (\<lambda>_. None), lib_visit = (\<lambda>_. None), lib_percent_decode = Some,
     lib_form_parse = (\<lambda>_. [])\<rparr>"

abbreviation (input) counter_execute :: "(counter world, string) action" where
  "counter_execute \<equiv> execute_tracked (Postgres_database pg_counter :: (counter, unit, string) database) Queued (Suc 0)
     counter_params_libs counter_libs still_env pg_endpoint example_input \<lparr>lim_timeout = 7, lim_max_rows = 5\<rparr>"

lemma counter_execute_result: "snd (counter_execute pg_start) = Ok ''{}'' \<and> w_db (fst (counter_execute pg_start)) = (4, 4, False)"
  by (simp add: execute_tracked_def run_database_def prepare_def prepare_statement_def pg_run FIVE_SECONDS_def)

theorem execute_tracked_atomic_witness:
  "\<exists>dl prep w0 w1. list_all2 (\<lambda>s vs. list_all2 (reads_as counter_params_libs example_input) (s_parameters s) vs)
       (e_statements pg_endpoint) prep
     \<and> database_body (Postgres_database pg_counter :: (counter, unit, string) database) (Suc 0) counter_libs still_env dl 5
          pg_endpoint prep w0 = (w1, Ok ''{}'')
     \<and> fst (w_db w0) = 3 \<and> 4 = fst (snd (w_db w1))"
proof -
  have law: "lawful_database (Postgres_database pg_counter :: (counter, unit, string) database) fst (\<lambda>s. fst (snd s)) (\<lambda>q. q = ''ADD'')"
    unfolding lawful_database_def database.case using pg_counter_law by blast
  obtain w' r where r: "counter_execute pg_start = (w', r)" by force
  have "r = Ok ''{}''" "w_db w' = (4, 4, False)" using counter_execute_result r by simp_all
  then show ?thesis
    using execute_tracked_atomic[OF law, where e = pg_endpoint and fate = Queued and fuel = "Suc 0" and plibs = counter_params_libs
        and libs = counter_libs and env = still_env and i = example_input and lim = "\<lparr>lim_timeout = 7, lim_max_rows = 5\<rparr>"
        and w = pg_start] r
    by (simp add: pg_endpoint_def counter_endpoint_def)
qed

theorem pg_bind_typed_witness:
  "\<exists>p. pg_bind \<lparr>bv_ty = Nullable_T String_T, bv_value = JString ''a''\<rparr> = Ok p \<and> param_fits TEXT_P p \<and> \<not> param_null p"
  using pg_bind_typed[of "\<lparr>bv_ty = Nullable_T String_T, bv_value = JString ''a''\<rparr>"] by simp

theorem pg_decode_supported_witness:
  "list_all2 (\<lambda>(_, x) c. x = Inr None \<longleftrightarrow> c = CNull) [(INT2_P, Inr (Some (PInt2 7))), (TEXT_P, Inr None)] [CInteger 7, CNull]"
  using pg_decode_supported[of "[(INT2_P, Inr (Some (PInt2 7))), (TEXT_P, Inr None)]"]
  by (simp add: supported_def pg_decode_def read_column_def)

end
