(* ===== verification/Migration.thy ===== *)
theory Migration
  imports Postgres
begin

text \<open>
  \<^verbatim>\<open>src/migration.rs\<close>: forward-only migrations. A plan is read from a directory, compared with
  the history recorded in the database, and what is pending is applied in order, each file in one
  transaction together with its history record. SHA-256, the JSON codec and the word list of the
  tokenizer are parameters.
\<close>

section \<open>Data\<close>

text \<open>Versions are \<open>i64\<close>; they are kept as the integers they denote.\<close>

record applied_migration =
  am_version :: int
  am_filename :: string
  am_source :: string
  am_checksum :: string

record migration_file =
  mf_record :: applied_migration
  mf_endpoint :: endpoint
  mf_input :: input

type_synonym plan = "(int \<times> migration_file) list"

text \<open>
  \<open>ml_words\<close> are the \<open>value\<close>s of the word tokens of a text; \<open>ml_response\<close> is
  \<open>from_slice::<Response>\<close> with the derived decoder of a record.
\<close>

record migration_libs =
  ml_loader :: loader_libs
  ml_params :: params_libs
  ml_sha256 :: "string \<Rightarrow> string"
  ml_words :: "backend \<Rightarrow> string \<Rightarrow> string list option"
  ml_to_vec :: "json \<Rightarrow> string option"
  ml_from_slice :: "string \<Rightarrow> json option"
  ml_response :: "string \<Rightarrow> applied_migration list option"

definition invalid :: "string \<Rightarrow> sqlrest_error" where
  "invalid message = new_error 400 ''invalid_migration'' message"

definition corrupt :: sqlrest_error where
  "corrupt = new_error 500 ''migration_history_corrupt'' ''Migration history cannot be trusted''"

definition history_mismatch :: sqlrest_error where
  "history_mismatch = new_error 409 ''migration_history_mismatch''
     ''An applied migration is missing or changed; export and restore its original file''"

definition not_above :: sqlrest_error where
  "not_above = invalid ''New migrations must have versions above all applied versions''"


section \<open>Names\<close>

definition migration_name_char :: "char \<Rightarrow> bool" where
  "migration_name_char c \<longleftrightarrow> is_ascii_alphanumeric c \<or> c = CHR ''_'' \<or> c = CHR ''-''"

definition version :: "string \<Rightarrow> int result" where
  "version filename =
     and_then (ok_or (invalid ''Expected a migration filename such as 0001_create_todos.sql'')
       (Option.bind (strip_suffix ''.sql'' filename) (split_once CHR ''_''))) (\<lambda>(number, name).
     if number = [] \<or> \<not> list_all is_ascii_digit number \<or> name = [] \<or> \<not> list_all migration_name_char name
     then Err (invalid ''Invalid migration filename'')
     else (case parse_i64 number of
         Some n \<Rightarrow> if 0 <s n then Ok (sint n) else Err (invalid ''Migration version must be a positive int64'')
       | None \<Rightarrow> Err (invalid ''Migration version must be a positive int64'')))"

definition MIGRATION_TABLE :: string where
  "MIGRATION_TABLE = ''__sqlrest_migrations''"

definition migration_table :: "backend \<Rightarrow> string" where
  "migration_table b =
     (case b of backend.Turso \<Rightarrow> ''main'' | backend.Postgres \<Rightarrow> ''public'') @ ''.'' @ [CHR 0x22] @ MIGRATION_TABLE @ [CHR 0x22]"

text \<open>\<open>endpoint\<close>: one endpoint compiled from a single statement file; \<open>[0]\<close> panics when there is none.\<close>

definition migration_endpoint ::
  "loader_libs \<Rightarrow> string \<Rightarrow> string \<Rightarrow> string option \<Rightarrow> backend \<Rightarrow> endpoint result" where
  "migration_endpoint libs method sql schema b =
     (let files = [(method @ ''.sql'', sql)];
          files = (case schema of Some s \<Rightarrow> bt_insert (method @ ''.response.yaml'') s files | None \<Rightarrow> files) in
      and_then (from_files libs files b) (\<lambda>s.
        case sn_endpoints s of [] \<Rightarrow> Panic | e # _ \<Rightarrow> Ok e))"


section \<open>Loading a plan\<close>

text \<open>
  What the calls on one directory entry return: an unreadable entry, an unknown type, or an entry
  that is a regular file or not, with its UTF-8 name and its UTF-8 contents where there are any.
\<close>

datatype migration_item =
    Unreadable_entry
  | Unknown_type
  | Migration_entry bool "string option" "string option"

definition migration_sql :: "backend \<Rightarrow> string \<Rightarrow> string" where
  "migration_sql b source =
     ''CREATE TABLE IF NOT EXISTS '' @ migration_table b
     @ '' (version BIGINT NOT NULL PRIMARY KEY, filename TEXT NOT NULL UNIQUE, source TEXT NOT NULL, checksum TEXT NOT NULL);''
     @ [CHR 0x0A] @ source @ [CHR 0x0A] @ '';'' @ [CHR 0x0A]
     @ ''INSERT INTO '' @ migration_table b
     @ ''(version,filename,source,checksum) VALUES(${body.version:int64},${body.filename:string},${body.source:string},${body.checksum:string})''"

definition migration_record_json :: "applied_migration \<Rightarrow> json" where
  "migration_record_json r =
     json_obj [(''version'', JNumber (number_of_i64 (word_of_int (am_version r)))), (''filename'', JString (am_filename r)),
       (''source'', JString (am_source r)), (''checksum'', JString (am_checksum r))]"

definition load_migration ::
  "migration_libs \<Rightarrow> backend \<Rightarrow> string \<Rightarrow> string option \<Rightarrow> migration_file result" where
  "load_migration libs b filename contents =
     and_then (version filename) (\<lambda>v.
     and_then (ok_or (invalid ''Cannot read migration SQL as UTF-8'') contents) (\<lambda>source.
     and_then (map_err (\<lambda>_. invalid ''Unsupported or invalid transactional migration SQL'')
       (compile (ll_sql (ml_loader libs)) source b)) (\<lambda>statements.
     if list_ex (\<lambda>s. s_parameters s \<noteq> []) statements
     then Err (invalid ''Migration SQL cannot contain request parameters'')
     else
     and_then (ok_or (invalid ''Invalid migration SQL'') (ml_words libs b source)) (\<lambda>words.
     if list_ex (\<lambda>w. starts_with (map ascii_lower w) ''__sqlrest_'') words
     then Err (invalid ''Migration SQL cannot reference reserved metadata identifiers'')
     else
     let record = \<lparr>am_version = v, am_filename = filename, am_source = source, am_checksum = ml_sha256 libs source\<rparr> in
     and_then (migration_endpoint (ml_loader libs) ''post'' (migration_sql b source) None b) (\<lambda>e.
     and_then (ok_or (invalid ''Cannot encode migration record'') (ml_to_vec libs (migration_record_json record))) (\<lambda>body.
     and_then (Input_from_http (ml_params libs) [] body) (\<lambda>i.
     Ok \<lparr>mf_record = record, mf_endpoint = e, mf_input = i\<rparr>)))))))"

fun plan_step :: "migration_libs \<Rightarrow> backend \<Rightarrow> migration_item \<Rightarrow> plan \<Rightarrow> plan result" where
  "plan_step libs b Unreadable_entry files = Err (invalid ''Cannot read migration entry'')"
| "plan_step libs b Unknown_type files = Err (invalid ''Cannot inspect migration entry'')"
| "plan_step libs b (Migration_entry is_file name contents) files =
     (if \<not> is_file then Err (invalid ''Migrations must be regular files, not directories or symlinks'')
      else
        and_then (ok_or (invalid ''Migration filename must be UTF-8'') name) (\<lambda>filename.
        and_then (load_migration libs b filename contents) (\<lambda>file.
        if map_of files (am_version (mf_record file)) \<noteq> None
        then Err (invalid ''Duplicate numeric migration version'')
        else Ok (bt_insert (am_version (mf_record file)) file files))))"

definition Plan_load :: "migration_libs \<Rightarrow> migration_item list option \<Rightarrow> backend \<Rightarrow> plan result" where
  "Plan_load libs dir b =
     and_then (ok_or (invalid ''Cannot read migration directory'') dir) (\<lambda>items.
     try_fold (plan_step libs b) items [])"


section \<open>Comparing with the history\<close>

definition highest_version :: "applied_migration list \<Rightarrow> int" where
  "highest_version history = (if history = [] then 0 else am_version (last history))"

definition Plan_validate :: "plan \<Rightarrow> applied_migration list \<Rightarrow> unit result" where
  "Plan_validate files history =
     and_then (try_each (\<lambda>record.
         if map_option mf_record (map_of files (am_version record)) \<noteq> Some record then Err history_mismatch else Ok ())
       history) (\<lambda>_.
     try_each (\<lambda>file.
         if am_version (mf_record file) \<in> am_version ` set history then Ok ()
         else if am_version (mf_record file) \<le> highest_version history then Err not_above
         else Ok ())
       (map snd files))"

definition into_pending :: "plan \<Rightarrow> applied_migration list \<Rightarrow> migration_file list result" where
  "into_pending files history =
     and_then (Plan_validate files history) (\<lambda>_.
     Ok (filter (\<lambda>file. highest_version history < am_version (mf_record file)) (map snd files)))"

definition history_step :: "(string \<Rightarrow> string) \<Rightarrow> applied_migration \<Rightarrow> int \<Rightarrow> int result" where
  "history_step sha256 r previous =
     (if version (am_filename r) \<noteq> Ok (am_version r) \<or> am_version r \<le> previous \<or> am_checksum r \<noteq> sha256 (am_source r)
      then Err corrupt
      else Ok (am_version r))"

definition decode_history :: "migration_libs \<Rightarrow> string \<Rightarrow> applied_migration list result" where
  "decode_history libs bytes =
     and_then (ok_or corrupt (ml_response libs bytes)) (\<lambda>records.
     map_ok (\<lambda>_. records) (try_fold (history_step (ml_sha256 libs)) records 0))"


section \<open>The migrator\<close>

definition RECORD_SCHEMA :: string where
  \<open>RECORD_SCHEMA = ''{"type":"object","properties":{"version":{"type":"integer"},"filename":{"type":"string"},"source":{"type":"string"},"checksum":{"type":"string"}},"required":["version","filename","source","checksum"],"additionalProperties":false}''\<close>

definition COUNT_SCHEMA :: string where
  \<open>COUNT_SCHEMA = ''{"type":"object","properties":{"total":{"type":"integer"}},"required":["total"],"additionalProperties":false}''\<close>

text \<open>The executor of the migrator is the one of the workspace.\<close>

record 's migrator =
  mg_execute :: "endpoint \<Rightarrow> input \<Rightarrow> limits \<Rightarrow> ('s world, string) action"
  mg_backend :: backend
  mg_timeout :: nat

definition USIZE_MAX :: nat where
  "USIZE_MAX = 18446744073709551615"

definition migrator_limits :: "'s migrator \<Rightarrow> limits" where
  "migrator_limits mg = \<lparr>lim_timeout = mg_timeout mg, lim_max_rows = USIZE_MAX\<rparr>"

definition Input_default :: input where
  "Input_default = \<lparr>in_path = [], in_query = [], in_body = JNull\<rparr>"

definition quoted :: "string \<Rightarrow> string" where
  "quoted s = [CHR 0x27] @ s @ [CHR 0x27]"

definition exists_sql :: "backend \<Rightarrow> string" where
  "exists_sql b =
     (case b of
        backend.Turso \<Rightarrow> ''SELECT count(*) AS total FROM main.sqlite_schema WHERE name='' @ quoted MIGRATION_TABLE
      | backend.Postgres \<Rightarrow>
          ''SELECT count(*) AS total FROM pg_catalog.pg_class c JOIN pg_catalog.pg_namespace n ON n.oid=c.relnamespace WHERE n.nspname=''
          @ quoted ''public'' @ '' AND c.relname='' @ quoted MIGRATION_TABLE)"

text \<open>\<open>value["records"][0]["total"] == 0\<close>: a missing step of the path is \<open>null\<close>.\<close>

definition json_field :: "string \<Rightarrow> json \<Rightarrow> json" where
  "json_field k v = (case json_get k v of Some x \<Rightarrow> x | None \<Rightarrow> JNull)"

definition json_first :: "json \<Rightarrow> json" where
  "json_first v = (case v of JArray (x # _) \<Rightarrow> x | _ \<Rightarrow> JNull)"

definition no_history :: "json \<Rightarrow> bool" where
  "no_history v \<longleftrightarrow> as_i64 (json_field ''total'' (json_first (json_field ''records'' v))) = Some 0"

definition migrator_history ::
  "env \<Rightarrow> migration_libs \<Rightarrow> 's migrator \<Rightarrow> ('s world, applied_migration list) action" where
  "migrator_history env libs mg =
     seq (now env) (\<lambda>t.
     if env_limit env < t + mg_timeout mg then lift Panic
     else
       let deadline = t + mg_timeout mg in
       seq (lift (migration_endpoint (ml_loader libs) ''get'' (exists_sql (mg_backend mg)) (Some COUNT_SCHEMA) (mg_backend mg))) (\<lambda>e.
       seq (mg_execute mg e Input_default (migrator_limits mg)) (\<lambda>bytes.
       seq (lift (ok_or corrupt (ml_from_slice libs bytes))) (\<lambda>value.
       if no_history value then ret []
       else
         seq (now env) (\<lambda>t.
         if \<not> t < deadline then fail timeout_error
         else
           seq (lift (migration_endpoint (ml_loader libs) ''get''
             (''SELECT version,filename,source,checksum FROM '' @ migration_table (mg_backend mg) @ '' ORDER BY version'')
             (Some RECORD_SCHEMA) (mg_backend mg))) (\<lambda>e.
           seq (mg_execute mg e Input_default ((migrator_limits mg)\<lparr>lim_timeout := deadline - t\<rparr>)) (\<lambda>bytes.
           joined corrupt (lift (decode_history libs bytes)))))))))"

definition migrator_apply :: "'s migrator \<Rightarrow> migration_file \<Rightarrow> ('s world, unit) action" where
  "migrator_apply mg f =
     seq (mg_execute mg (mf_endpoint f) (mf_input f) \<lparr>lim_timeout = mg_timeout mg, lim_max_rows = 0\<rparr>) (\<lambda>_. ret ())"

section \<open>Properties of names\<close>

lemma version_Ok:
  "version filename = Ok v \<longleftrightarrow>
     (\<exists>number name. filename = number @ ''_'' @ name @ ''.sql'' \<and> number \<noteq> [] \<and> list_all is_ascii_digit number
        \<and> name \<noteq> [] \<and> list_all migration_name_char name \<and> v = int (decimal_value number) \<and> 0 < v \<and> v < 2 ^ 63)"
  (is "?L = ?R")
proof -
  have digits: "parse_i64 number = (if int (decimal_value number) < 2 ^ 63 then Some (word_of_int (int (decimal_value number))) else None)"
    if "number \<noteq> []" "list_all is_ascii_digit number" for number
  proof -
    have "hd number \<noteq> CHR ''-''" "hd number \<noteq> CHR ''+''" using that by (cases number; auto simp: ascii_defs)+
    then have "\<not> starts_with number ''-''" "\<not> starts_with number ''+''" using that by (cases number; simp add: starts_with_prefix)+
    then show ?thesis using that by (auto simp: parse_i64_def Let_def)
  qed
  have pos: "(case parse_i64 number of Some n \<Rightarrow> if 0 <s n then Ok (sint n) else Err e | None \<Rightarrow> Err e) = Ok v
      \<longleftrightarrow> v = int (decimal_value number) \<and> 0 < v \<and> v < 2 ^ 63"
    if "number \<noteq> []" "list_all is_ascii_digit number" for number and e :: sqlrest_error
    using digits[OF that] sint_word_of_int[of "int (decimal_value number)"] by (auto simp: word_sless_alt)
  have under: "CHR ''_'' \<notin> set number" if "list_all is_ascii_digit number" for number
    using that by (auto simp: list_all_iff ascii_defs)
  show ?thesis
  proof
    assume ?L
    then obtain number name where parts: "Option.bind (strip_suffix ''.sql'' filename) (split_once CHR ''_'') = Some (number, name)"
      and ok: "number \<noteq> []" "list_all is_ascii_digit number" "name \<noteq> []" "list_all migration_name_char name"
      and v: "(case parse_i64 number of Some n \<Rightarrow> if 0 <s n then Ok (sint n) else Err (invalid ''Migration version must be a positive int64'')
        | None \<Rightarrow> Err (invalid ''Migration version must be a positive int64'')) = Ok v"
      unfolding version_def and_then_Ok_iff ok_or_Ok_iff by (auto split: if_splits)
    from parts obtain stem where "filename = stem @ ''.sql''" "stem = number @ CHR ''_'' # name"
      by (auto simp: bind_eq_Some_conv strip_suffix_iff split_once_iff)
    then show ?R using ok v pos[OF ok(1,2)] by (intro exI[of _ number] exI[of _ name]) simp
  next
    assume ?R
    then obtain number name where f: "filename = number @ ''_'' @ name @ ''.sql''"
      and ok: "number \<noteq> []" "list_all is_ascii_digit number" "name \<noteq> []" "list_all migration_name_char name"
      and v: "v = int (decimal_value number)" "0 < v" "v < 2 ^ 63" by blast
    have "strip_suffix ''.sql'' filename = Some (number @ CHR ''_'' # name)" using f by (simp add: strip_suffix_iff)
    moreover have "split_once CHR ''_'' (number @ CHR ''_'' # name) = Some (number, name)"
      using under[OF ok(2)] by (simp add: split_once_iff)
    ultimately have "Option.bind (strip_suffix ''.sql'' filename) (split_once CHR ''_'') = Some (number, name)" by simp
    then show ?L using ok pos[OF ok(1,2)] v by (simp add: version_def)
  qed
qed

section \<open>Plans\<close>

text \<open>A loaded plan: sorted by version, each file under its own positive version.\<close>

definition plan_wf :: "plan \<Rightarrow> bool" where
  "plan_wf files \<longleftrightarrow> bt_wf files \<and> (\<forall>(k, f) \<in> set files. am_version (mf_record f) = k \<and> 0 < k)"

lemma load_migration_Ok:
  assumes "load_migration libs b filename contents = Ok file"
  shows "version filename = Ok (am_version (mf_record file))" and "am_filename (mf_record file) = filename"
    and "contents = Some (am_source (mf_record file))" and "am_checksum (mf_record file) = ml_sha256 libs (am_source (mf_record file))"
  using assms unfolding load_migration_def by (auto simp: outcome_simps Let_def split: if_splits)

lemma version_positive: "version filename = Ok v \<Longrightarrow> 0 < v"
  by (auto simp: version_Ok)

lemma plan_step_wf:
  assumes "plan_step libs b item files = Ok files'" and "plan_wf files"
  shows "plan_wf files'"
proof -
  obtain name contents where item: "item = Migration_entry True (Some name) contents"
    using assms(1) by (cases item) (auto simp: outcome_simps split: if_splits)
  with assms(1) obtain f where f: "load_migration libs b name contents = Ok f"
    and new: "files' = bt_insert (am_version (mf_record f)) f files"
    by (auto simp: outcome_simps split: if_splits)
  have "0 < am_version (mf_record f)" using version_positive[OF load_migration_Ok(1)[OF f]] .
  then show ?thesis using assms(2) new set_bt_insert_subset[of "am_version (mf_record f)" f files]
    by (auto simp: plan_wf_def)
qed

lemma Plan_load_wf:
  assumes "Plan_load libs dir b = Ok files"
  shows "plan_wf files"
proof -
  obtain items where "try_fold (plan_step libs b) items [] = Ok files"
    using assms by (auto simp: Plan_load_def outcome_simps)
  then show ?thesis by (rule try_fold_invariant) (simp add: plan_wf_def, rule plan_step_wf)
qed

section \<open>Histories\<close>

definition history_wf :: "(string \<Rightarrow> string) \<Rightarrow> applied_migration list \<Rightarrow> bool" where
  "history_wf sha256 records \<longleftrightarrow> sorted_wrt (<) (map am_version records)
     \<and> list_all (\<lambda>r. version (am_filename r) = Ok (am_version r) \<and> am_checksum r = sha256 (am_source r)) records"

lemma history_fold:
  "try_fold (history_step sha256) records p = Ok q \<Longrightarrow>
     history_wf sha256 records \<and> (\<forall>r \<in> set records. p < am_version r)"
proof (induction records arbitrary: p)
  case (Cons r records)
  then obtain p' where step: "history_step sha256 r p = Ok p'" and rest: "try_fold (history_step sha256) records p' = Ok q"
    by (auto simp: outcome_simps)
  then have r: "version (am_filename r) = Ok (am_version r)" "p < am_version r" "am_checksum r = sha256 (am_source r)"
    and "p' = am_version r" by (auto simp: history_step_def split: if_splits)
  with rest have rest: "try_fold (history_step sha256) records (am_version r) = Ok q" by simp
  from Cons.IH[OF rest] r show ?case by (auto simp: history_wf_def)
qed (simp add: history_wf_def)

lemma decode_history_wf: "decode_history libs bytes = Ok records \<Longrightarrow> history_wf (ml_sha256 libs) records"
  by (auto simp: decode_history_def outcome_simps dest: history_fold)


section \<open>Pending migrations\<close>

lemma sorted_split:
  fixes f :: "'a \<Rightarrow> int"
  shows "sorted_wrt (<) (map f xs) \<Longrightarrow> xs = filter (\<lambda>x. f x \<le> h) xs @ filter (\<lambda>x. h < f x) xs"
proof (induction xs)
  case (Cons x xs)
  show ?case
  proof (cases "f x \<le> h")
    case True
    then show ?thesis using Cons by simp
  next
    case False
    then have "\<forall>y \<in> set xs. h < f y" using Cons.prems by force
    then have "filter (\<lambda>x. f x \<le> h) xs = []" "filter (\<lambda>x. h < f x) xs = xs"
      by (auto simp: filter_empty_conv filter_id_conv)
    then show ?thesis using False by simp
  qed
qed simp

lemma sorted_unique:
  fixes f :: "'a \<Rightarrow> int"
  assumes "sorted_wrt (<) (map f xs)" and "sorted_wrt (<) (map f ys)" and "set xs = set ys"
  shows "xs = ys"
proof -
  have "map f xs = map f ys" using assms by (intro strict_sorted_equal) auto
  moreover have "inj_on f (set xs \<union> set ys)"
    using assms(1,3) strict_sorted_iff[of "map f xs"] by (simp add: distinct_map)
  ultimately show ?thesis by (simp add: inj_on_map_eq_map)
qed

lemma highest_is_last: "sorted_wrt (<) (map am_version history) \<Longrightarrow> r \<in> set history \<Longrightarrow> am_version r \<le> highest_version history"
proof (induction history)
  case (Cons a history)
  then show ?case
  proof (cases "history = []")
    case False
    then have "am_version a < am_version (last history)" using Cons.prems(1) by simp
    then show ?thesis using Cons False by (auto simp: highest_version_def intro: less_imp_le)
  qed (auto simp: highest_version_def)
qed simp

abbreviation plan_records :: "plan \<Rightarrow> applied_migration list" where
  "plan_records files \<equiv> map (\<lambda>p. mf_record (snd p)) files"

lemma plan_versions: "plan_wf files \<Longrightarrow> map am_version (plan_records files) = map fst files"
  by (force simp: plan_wf_def)

lemma plan_sorted: "plan_wf files \<Longrightarrow> sorted_wrt (<) (map am_version (plan_records files))"
  by (simp only: plan_versions) (simp add: plan_wf_def bt_wf_def)

lemma plan_lookup:
  assumes "plan_wf files"
  shows "map_option mf_record (map_of files (am_version r)) = Some r \<longleftrightarrow> r \<in> set (plan_records files)"
proof -
  have d: "distinct (map fst files)" using assms by (simp add: plan_wf_def bt_wf_distinct)
  show ?thesis
  proof
    assume "map_option mf_record (map_of files (am_version r)) = Some r"
    then obtain f where "map_of files (am_version r) = Some f" "mf_record f = r" by auto
    then show "r \<in> set (plan_records files)" using map_of_SomeD[of files] by force
  next
    assume "r \<in> set (plan_records files)"
    then obtain k f where kf: "(k, f) \<in> set files" "r = mf_record f" by auto
    then have "am_version r = k" using assms by (auto simp: plan_wf_def)
    then show "map_option mf_record (map_of files (am_version r)) = Some r" using kf d by simp
  qed
qed

lemma above_highest:
  assumes files: "plan_wf files" and rest: "plan_records files = history @ rest" and r: "r \<in> set rest"
  shows "highest_version history < am_version r"
proof (cases "history = []")
  case True
  then have "r \<in> set (plan_records files)" using rest r by simp
  then have "0 < am_version r" using files unfolding plan_wf_def by auto
  then show ?thesis using True by (simp add: highest_version_def)
next
  case False
  then show ?thesis using plan_sorted[OF files] r unfolding rest
    by (auto simp: highest_version_def sorted_wrt_append)
qed

lemma validate_Ok_iff:
  assumes files: "plan_wf files" and sorted: "sorted_wrt (<) (map am_version history)"
  shows "Plan_validate files history = Ok () \<longleftrightarrow> prefix history (plan_records files)"
proof -
  let ?R = "plan_records files" and ?h = "highest_version history"
  have val: "Plan_validate files history = Ok () \<longleftrightarrow> set history \<subseteq> set ?R
      \<and> (\<forall>r \<in> set ?R. am_version r \<in> am_version ` set history \<or> ?h < am_version r)"
    using plan_lookup[OF files] by (auto simp: Plan_validate_def outcome_simps not_less)
  have split: "?R = filter (\<lambda>r. am_version r \<le> ?h) ?R @ filter (\<lambda>r. ?h < am_version r) ?R"
    by (rule sorted_split[OF plan_sorted[OF files]])
  have inj: "inj_on am_version (set ?R)"
    using plan_sorted[OF files] strict_sorted_iff[of "map am_version ?R"] by (simp only: distinct_map)
  show ?thesis
  proof
    assume "Plan_validate files history = Ok ()"
    then have sub: "set history \<subseteq> set ?R" and new: "\<And>r. r \<in> set ?R \<Longrightarrow> am_version r \<in> am_version ` set history \<or> ?h < am_version r"
      using val by auto
    have "filter (\<lambda>r. am_version r \<le> ?h) ?R = history"
    proof (rule sorted_unique[where f = am_version])
      show "sorted_wrt (<) (map am_version (filter (\<lambda>r. am_version r \<le> ?h) ?R))"
        using plan_sorted[OF files] by (simp add: sorted_wrt_map sorted_wrt_filter)
      show "set (filter (\<lambda>r. am_version r \<le> ?h) ?R) = set history"
      proof (intro equalityI subsetI)
        fix r assume "r \<in> set (filter (\<lambda>r. am_version r \<le> ?h) ?R)"
        then obtain r' where "r \<in> set ?R" "r' \<in> set history" "am_version r = am_version r'" using new by fastforce
        then show "r \<in> set history" using sub inj by (metis inj_onD subsetD)
      qed (use sub highest_is_last[OF sorted] in auto)
    qed (rule sorted)
    then show "prefix history ?R" using split by (metis prefixI)
  next
    assume "prefix history ?R"
    then obtain rest where rest: "?R = history @ rest" by (auto simp: prefix_def)
    from above_highest[OF files this] show "Plan_validate files history = Ok ()" using val rest by auto
  qed
qed

lemma validate_errors: "Plan_validate files history = Err x \<Longrightarrow> x = history_mismatch \<or> x = not_above"
proof -
  have each: "try_each (\<lambda>y. if P y then Err e else Ok ()) ys = Err x \<Longrightarrow> x = e" for P and e :: sqlrest_error and ys :: "'a list"
    by (induction ys) (auto split: if_splits)
  have each2: "try_each (\<lambda>y. if Q y then Ok () else if P y then Err e else Ok ()) ys = Err x \<Longrightarrow> x = e"
    for P Q and e :: sqlrest_error and ys :: "'b list"
    by (induction ys) (auto split: if_splits)
  show "Plan_validate files history = Err x \<Longrightarrow> x = history_mismatch \<or> x = not_above"
    unfolding Plan_validate_def and_then_Err_iff
    by (auto dest: each each2)
qed


section \<open>Properties\<close>

text \<open>a migration filename is accepted exactly when it is digits, an underscore, a name of letters,
  digits, \<open>_\<close> and \<open>-\<close>, and \<open>.sql\<close>, the digits denoting a positive 64-bit integer, its version.
\<close>

theorem version_exact:
  "version filename = Ok v \<longleftrightarrow>
     (\<exists>number name. filename = number @ ''_'' @ name @ ''.sql'' \<and> number \<noteq> [] \<and> list_all is_ascii_digit number
        \<and> name \<noteq> [] \<and> list_all migration_name_char name \<and> v = int (decimal_value number) \<and> 0 < v \<and> v < 2 ^ 63)"
  by (rule version_Ok)

text \<open>a history is trusted only if its versions increase strictly, each is the version its filename
  says, and each checksum is that of the recorded source.
\<close>

theorem decode_history_sound:
  assumes "decode_history libs bytes = Ok records"
  shows "sorted_wrt (<) (map am_version records)
    \<and> list_all (\<lambda>r. version (am_filename r) = Ok (am_version r) \<and> am_checksum r = ml_sha256 libs (am_source r)) records"
  using decode_history_wf[OF assms] by (simp add: history_wf_def)

lemma joined_Ok: "joined x f w = (w', Ok y) \<longleftrightarrow> f w = (w', Ok y)"
  by (cases "f w"; cases "snd (f w)") (auto simp: joined_def)

text \<open>What a migrator returns as history is trusted in this sense.\<close>

lemma migrator_history_trusted:
  assumes "migrator_history env libs mg w = (w', Ok records)"
  shows "history_wf (ml_sha256 libs) records"
proof -
  have "records = [] \<or> (\<exists>bytes. decode_history libs bytes = Ok records)"
    using assms by (auto simp: migrator_history_def seq_Ok joined_Ok lift_def ret_def fail_def Let_def
        split: if_splits)
  then show ?thesis using decode_history_wf by (auto simp: history_wf_def)
qed

text \<open>
  C27: migrations are forward-only. For a plan as it is loaded (sorted by version, each file under its
  own positive version) and a strictly increasing history, the pending files are returned exactly when the
  applied records are the first records of the plan, unchanged, and they are the rest of the plan in
  order; otherwise the plan is rejected.
\<close>

theorem into_pending_exact:
  assumes files: "plan_wf files" and sorted: "sorted_wrt (<) (map am_version history)"
  shows "case into_pending files history of
      Ok todo \<Rightarrow> plan_records files = history @ map mf_record todo
    | Err x \<Rightarrow> \<not> prefix history (plan_records files) \<and> (x = history_mismatch \<or> x = not_above)
    | Panic \<Rightarrow> False"
proof -
  show ?thesis
  proof (cases "Plan_validate files history")
    case (Ok u)
    then have "prefix history (plan_records files)" using validate_Ok_iff[OF files sorted] by simp
    then obtain rest where rest: "plan_records files = history @ rest" by (auto simp: prefix_def)
    have "map mf_record (filter (\<lambda>f. highest_version history < am_version (mf_record f)) (map snd files))
        = filter (\<lambda>r. highest_version history < am_version r) (plan_records files)"
      by (simp add: filter_map o_def)
    also have "\<dots> = rest"
    proof -
      have "filter (\<lambda>r. highest_version history < am_version r) history = []"
        using highest_is_last[OF sorted] by (auto simp: filter_empty_conv not_less)
      moreover have "filter (\<lambda>r. highest_version history < am_version r) rest = rest"
        using above_highest[OF files rest] by (simp add: filter_id_conv)
      ultimately show ?thesis unfolding rest by simp
    qed
    finally show ?thesis using Ok rest by (simp add: into_pending_def)
  next
    case (Err x)
    then have "\<not> prefix history (plan_records files)" using validate_Ok_iff[OF files sorted] by auto
    then show ?thesis using Err validate_errors[OF Err] by (simp add: into_pending_def)
  next
    case Panic
    have "Plan_validate files history \<noteq> Panic"
      by (auto simp: Plan_validate_def outcome_simps intro!: try_each_not_Panic split: if_splits)
    then show ?thesis using Panic by simp
  qed
qed


section \<open>Witnesses\<close>

definition mig_file :: "int \<Rightarrow> string \<Rightarrow> migration_file" where
  "mig_file v name = \<lparr>mf_record = \<lparr>am_version = v, am_filename = name, am_source = ''A'', am_checksum = ''A''\<rparr>,
     mf_endpoint = counter_endpoint, mf_input = Input_default\<rparr>"

definition mig_plan :: plan where
  "mig_plan = [(1, mig_file 1 ''1_a.sql''), (3, mig_file 3 ''3_b.sql'')]"

theorem into_pending_exact_witness:
  "into_pending mig_plan [mf_record (mig_file 1 ''1_a.sql'')] = Ok [mig_file 3 ''3_b.sql'']
   \<and> plan_records mig_plan = [mf_record (mig_file 1 ''1_a.sql'')] @ map mf_record [mig_file 3 ''3_b.sql'']"
proof -
  have p: "into_pending mig_plan [mf_record (mig_file 1 ''1_a.sql'')] = Ok [mig_file 3 ''3_b.sql'']"
    by (simp add: into_pending_def Plan_validate_def mig_plan_def mig_file_def highest_version_def)
  have "plan_wf mig_plan" by (simp add: plan_wf_def mig_plan_def mig_file_def)
  from into_pending_exact[OF this, of "[mf_record (mig_file 1 ''1_a.sql'')]"] p show ?thesis by simp
qed

definition mig_libs :: migration_libs where
  "mig_libs = \<lparr>ml_loader = demo_libs, ml_params = counter_params_libs, ml_sha256 = id, ml_words = (\<lambda>_ s. Some [s]),
     ml_to_vec = (\<lambda>_. Some []), ml_from_slice = (\<lambda>_. None), ml_response = (\<lambda>_. Some (plan_records mig_plan))\<rparr>"

lemma mig_version: "version ''1_a.sql'' = Ok 1" "version ''3_b.sql'' = Ok 3"
proof -
  show "version ''1_a.sql'' = Ok 1" unfolding version_Ok
    by (rule exI[of _ "''1''"], rule exI[of _ "''a''"])
      (simp add: decimal_value_def digit_value_def ascii_defs migration_name_char_def)
  show "version ''3_b.sql'' = Ok 3" unfolding version_Ok
    by (rule exI[of _ "''3''"], rule exI[of _ "''b''"])
      (simp add: decimal_value_def digit_value_def ascii_defs migration_name_char_def)
qed

theorem decode_history_sound_witness:
  "decode_history mig_libs [] = Ok (plan_records mig_plan) \<and> sorted_wrt (<) (map am_version (plan_records mig_plan))"
proof -
  have d: "decode_history mig_libs [] = Ok (plan_records mig_plan)"
    by (simp add: decode_history_def mig_libs_def mig_plan_def mig_file_def history_step_def mig_version)
  from decode_history_sound[OF d] d show ?thesis by blast
qed

end
