(* ===== verification/Workspace.thy ===== *)
theory Workspace
  imports Migration
begin

text \<open>
  \<^verbatim>\<open>src/workspace.rs\<close>: the durable workspace directory. The part of the file system the code
  uses is modelled explicitly: what a path holds now, and what it may hold after a crash. Every call
  may fail, as an oracle in the state decides. The TOML codec, the parser of connection strings and
  the random part of a temporary name are parameters.
\<close>

section \<open>Configuration\<close>

type_synonym path = "string list"

datatype database_config = Turso_config | Postgres_unencrypted string

record request_limits =
  rl_request_timeout_ms :: nat
  rl_max_rows :: nat

datatype recovery = No_recovery | Migration_recovery | Reload_recovery

record ws_record =
  wr_database :: database_config
  wr_recovery :: recovery
  wr_limits :: request_limits

record publish_request =
  pr_database :: "database_config option"
  pr_limits :: request_limits
  pr_migration_timeout_ms :: nat

text \<open>
  \<open>wl_to_toml\<close> and \<open>wl_from_toml\<close> are the codec of a record (an error is its \<open>Debug\<close> text),
  \<open>wl_connection\<close> whether a connection string parses,
  \<open>wl_utf8\<close> whether a file name is UTF-8, \<open>wl_canonical\<close> is \<open>fs::canonicalize\<close>,
  \<open>wl_debug_error\<close> the derived \<open>Debug\<close> text of an error, \<open>wl_now\<close> and \<open>wl_limit\<close> the clock and its last
  instant in nanoseconds.
\<close>

record workspace_libs =
  wl_to_toml :: "ws_record \<Rightarrow> string option"
  wl_from_toml :: "string \<Rightarrow> string + ws_record"
  wl_connection :: "string \<Rightarrow> bool"
  wl_utf8 :: "string \<Rightarrow> bool"
  wl_canonical :: "path \<Rightarrow> path"
  wl_debug_error :: "sqlrest_error \<Rightarrow> string"
  wl_now :: nat
  wl_limit :: nat

definition configuration_invalid :: "string \<Rightarrow> sqlrest_error" where
  "configuration_invalid message = new_error 400 ''invalid_configuration'' message"

definition I64_MAX :: nat where
  "I64_MAX = 9223372036854775807"

definition request_timeout_default :: nat where "request_timeout_default = 5000"

definition migration_timeout_default :: nat where "migration_timeout_default = 60000"

definition max_rows_default :: nat where "max_rows_default = 1000"

definition RequestLimits_default :: request_limits where
  "RequestLimits_default =
     \<lparr>rl_request_timeout_ms = request_timeout_default, rl_max_rows = max_rows_default\<rparr>"

definition PublishRequest_default :: publish_request where
  "PublishRequest_default = \<lparr>pr_database = None, pr_limits = RequestLimits_default,
     pr_migration_timeout_ms = migration_timeout_default\<rparr>"

definition duration :: "workspace_libs \<Rightarrow> nat \<Rightarrow> nat result" where
  "duration libs ms =
     (let d = ms * 1000000 in
      if d = 0 \<or> wl_limit libs < wl_now libs + d
      then Err (configuration_invalid ''Timeout must be a positive finite number of milliseconds'')
      else Ok d)"

definition RequestLimits_validate :: "workspace_libs \<Rightarrow> request_limits \<Rightarrow> limits result" where
  "RequestLimits_validate libs l =
     and_then (duration libs (rl_request_timeout_ms l)) (\<lambda>timeout.
     if rl_max_rows l = 0 \<or> I64_MAX < rl_max_rows l \<or> I64_MAX < rl_request_timeout_ms l
     then Err (configuration_invalid ''Limits must be positive integers representable in TOML'')
     else Ok \<lparr>lim_timeout = timeout, lim_max_rows = rl_max_rows l\<rparr>)"

definition validate_database :: "workspace_libs \<Rightarrow> database_config \<Rightarrow> unit result" where
  "validate_database libs d =
     (case d of
        Postgres_unencrypted connection \<Rightarrow>
          if wl_connection libs connection then Ok ()
          else Err (configuration_invalid ''Invalid PostgreSQL connection configuration'')
      | Turso_config \<Rightarrow> Ok ())"

definition PublishRequest_validate :: "workspace_libs \<Rightarrow> publish_request \<Rightarrow> unit result" where
  "PublishRequest_validate libs r =
     and_then (RequestLimits_validate libs (pr_limits r)) (\<lambda>_.
     and_then (duration libs (pr_migration_timeout_ms r)) (\<lambda>_.
     case pr_database r of Some d \<Rightarrow> validate_database libs d | None \<Rightarrow> Ok ()))"

definition Record_validate :: "workspace_libs \<Rightarrow> ws_record \<Rightarrow> unit result" where
  "Record_validate libs r =
     and_then (validate_database libs (wr_database r)) (\<lambda>_.
     and_then (RequestLimits_validate libs (wr_limits r)) (\<lambda>_. Ok ()))"

definition validate_name :: "string \<Rightarrow> unit result" where
  "validate_name name =
     (if name = [] \<or> \<not> list_all migration_name_char name then Err (configuration_invalid ''Invalid database name'')
      else Ok ())"


section \<open>The file system\<close>

text \<open>
  A regular file has its contents and whether they were synced. After a crash a path holds one of the
  nodes in \<open>fs_possible\<close>: what it held when its directory was last synced, or what it has held since
  (a file that was not synced may then hold anything). \<open>fs_fail n\<close> makes the \<open>n\<close>th call fail, a
  failing write after the given number of bytes.
\<close>

datatype fnode = FDir | FLink | FFile string bool

datatype io_failure = NotFound | Already_exists | Other_io string

record filesystem =
  fs_nodes :: "(path \<times> fnode) list"
  fs_possible :: "path \<Rightarrow> fnode option set"
  fs_locked :: "path set"
  fs_calls :: nat
  fs_fail :: "nat \<Rightarrow> (nat \<times> string) option"

definition fs_now :: "filesystem \<Rightarrow> path \<Rightarrow> fnode option" where
  "fs_now fs p = map_of (fs_nodes fs) p"

type_synonym 'a fs_op = "filesystem \<Rightarrow> filesystem \<times> (io_failure, 'a) outcome"

definition set_entry :: "path \<Rightarrow> fnode option \<Rightarrow> filesystem \<Rightarrow> filesystem" where
  "set_entry p n fs = fs\<lparr>
     fs_nodes := (case n of Some x \<Rightarrow> [(p, x)] | None \<Rightarrow> []) @ filter (\<lambda>(q, _). q \<noteq> p) (fs_nodes fs),
     fs_possible := (fs_possible fs)(p := insert n (fs_possible fs p))\<rparr>"

definition fs_call :: "'a fs_op \<Rightarrow> 'a fs_op" where
  "fs_call op fs =
     (let fs' = fs\<lparr>fs_calls := Suc (fs_calls fs)\<rparr> in
      case fs_fail fs (fs_calls fs) of
        Some (_, detail) \<Rightarrow> (fs', Err (Other_io detail))
      | None \<Rightarrow> op fs')"

definition op_symlink_metadata :: "path \<Rightarrow> fnode fs_op" where
  "op_symlink_metadata p fs = (fs, case fs_now fs p of Some n \<Rightarrow> Ok n | None \<Rightarrow> Err NotFound)"

definition op_create_dir_all :: "path \<Rightarrow> unit fs_op" where
  "op_create_dir_all p fs =
     (if list_ex (\<lambda>q. case fs_now fs q of Some (FFile _ _) \<Rightarrow> True | _ \<Rightarrow> False) (prefixes p)
      then (fs, Err (Other_io ''NotADirectory''))
      else (fold (\<lambda>q fs. if fs_now fs q = None then set_entry q (Some FDir) fs else fs) (prefixes p) fs, Ok ()))"

text \<open>Opening a directory and \<open>sync_all\<close>: its entries are durable as they are now.\<close>

definition op_sync_directory :: "path \<Rightarrow> unit fs_op" where
  "op_sync_directory d fs =
     (case fs_now fs d of
        Some FDir \<Rightarrow>
          (fs\<lparr>fs_possible := (\<lambda>p. if p \<noteq> [] \<and> butlast p = d then {fs_now fs p} else fs_possible fs p)\<rparr>, Ok ())
      | Some _ \<Rightarrow> (fs, Ok ())
      | None \<Rightarrow> (fs, Err NotFound))"

definition op_create_new :: "path \<Rightarrow> unit fs_op" where
  "op_create_new p fs =
     (if fs_now fs p \<noteq> None then (fs, Err Already_exists) else (set_entry p (Some (FFile [] False)) fs, Ok ()))"

text \<open>\<open>write_all\<close> on the file just created; a failing write leaves some of the bytes.\<close>

definition fs_write_all :: "path \<Rightarrow> string \<Rightarrow> unit fs_op" where
  "fs_write_all p bytes fs =
     (let fs' = fs\<lparr>fs_calls := Suc (fs_calls fs)\<rparr> in
      case fs_fail fs (fs_calls fs) of
        Some (n, detail) \<Rightarrow> (set_entry p (Some (FFile (take n bytes) False)) fs', Err (Other_io detail))
      | None \<Rightarrow> (set_entry p (Some (FFile bytes False)) fs', Ok ()))"

definition op_sync_file :: "path \<Rightarrow> unit fs_op" where
  "op_sync_file p fs =
     (case fs_now fs p of
        Some (FFile c _) \<Rightarrow> (set_entry p (Some (FFile c True)) fs, Ok ())
      | Some _ \<Rightarrow> (fs, Ok ())
      | None \<Rightarrow> (fs, Err NotFound))"

definition op_rename :: "path \<Rightarrow> path \<Rightarrow> unit fs_op" where
  "op_rename a b fs =
     (case fs_now fs a of
        None \<Rightarrow> (fs, Err NotFound)
      | Some n \<Rightarrow> if fs_now fs b = Some FDir then (fs, Err (Other_io ''IsADirectory''))
          else (set_entry a None (set_entry b (Some n) fs), Ok ()))"

definition op_remove_file :: "path \<Rightarrow> unit fs_op" where
  "op_remove_file p fs =
     (case fs_now fs p of
        None \<Rightarrow> (fs, Err NotFound)
      | Some FDir \<Rightarrow> (fs, Err (Other_io ''IsADirectory''))
      | Some _ \<Rightarrow> (set_entry p None fs, Ok ()))"

definition op_read :: "path \<Rightarrow> string fs_op" where
  "op_read p fs =
     (fs, case fs_now fs p of
        None \<Rightarrow> Err NotFound
      | Some (FFile c _) \<Rightarrow> Ok c
      | Some _ \<Rightarrow> Err (Other_io ''NotAFile''))"

definition io_debug :: "io_failure \<Rightarrow> string" where
  "io_debug e = (case e of NotFound \<Rightarrow> ''NotFound'' | Already_exists \<Rightarrow> ''AlreadyExists'' | Other_io d \<Rightarrow> d)"

definition io_error :: "io_failure \<Rightarrow> sqlrest_error" where
  "io_error e = with_diagnostic ''workspace'' (io_debug e)
     (new_error 500 ''workspace_io_failed'' ''Workspace filesystem operation failed'')"

definition io :: "'a fs_op \<Rightarrow> (filesystem, 'a) action" where
  "io op fs = (case op fs of (fs', r) \<Rightarrow> (fs', map_err io_error r))"

definition uncertain :: "string \<Rightarrow> sqlrest_error" where
  "uncertain detail = with_diagnostic ''workspace'' detail (new_error 500 ''workspace_commit_uncertain''
     ''Configuration replacement completed but durability could not be confirmed'')"

definition sync_directory :: "path \<Rightarrow> (filesystem, unit) action" where
  "sync_directory p = io (fs_call (op_sync_directory p))"

definition reject_symlink :: "path \<Rightarrow> (filesystem, unit) action" where
  "reject_symlink p fs =
     (case fs_call (op_symlink_metadata p) fs of
        (fs', Ok FLink) \<Rightarrow> (fs', Err (configuration_invalid ''Workspace paths must not be symlinks''))
      | (fs', Ok _) \<Rightarrow> (fs', Ok ())
      | (fs', Err NotFound) \<Rightarrow> (fs', Ok ())
      | (fs', Err e) \<Rightarrow> (fs', Err (io_error e))
      | (fs', Panic) \<Rightarrow> (fs', Panic))"

definition make_directory :: "path \<Rightarrow> (filesystem, unit) action" where
  "make_directory p = seq (reject_symlink p) (\<lambda>_. io (fs_call (op_create_dir_all p)))"


section \<open>Opening the workspace\<close>

definition op_try_exists :: "path \<Rightarrow> bool fs_op" where
  "op_try_exists p fs = (fs, Ok (fs_now fs p \<noteq> None))"

text \<open>The loop over missing ancestors; the argument is the path from its last component backwards.\<close>

fun missing_ancestors :: "path \<Rightarrow> path list \<Rightarrow> (filesystem, path list) action" where
  "missing_ancestors [] missing =
     seq (io (fs_call (op_try_exists []))) (\<lambda>found.
     if found then ret missing else fail (configuration_invalid ''Invalid workspace root''))"
| "missing_ancestors (c # cs) missing =
     seq (io (fs_call (op_try_exists (rev (c # cs))))) (\<lambda>found.
     if found then ret missing else missing_ancestors cs (missing @ [rev (c # cs)]))"

definition op_open_lock :: "path \<Rightarrow> unit fs_op" where
  "op_open_lock p fs =
     (case fs_now fs p of
        None \<Rightarrow> (set_entry p (Some (FFile [] False)) fs, Ok ())
      | Some (FFile _ _) \<Rightarrow> (fs, Ok ())
      | Some _ \<Rightarrow> (fs, Err (Other_io ''IsADirectory'')))"

definition workspace_locked :: sqlrest_error where
  "workspace_locked = with_diagnostic ''workspace'' ''WouldBlock''
     (new_error 409 ''workspace_locked'' ''Workspace is already owned or cannot be locked'')"

definition try_lock :: "path \<Rightarrow> (filesystem, unit) action" where
  "try_lock p fs =
     (if p \<in> fs_locked fs then (fs, Err workspace_locked) else (fs\<lparr>fs_locked := insert p (fs_locked fs)\<rparr>, Ok ()))"

text \<open>\<open>Drop\<close> of the workspace, and of the lock file when \<open>open\<close> fails after locking.\<close>

definition unlock :: "path \<Rightarrow> filesystem \<Rightarrow> filesystem" where
  "unlock p fs = fs\<lparr>fs_locked := fs_locked fs - {p}\<rparr>"

definition lock_path :: "path \<Rightarrow> path" where
  "lock_path root = root @ [''.sqlrest.lock'']"

definition databases :: "path \<Rightarrow> path" where
  "databases root = root @ [''databases'']"

definition Workspace_open :: "workspace_libs \<Rightarrow> path \<Rightarrow> (filesystem, path) action" where
  "Workspace_open libs root =
     seq (missing_ancestors (rev root) []) (\<lambda>missing.
     seq (io (fs_call (op_create_dir_all root))) (\<lambda>_.
     seq (each_step (\<lambda>p _. seq (sync_directory p) (\<lambda>_. sync_directory (butlast p))) (rev missing) ()) (\<lambda>_.
     seq (io (fs_call (\<lambda>fs. (fs, Ok (wl_canonical libs root))))) (\<lambda>root.
     seq (reject_symlink (lock_path root)) (\<lambda>_.
     seq (io (fs_call (op_open_lock (lock_path root)))) (\<lambda>_.
     seq (try_lock (lock_path root)) (\<lambda>_.
     attempt (seq (make_directory (databases root)) (\<lambda>_. sync_directory root)) (\<lambda>r fs.
       case r of Ok _ \<Rightarrow> (fs, Ok root) | Err e \<Rightarrow> (unlock (lock_path root) fs, Err e) | Panic \<Rightarrow> (fs, Panic)))))))))"


section \<open>Operations\<close>

definition ws_directory :: "path \<Rightarrow> string \<Rightarrow> path" where
  "ws_directory root name = databases root @ [name]"

definition config_path :: "path \<Rightarrow> string \<Rightarrow> path" where
  "config_path root name = ws_directory root name @ [''database.toml'']"

definition ws_prepare :: "path \<Rightarrow> string \<Rightarrow> (filesystem, unit) action" where
  "ws_prepare root name =
     seq (lift (validate_name name)) (\<lambda>_.
     let dir = ws_directory root name in
     seq (make_directory dir) (\<lambda>_.
     seq (make_directory (dir @ [''interfaces''])) (\<lambda>_.
     seq (make_directory (dir @ [''migrations''])) (\<lambda>_.
     seq (reject_symlink (dir @ [''data.db''])) (\<lambda>_.
     seq (reject_symlink (config_path root name)) (\<lambda>_.
     seq (sync_directory dir) (\<lambda>_.
     sync_directory (databases root))))))))"

definition validate_layout :: "path \<Rightarrow> string \<Rightarrow> (filesystem, unit) action" where
  "validate_layout root name =
     seq (lift (validate_name name)) (\<lambda>_.
     seq (reject_symlink (ws_directory root name)) (\<lambda>_.
     each_step (\<lambda>child _. reject_symlink (ws_directory root name @ [child]))
       [''interfaces'', ''migrations'', ''data.db'', ''database.toml''] ()))"

text \<open>\<open>read_dir\<close>: the names in a directory.\<close>

definition op_read_dir :: "path \<Rightarrow> string list fs_op" where
  "op_read_dir d fs =
     (case fs_now fs d of
        Some FDir \<Rightarrow> (fs, Ok (map last (filter (\<lambda>p. p \<noteq> [] \<and> butlast p = d) (map fst (fs_nodes fs)))))
      | Some _ \<Rightarrow> (fs, Err (Other_io ''NotADirectory''))
      | None \<Rightarrow> (fs, Err NotFound))"

definition name_step :: "workspace_libs \<Rightarrow> path \<Rightarrow> string \<Rightarrow> string list \<Rightarrow> (filesystem, string list) action" where
  "name_step libs root name names =
     seq (io (fs_call (op_symlink_metadata (ws_directory root name)))) (\<lambda>kind.
     if kind \<noteq> FDir \<and> kind \<noteq> FLink then ret names
     else (\<lambda>fs.
       case fs_call (op_symlink_metadata (config_path root name)) fs of
         (fs', Err NotFound) \<Rightarrow> (fs', Ok names)
       | (fs', _) \<Rightarrow>
           (fs', if wl_utf8 libs name then Ok (names @ [name])
                 else Err (configuration_invalid ''Invalid database directory name''))))"

definition ws_names :: "workspace_libs \<Rightarrow> path \<Rightarrow> (filesystem, string list) action" where
  "ws_names libs root =
     seq (io (fs_call (op_read_dir (databases root)))) (\<lambda>entries.
     seq (each_step (name_step libs root) entries []) (\<lambda>names. ret (sort names)))"

definition ws_read :: "workspace_libs \<Rightarrow> path \<Rightarrow> string \<Rightarrow> (filesystem, ws_record) action" where
  "ws_read libs root name =
     seq (lift (validate_name name)) (\<lambda>_.
     seq (reject_symlink (ws_directory root name)) (\<lambda>_.
     seq (reject_symlink (config_path root name)) (\<lambda>_.
     seq (io (fs_call (op_read (config_path root name)))) (\<lambda>contents.
     seq (lift (case wl_from_toml libs contents of
         Inl detail \<Rightarrow> Err (with_diagnostic ''toml'' detail (configuration_invalid ''Cannot parse database.toml''))
       | Inr r \<Rightarrow> Ok r)) (\<lambda>r.
     seq (lift (Record_validate libs r)) (\<lambda>_. ret r))))))"

definition data_missing :: "io_failure \<Rightarrow> sqlrest_error" where
  "data_missing e = with_diagnostic ''workspace'' (io_debug e)
     (new_error 503 ''database_file_missing'' ''Registered database file is unavailable'')"

definition require_data :: "path \<Rightarrow> string \<Rightarrow> (filesystem, unit) action" where
  "require_data root name =
     seq (reject_symlink (ws_directory root name @ [''data.db''])) (\<lambda>_ fs.
       case fs_call (op_symlink_metadata (ws_directory root name @ [''data.db''])) fs of
         (fs', Ok (FFile _ _)) \<Rightarrow> (fs', Ok ())
       | (fs', Ok _) \<Rightarrow> (fs', Err (configuration_invalid ''data.db must be a regular file''))
       | (fs', Err e) \<Rightarrow> (fs', Err (data_missing e))
       | (fs', Panic) \<Rightarrow> (fs', Panic))"

text \<open>The closure of \<open>persist\<close>: write aside, sync, rename, sync the directory.\<close>

definition replace_config :: "workspace_libs \<Rightarrow> path \<Rightarrow> path \<Rightarrow> path \<Rightarrow> string \<Rightarrow> (filesystem, unit) action" where
  "replace_config libs dir temporary dest bytes =
     seq (io (fs_call (op_create_new temporary))) (\<lambda>_.
     seq (io (fs_write_all temporary bytes)) (\<lambda>_.
     seq (io (fs_call (op_sync_file temporary))) (\<lambda>_.
     seq (io (fs_call (op_rename temporary dest))) (\<lambda>_.
     attempt (sync_directory dir) (\<lambda>r.
       case r of Err e \<Rightarrow> fail (uncertain (wl_debug_error libs e)) | _ \<Rightarrow> lift r)))))"

definition temporary_path :: "path \<Rightarrow> string \<Rightarrow> string \<Rightarrow> path" where
  "temporary_path root name uuid = ws_directory root name @ [''.database-'' @ uuid @ ''.tmp'']"

definition persist :: "workspace_libs \<Rightarrow> string \<Rightarrow> path \<Rightarrow> string \<Rightarrow> ws_record \<Rightarrow> (filesystem, unit) action" where
  "persist libs uuid root name r =
     seq (lift (Record_validate libs r)) (\<lambda>_.
     let dir = ws_directory root name; dest = config_path root name; temporary = temporary_path root name uuid in
     seq (reject_symlink dir) (\<lambda>_.
     seq (reject_symlink dest) (\<lambda>_.
     seq (lift (ok_or (configuration_invalid ''Cannot serialize configuration'') (wl_to_toml libs r))) (\<lambda>bytes.
     attempt (replace_config libs dir temporary dest bytes) (\<lambda>result fs.
       (if is_ok result then fs else fst (fs_call (op_remove_file temporary) fs), result))))))"

definition ws_remove :: "path \<Rightarrow> string \<Rightarrow> (filesystem, unit) action" where
  "ws_remove root name =
     seq (reject_symlink (ws_directory root name)) (\<lambda>_.
     seq (\<lambda>fs. case fs_call (op_remove_file (config_path root name)) fs of
         (fs', Err NotFound) \<Rightarrow> (fs', Ok ())
       | (fs', r) \<Rightarrow> (fs', map_err io_error r)) (\<lambda>_.
     sync_directory (ws_directory root name)))"

definition sync_data :: "path \<Rightarrow> string \<Rightarrow> (filesystem, unit) action" where
  "sync_data root name =
     seq (io (fs_call (op_sync_file (ws_directory root name @ [''data.db''])))) (\<lambda>_.
     sync_directory (ws_directory root name))"

section \<open>Reasoning about the file system\<close>

lemma set_entry_simps [simp]:
  "fs_now (set_entry p n fs) q = (if q = p then n else fs_now fs q)"
  "fs_possible (set_entry p n fs) q = (if q = p then insert n (fs_possible fs p) else fs_possible fs q)"
  "fs_fail (set_entry p n fs) = fs_fail fs" "fs_calls (set_entry p n fs) = fs_calls fs"
  "fs_locked (set_entry p n fs) = fs_locked fs"
proof -
  have "map_of (filter (\<lambda>(r, _). r \<noteq> p) xs) q = (if q = p then None else map_of xs q)" for xs :: "(path \<times> fnode) list"
    by (induction xs) auto
  then show "fs_now (set_entry p n fs) q = (if q = p then n else fs_now fs q)"
    by (auto simp: set_entry_def fs_now_def split: option.splits)
qed (simp_all add: set_entry_def)

lemma fs_now_calls [simp]:
  "fs_now (fs\<lparr>fs_calls := k\<rparr>) = fs_now fs" "fs_now (fs\<lparr>fs_possible := g\<rparr>) = fs_now fs" "fs_now (fs\<lparr>fs_locked := l\<rparr>) = fs_now fs"
  by (simp_all add: fs_now_def fun_eq_iff)

lemma triple_io_call:
  fixes op :: "'a fs_op"
  assumes op: "\<And>fs fs' r. R fs \<Longrightarrow> op fs = (fs', r) \<Longrightarrow> (\<not> is_ok r \<longrightarrow> D fs') \<and> (\<forall>x. r = Ok x \<longrightarrow> Q x fs')"
    and R: "\<And>fs k. R fs \<Longrightarrow> R (fs\<lparr>fs_calls := k\<rparr>)" and D: "\<And>fs. R fs \<Longrightarrow> D fs"
  shows "triple R (io (fs_call op)) Q D"
  unfolding triple_def
proof (intro allI impI)
  fix fs assume fs: "R fs"
  let ?fs = "fs\<lparr>fs_calls := Suc (fs_calls fs)\<rparr>"
  obtain fs' r where o: "op ?fs = (fs', r)" by force
  note facts = op[OF R[OF fs] o]
  show "case io (fs_call op) fs of (fs', Ok x) \<Rightarrow> Q x fs' | (fs', _) \<Rightarrow> D fs'"
  proof (cases "fs_fail fs (fs_calls fs)")
    case None
    then show ?thesis using facts o by (cases r) (simp_all add: io_def fs_call_def)
  next
    case (Some p)
    then show ?thesis using D[OF R[OF fs]] by (cases p) (simp add: io_def fs_call_def Let_def)
  qed
qed

lemma triple_reject_symlink:
  assumes R: "\<And>fs k. R fs \<Longrightarrow> R (fs\<lparr>fs_calls := k\<rparr>)" and D: "\<And>fs. R fs \<Longrightarrow> D fs"
  shows "triple R (reject_symlink p) (\<lambda>_. R) D"
  unfolding triple_def
proof (intro allI impI)
  fix fs assume "R fs"
  then have "R (fs\<lparr>fs_calls := Suc (fs_calls fs)\<rparr>)" by (rule R)
  then show "case reject_symlink p fs of (fs', Ok x) \<Rightarrow> R fs' | (fs', _) \<Rightarrow> D fs'"
    using D by (auto simp: reject_symlink_def fs_call_def op_symlink_metadata_def Let_def split: option.splits fnode.splits prod.splits)
qed

text \<open>The configuration file as it was, with the state of the temporary file.\<close>

definition kept :: "path \<Rightarrow> fnode option \<Rightarrow> fnode option set \<Rightarrow> filesystem \<Rightarrow> bool" where
  "kept p n0 P0 fs \<longleftrightarrow> fs_now fs p = n0 \<and> fs_possible fs p = P0"

definition written :: "path \<Rightarrow> fnode option \<Rightarrow> fnode option set \<Rightarrow> string \<Rightarrow> filesystem \<Rightarrow> bool" where
  "written p n0 P0 bytes fs \<longleftrightarrow> fs_now fs p = Some (FFile bytes True)
     \<and> fs_possible fs p = insert (Some (FFile bytes True)) P0"

abbreviation temp_is :: "path \<Rightarrow> fnode \<Rightarrow> filesystem \<Rightarrow> bool" where
  "temp_is t n fs \<equiv> fs_now fs t = Some n"

lemma kept_calls [simp]: "kept p n P (fs\<lparr>fs_calls := k\<rparr>) = kept p n P fs"
  by (simp add: kept_def)

lemma kept_set_entry [simp]: "p \<noteq> q \<Longrightarrow> kept p n P (set_entry q m fs) = kept p n P fs"
  by (simp add: kept_def)

lemma triple_create_new:
  "t \<noteq> p \<Longrightarrow> triple (kept p n P) (io (fs_call (op_create_new t))) (\<lambda>_ fs. kept p n P fs \<and> temp_is t (FFile [] False) fs) (kept p n P)"
  by (rule triple_io_call) (auto simp: op_create_new_def split: if_splits)

lemma triple_write_all:
  "t \<noteq> p \<Longrightarrow> triple (kept p n P) (io (fs_write_all t bytes)) (\<lambda>_ fs. kept p n P fs \<and> temp_is t (FFile bytes False) fs) (kept p n P)"
  by (auto simp: triple_def io_def fs_write_all_def Let_def split: option.splits prod.splits)

lemma triple_sync_file:
  "t \<noteq> p \<Longrightarrow> triple (\<lambda>fs. kept p n P fs \<and> temp_is t (FFile bytes False) fs) (io (fs_call (op_sync_file t)))
     (\<lambda>_ fs. kept p n P fs \<and> temp_is t (FFile bytes True) fs) (kept p n P)"
  by (rule triple_io_call) (auto simp: op_sync_file_def)

lemma triple_rename:
  "t \<noteq> p \<Longrightarrow> triple (\<lambda>fs. kept p n P fs \<and> temp_is t (FFile bytes True) fs) (io (fs_call (op_rename t p)))
     (\<lambda>_. written p n P bytes) (kept p n P)"
  by (rule triple_io_call) (auto simp: op_rename_def kept_def written_def split: if_splits)

definition replace_steps :: "path \<Rightarrow> path \<Rightarrow> string \<Rightarrow> (filesystem, unit) action" where
  "replace_steps t p bytes =
     seq (io (fs_call (op_create_new t))) (\<lambda>_.
     seq (io (fs_write_all t bytes)) (\<lambda>_.
     seq (io (fs_call (op_sync_file t))) (\<lambda>_.
     io (fs_call (op_rename t p)))))"

lemma triple_replace_steps:
  assumes "t \<noteq> p"
  shows "triple (kept p n P) (replace_steps t p bytes) (\<lambda>_. written p n P bytes) (kept p n P)"
proof -
  have create: "triple (kept p n P) (io (fs_call (op_create_new t))) (\<lambda>_. kept p n P) (kept p n P)"
    using triple_create_new[OF assms] by (rule triple_weaken) auto
  show ?thesis unfolding replace_steps_def
    by (intro triple_seq[OF create] triple_seq[OF triple_write_all[OF assms]] triple_seq[OF triple_sync_file[OF assms]]
        triple_rename[OF assms])
qed

lemma replace_config_alt:
  "replace_config libs dir t p bytes = seq (replace_steps t p bytes) (\<lambda>_.
     attempt (sync_directory dir) (\<lambda>r. case r of Err e \<Rightarrow> fail (uncertain (wl_debug_error libs e)) | _ \<Rightarrow> lift r))"
  by (rule ext) (simp add: replace_config_def replace_steps_def seq_def split: prod.splits outcome.splits)


text \<open>The codes under which file system calls fail.\<close>

definition fails_with :: "string set \<Rightarrow> ('w, 'a) action \<Rightarrow> bool" where
  "fails_with C f \<longleftrightarrow> (\<forall>w. case snd (f w) of Ok _ \<Rightarrow> True | Err e \<Rightarrow> err_code e \<in> C | Panic \<Rightarrow> False)"

lemma fails_with_seq:
  assumes f: "fails_with C f" and g: "\<And>x. fails_with C (g x)"
  shows "fails_with C (seq f g)"
  unfolding fails_with_def
proof
  fix w
  obtain w1 r where r: "f w = (w1, r)" by force
  show "case snd (seq f g w) of Ok _ \<Rightarrow> True | Err e \<Rightarrow> err_code e \<in> C | Panic \<Rightarrow> False"
    using f[unfolded fails_with_def, rule_format, of w] g[unfolded fails_with_def, rule_format, of _ w1] r
    by (cases r) (simp_all add: seq_def)
qed

lemma io_error_code [simp]: "err_code (io_error e) = ''workspace_io_failed''"
  by (simp add: io_error_def)

lemma uncertain_code [simp]: "err_code (uncertain d) = ''workspace_commit_uncertain''"
  by (simp add: uncertain_def)

lemma configuration_invalid_code [simp]: "err_code (configuration_invalid m) = ''invalid_configuration''"
  by (simp add: configuration_invalid_def)

abbreviation (input) io_codes :: "string set" where
  "io_codes \<equiv> {''workspace_io_failed'', ''invalid_configuration''}"

lemma fails_with_io:
  assumes "\<And>fs. snd (op fs) \<noteq> Panic"
  shows "fails_with io_codes (io op)"
  unfolding fails_with_def
proof
  fix fs
  obtain fs' r where r: "op fs = (fs', r)" by force
  then show "case snd (io op fs) of Ok _ \<Rightarrow> True | Err e \<Rightarrow> err_code e \<in> io_codes | Panic \<Rightarrow> False"
    using assms[of fs] by (cases r) (simp_all add: io_def)
qed

lemma fs_call_not_Panic: "(\<And>fs. snd (op fs) \<noteq> Panic) \<Longrightarrow> snd (fs_call op fs) \<noteq> Panic"
  by (auto simp: fs_call_def Let_def split: option.splits prod.splits)

lemma ops_not_Panic:
  "snd (op_create_new p fs) \<noteq> Panic" "snd (op_sync_file p fs) \<noteq> Panic" "snd (op_rename p q fs) \<noteq> Panic"
  "snd (op_sync_directory p fs) \<noteq> Panic" "snd (op_symlink_metadata p fs) \<noteq> Panic" "snd (fs_write_all p b fs) \<noteq> Panic"
  "snd (op_read p fs) \<noteq> Panic"
  by (auto simp: op_create_new_def op_sync_file_def op_rename_def op_sync_directory_def op_symlink_metadata_def fs_write_all_def
      op_read_def Let_def split: option.splits fnode.splits prod.splits)

lemma fails_with_reject_symlink: "fails_with io_codes (reject_symlink p)"
  by (auto simp: fails_with_def reject_symlink_def fs_call_def op_symlink_metadata_def Let_def
      split: option.splits fnode.splits prod.splits)

lemma fails_with_lift: "(case r of Ok _ \<Rightarrow> True | Err e \<Rightarrow> err_code e \<in> C | Panic \<Rightarrow> False) \<Longrightarrow> fails_with C (lift r)"
  by (simp add: fails_with_def lift_def)

lemma fails_with_replace_steps: "fails_with io_codes (replace_steps t p bytes)"
  unfolding replace_steps_def by (intro fails_with_seq fails_with_io fs_call_not_Panic ops_not_Panic)

lemma fails_with_sync_directory: "fails_with io_codes (sync_directory p)"
  unfolding sync_directory_def by (intro fails_with_io fs_call_not_Panic ops_not_Panic)

lemma Record_validate_fails: "case Record_validate libs r of Ok _ \<Rightarrow> True | Err e \<Rightarrow> err_code e \<in> io_codes | Panic \<Rightarrow> False"
  by (auto simp: Record_validate_def validate_database_def RequestLimits_validate_def duration_def Let_def
      split: database_config.splits outcome.splits if_splits)

lemma temporary_not_config: "temporary_path root name uuid \<noteq> config_path root name"
  by (simp add: temporary_path_def config_path_def)

text \<open>Other paths are left alone.\<close>

lemma triple_replace_steps_frame:
  assumes "q \<noteq> t" and "q \<noteq> p"
  shows "triple (kept q n P) (replace_steps t p bytes) (\<lambda>_. kept q n P) (kept q n P)"
proof -
  have c: "triple (kept q n P) (io (fs_call (op_create_new t))) (\<lambda>_. kept q n P) (kept q n P)"
    by (rule triple_io_call) (use assms in \<open>auto simp: op_create_new_def split: if_splits\<close>)
  have w: "triple (kept q n P) (io (fs_write_all t bytes)) (\<lambda>_. kept q n P) (kept q n P)"
    using assms by (auto simp: triple_def io_def fs_write_all_def Let_def split: option.splits prod.splits)
  have s: "triple (kept q n P) (io (fs_call (op_sync_file t))) (\<lambda>_. kept q n P) (kept q n P)"
    by (rule triple_io_call) (use assms in \<open>auto simp: op_sync_file_def split: option.splits fnode.splits\<close>)
  have r: "triple (kept q n P) (io (fs_call (op_rename t p))) (\<lambda>_. kept q n P) (kept q n P)"
    by (rule triple_io_call) (use assms in \<open>auto simp: op_rename_def split: option.splits if_splits\<close>)
  show ?thesis unfolding replace_steps_def by (intro keep_seq c w s r)
qed

text \<open>How replacing the configuration may end.\<close>

lemma sync_directory_outcome:
  assumes "sync_directory d fs = (fs', r)"
  shows "fs_now fs' = fs_now fs \<and> (r = Ok () \<longrightarrow> fs_now fs d = Some FDir \<longrightarrow> (\<forall>n. fs_possible fs' (d @ [n]) = {fs_now fs (d @ [n])}))
    \<and> (\<not> is_ok r \<longrightarrow> fs_possible fs' = fs_possible fs) \<and> (fs_now fs d \<noteq> Some FDir \<longrightarrow> fs_possible fs' = fs_possible fs)"
  using assms by (auto simp: sync_directory_def io_def fs_call_def op_sync_directory_def Let_def
      split: option.splits fnode.splits prod.splits)

lemma replace_config_outcome:
  assumes "replace_config libs d t (d @ [c]) bytes fs = (fs', r)" and t: "t \<noteq> d @ [c]" "d \<noteq> t"
    and d: "fs_now fs d = Some FDir"
  shows "case r of
      Ok _ \<Rightarrow> fs_now fs' (d @ [c]) = Some (FFile bytes True) \<and> fs_possible fs' (d @ [c]) = {Some (FFile bytes True)}
    | Err e \<Rightarrow> if err_code e = ''workspace_commit_uncertain''
        then fs_now fs' (d @ [c]) = Some (FFile bytes True)
          \<and> fs_possible fs' (d @ [c]) = insert (Some (FFile bytes True)) (fs_possible fs (d @ [c]))
        else fs_now fs' (d @ [c]) = fs_now fs (d @ [c]) \<and> fs_possible fs' (d @ [c]) = fs_possible fs (d @ [c])
    | Panic \<Rightarrow> False"
proof -
  let ?p = "d @ [c]" and ?n = "fs_now fs (d @ [c])" and ?P = "fs_possible fs (d @ [c])"
  note steps = triple_replace_steps[OF t(1), of ?n ?P bytes]
  have k: "kept ?p ?n ?P fs" by (simp add: kept_def)
  obtain fs1 r1 where r1: "replace_steps t ?p bytes fs = (fs1, r1)" by force
  obtain fs2 r2 where r2: "sync_directory d fs1 = (fs2, r2)" by force
  show ?thesis
  proof (cases r1)
    case (Ok u)
    then have w: "written ?p ?n ?P bytes fs1" using tripleD_Ok[OF steps k] r1 by simp
    have r2_panic: "r2 \<noteq> Panic" using fails_with_sync_directory[of d, unfolded fails_with_def, rule_format, of fs1] r2 by auto
    have r: "fs' = fs2 \<and> r = (case r2 of Err e \<Rightarrow> Err (uncertain (wl_debug_error libs e)) | _ \<Rightarrow> r2)"
      using assms(1) r1 Ok r2 unfolding replace_config_alt
      by (cases r2) (auto simp: seq_def attempt_def fail_def lift_def)
    have frame: "triple (kept d (Some FDir) (fs_possible fs d)) (replace_steps t ?p bytes)
        (\<lambda>_. kept d (Some FDir) (fs_possible fs d)) (kept d (Some FDir) (fs_possible fs d))"
      by (rule triple_replace_steps_frame) (use t in auto)
    have "kept d (Some FDir) (fs_possible fs d) fs1"
      by (rule tripleD_Ok[OF frame]) (use d r1 Ok in \<open>auto simp: kept_def\<close>)
    then have "fs_now fs1 d = Some FDir" by (simp add: kept_def)
    then have s: "fs_now fs2 = fs_now fs1" "r2 = Ok () \<Longrightarrow> fs_possible fs2 ?p = {fs_now fs1 ?p}"
        "\<not> is_ok r2 \<Longrightarrow> fs_possible fs2 = fs_possible fs1"
      using sync_directory_outcome[OF r2] by simp_all
    have w': "fs_now fs1 ?p = Some (FFile bytes True)" "fs_possible fs1 ?p = insert (Some (FFile bytes True)) ?P"
      using w by (simp_all add: written_def)
    show ?thesis
    proof (cases r2)
      case (Ok v)
      then show ?thesis using r s w' by simp
    next
      case (Err e)
      then show ?thesis using r s w' by simp
    next
      case Panic
      then show ?thesis using r2_panic by simp
    qed
  next
    case (Err e)
    then have "kept ?p ?n ?P fs1" using tripleD_Err[OF steps k] r1 by simp
    moreover have "err_code e \<in> io_codes"
      using fails_with_replace_steps[of t ?p bytes, unfolded fails_with_def, rule_format, of fs] r1 Err by simp
    moreover have "fs' = fs1" "r = Err e" using assms(1) r1 Err unfolding replace_config_alt by (simp_all add: seq_def)
    ultimately show ?thesis unfolding kept_def by (elim conjE insertE emptyE) simp_all
  next
    case Panic
    then show ?thesis using fails_with_replace_steps[of t ?p bytes, unfolded fails_with_def, rule_format, of fs] r1 by simp
  qed
qed

lemma remove_temporary_keeps:
  assumes "t \<noteq> p"
  shows "fs_now (fst (fs_call (op_remove_file t) fs)) p = fs_now fs p"
    and "fs_possible (fst (fs_call (op_remove_file t) fs)) p = fs_possible fs p"
  using assms by (auto simp: fs_call_def op_remove_file_def Let_def split: option.splits fnode.splits prod.splits)

lemma persist_atomic_lemma:
  assumes "persist libs uuid root name rec fs = (fs', r)" and dir: "fs_now fs (ws_directory root name) = Some FDir"
  shows "case r of
      Ok _ \<Rightarrow> \<exists>bytes. wl_to_toml libs rec = Some bytes \<and> fs_now fs' (config_path root name) = Some (FFile bytes True)
        \<and> fs_possible fs' (config_path root name) = {Some (FFile bytes True)}
    | Err e \<Rightarrow> if err_code e = ''workspace_commit_uncertain''
        then \<exists>bytes. wl_to_toml libs rec = Some bytes \<and> fs_now fs' (config_path root name) = Some (FFile bytes True)
          \<and> fs_possible fs' (config_path root name) = insert (Some (FFile bytes True)) (fs_possible fs (config_path root name))
        else fs_now fs' (config_path root name) = fs_now fs (config_path root name)
          \<and> fs_possible fs' (config_path root name) = fs_possible fs (config_path root name)
    | Panic \<Rightarrow> False"
proof -
  let ?d = "ws_directory root name" and ?p = "config_path root name" and ?t = "temporary_path root name uuid"
  let ?front = "seq (lift (Record_validate libs rec)) (\<lambda>_. seq (reject_symlink ?d) (\<lambda>_. seq (reject_symlink ?p) (\<lambda>_.
     lift (ok_or (configuration_invalid ''Cannot serialize configuration'') (wl_to_toml libs rec)))))"
  let ?K = "\<lambda>f. (\<forall>q. fs_now f q = fs_now fs q) \<and> fs_possible f = fs_possible fs"
  have K: "triple ?K ?front (\<lambda>b f. ?K f \<and> wl_to_toml libs rec = Some b) ?K"
    by (intro keep_seq[OF keep_lift] keep_seq[OF triple_reject_symlink] triple_lift; simp add: outcome_simps)
  have F: "fails_with io_codes ?front"
    by (intro fails_with_seq fails_with_reject_symlink fails_with_lift[OF Record_validate_fails] fails_with_lift)
      (cases "wl_to_toml libs rec"; simp)
  obtain f1 b where front: "?front fs = (f1, b)" by force
  have split: "persist libs uuid root name rec fs = seq ?front (\<lambda>bytes. attempt (replace_config libs ?d ?t ?p bytes)
      (\<lambda>result fs. (if is_ok result then fs else fst (fs_call (op_remove_file ?t) fs), result))) fs"
    by (simp add: persist_def seq_def Let_def split: prod.splits outcome.splits)
  show ?thesis
  proof (cases b)
    case (Ok bytes)
    have f1: "?K f1 \<and> wl_to_toml libs rec = Some bytes" by (rule tripleD_Ok[OF K]) (use front Ok in auto)
    obtain f2 r2 where r2: "replace_config libs ?d ?t ?p bytes f1 = (f2, r2)" by force
    have out: "case r2 of
        Ok _ \<Rightarrow> fs_now f2 ?p = Some (FFile bytes True) \<and> fs_possible f2 ?p = {Some (FFile bytes True)}
      | Err e \<Rightarrow> if err_code e = ''workspace_commit_uncertain''
          then fs_now f2 ?p = Some (FFile bytes True) \<and> fs_possible f2 ?p = insert (Some (FFile bytes True)) (fs_possible f1 ?p)
          else fs_now f2 ?p = fs_now f1 ?p \<and> fs_possible f2 ?p = fs_possible f1 ?p
      | Panic \<Rightarrow> False"
      using replace_config_outcome[of libs ?d ?t "''database.toml''" bytes f1 f2 r2, folded config_path_def]
        r2 f1 dir temporary_not_config[of root name uuid] by (simp add: temporary_path_def)
    have r: "r = r2 \<and> fs' = (if is_ok r2 then f2 else fst (fs_call (op_remove_file ?t) f2))"
      using assms(1) front Ok r2 unfolding split by (auto simp: seq_def[of ?front] attempt_def)
    show ?thesis using out r f1 remove_temporary_keeps[OF temporary_not_config[of root name uuid], of f2]
      by (cases r2) auto
  next
    case (Err e)
    have "?K f1" by (rule tripleD_Err[OF K]) (use front Err in auto)
    moreover have "err_code e \<in> io_codes" using F[unfolded fails_with_def, rule_format, of fs] front Err by simp
    moreover have "fs' = f1" "r = Err e" using assms(1) front Err unfolding split by (simp_all add: seq_def[of ?front])
    ultimately show ?thesis by (elim conjE insertE emptyE) simp_all
  next
    case Panic
    then show ?thesis using F[unfolded fails_with_def, rule_format, of fs] front by simp
  qed
qed

section \<open>Properties\<close>

text \<open>
  C8: replacing a configuration is atomic under any pattern of failing calls and under a crash. On
  success the new record is what the file holds now and after any crash; an error other than
  \<open>workspace_commit_uncertain\<close> leaves the file as it was, now and after a crash; and with that error the
  new record is in place while a crash may still bring back the old one. The file is never torn: what a
  crash may leave is an old state or the complete new text.
\<close>

theorem persist_atomic:
  assumes "persist libs uuid root name rec fs = (fs', r)" and dir: "fs_now fs (ws_directory root name) = Some FDir"
  shows "case r of
      Ok _ \<Rightarrow> \<exists>bytes. wl_to_toml libs rec = Some bytes \<and> fs_now fs' (config_path root name) = Some (FFile bytes True)
        \<and> fs_possible fs' (config_path root name) = {Some (FFile bytes True)}
    | Err e \<Rightarrow> if err_code e = ''workspace_commit_uncertain''
        then \<exists>bytes. wl_to_toml libs rec = Some bytes \<and> fs_now fs' (config_path root name) = Some (FFile bytes True)
          \<and> fs_possible fs' (config_path root name) = insert (Some (FFile bytes True)) (fs_possible fs (config_path root name))
        else fs_now fs' (config_path root name) = fs_now fs (config_path root name)
          \<and> fs_possible fs' (config_path root name) = fs_possible fs (config_path root name)
    | Panic \<Rightarrow> False"
  using assms by (rule persist_atomic_lemma)


lemma attempt_then_Ok:
  "attempt f (\<lambda>r w. (if is_ok r then w else g w, r)) w = (w', Ok x) \<longleftrightarrow> f w = (w', Ok x)"
  by (cases "f w"; cases "snd (f w)") (auto simp: attempt_def)

lemma attempt_err_Ok:
  "attempt f (\<lambda>r. case r of Err e \<Rightarrow> fail (h e) | _ \<Rightarrow> lift r) w = (w', Ok x) \<longleftrightarrow> f w = (w', Ok x)"
  by (cases "f w"; cases "snd (f w)") (auto simp: attempt_def fail_def lift_def)

lemma persist_Ok_parts:
  assumes "persist libs uuid root name rec fs = (fs', Ok u)"
  obtains fs1 bytes where "\<And>q. fs_now fs1 q = fs_now fs q" "fs_fail fs1 = fs_fail fs"
    "replace_config libs (ws_directory root name) (temporary_path root name uuid) (config_path root name) bytes fs1 = (fs', Ok u)"
    "Record_validate libs rec = Ok ()"
proof -
  have reject: "triple (\<lambda>f. (\<forall>q. fs_now f q = fs_now fs q) \<and> fs_fail f = fs_fail fs) (reject_symlink p)
      (\<lambda>_ f. (\<forall>q. fs_now f q = fs_now fs q) \<and> fs_fail f = fs_fail fs) (\<lambda>_. True)" for p
    by (rule triple_reject_symlink) simp_all
  from assms obtain f1 f2 bytes where v: "Record_validate libs rec = Ok ()"
    and r1: "reject_symlink (ws_directory root name) fs = (f1, Ok ())" and r2: "reject_symlink (config_path root name) f1 = (f2, Ok ())"
    and c: "replace_config libs (ws_directory root name) (temporary_path root name uuid) (config_path root name) bytes f2 = (fs', Ok u)"
    by (auto simp: persist_def seq_Ok lift_def Let_def attempt_then_Ok)
  have "(\<forall>q. fs_now f1 q = fs_now fs q) \<and> fs_fail f1 = fs_fail fs"
    using tripleD_Ok[OF reject _ r1] by blast
  then have "(\<forall>q. fs_now f2 q = fs_now fs q) \<and> fs_fail f2 = fs_fail fs"
    using tripleD_Ok[OF reject _ r2] by blast
  then show ?thesis using that c v by blast
qed

lemma persist_keeps_directory:
  assumes "persist libs uuid root name rec fs = (fs', Ok u)" and q: "q \<noteq> temporary_path root name uuid" "q \<noteq> config_path root name"
  shows "fs_now fs' q = fs_now fs q"
proof -
  let ?t = "temporary_path root name uuid" and ?p = "config_path root name"
  obtain fs1 bytes where 1: "\<And>q. fs_now fs1 q = fs_now fs q"
    and c: "replace_config libs (ws_directory root name) ?t ?p bytes fs1 = (fs', Ok u)"
    using persist_Ok_parts[OF assms(1)] by blast
  then obtain fs2 v where 2: "replace_steps ?t ?p bytes fs1 = (fs2, Ok v)"
    and s: "\<exists>r. sync_directory (ws_directory root name) fs2 = (fs', r)"
    unfolding replace_config_alt by (auto simp: seq_Ok attempt_err_Ok)
  have "kept q (fs_now fs1 q) (fs_possible fs1 q) fs2"
    by (rule tripleD_Ok[OF triple_replace_steps_frame[OF q] _ 2]) (simp add: kept_def)
  then show ?thesis using 1 s sync_directory_outcome by (auto simp: kept_def)
qed

text \<open>Reading with no failing call.\<close>

lemma fs_call_ok: "fs_fail fs = (\<lambda>_. None) \<Longrightarrow> fs_call op fs = op (fs\<lparr>fs_calls := Suc (fs_calls fs)\<rparr>)"
  by (simp add: fs_call_def Let_def)

lemma reject_symlink_ok:
  assumes "fs_fail fs = (\<lambda>_. None)" and "fs_now fs p \<noteq> Some FLink"
  shows "reject_symlink p fs = (fs\<lparr>fs_calls := Suc (fs_calls fs)\<rparr>, Ok ())"
  using assms by (auto simp: reject_symlink_def fs_call_ok op_symlink_metadata_def split: option.splits fnode.splits)

lemma ws_read_ok:
  assumes "fs_fail fs = (\<lambda>_. None)" and "fs_now fs (ws_directory root name) = Some FDir"
    and "fs_now fs (config_path root name) = Some (FFile bytes s)"
    and "wl_from_toml libs bytes = Inr rec" and "Record_validate libs rec = Ok ()" and "validate_name name = Ok ()"
  shows "snd (ws_read libs root name fs) = Ok rec"
  using assms by (simp add: ws_read_def seq_def lift_def reject_symlink_ok io_def fs_call_ok op_read_def ret_def)

text \<open>a configuration that was persisted is read back as the same record, provided that the TOML
  codec is faithful and the file system does not fail.
\<close>

theorem persist_read_roundtrip:
  assumes "persist libs uuid root name rec fs = (fs', Ok u)" and "fs_now fs (ws_directory root name) = Some FDir"
    and "\<And>bytes. wl_to_toml libs rec = Some bytes \<Longrightarrow> wl_from_toml libs bytes = Inr rec"
    and "validate_name name = Ok ()"
  shows "snd (ws_read libs root name (fs'\<lparr>fs_fail := (\<lambda>_. None)\<rparr>)) = Ok rec"
proof -
  obtain bytes where b: "wl_to_toml libs rec = Some bytes" "fs_now fs' (config_path root name) = Some (FFile bytes True)"
    using persist_atomic_lemma[OF assms(1,2)] by auto
  have "Record_validate libs rec = Ok ()" using persist_Ok_parts[OF assms(1)] by blast
  moreover have "fs_now fs' (ws_directory root name) = Some FDir"
    using persist_keeps_directory[OF assms(1), of "ws_directory root name"] assms(2)
    by (simp add: temporary_path_def config_path_def)
  moreover have "fs_now (fs'\<lparr>fs_fail := (\<lambda>_. None)\<rparr>) = fs_now fs'" by (simp add: fs_now_def fun_eq_iff)
  ultimately show ?thesis using assms(3)[OF b(1)] assms(4) b(2) by (intro ws_read_ok) simp_all
qed

section \<open>Witnesses\<close>

text \<open>A codec of the records whose backend is Turso and whose limits are the default ones.\<close>

definition toml_of :: "ws_record \<Rightarrow> string option" where
  "toml_of r = (if wr_database r = Turso_config \<and> wr_limits r = RequestLimits_default
     then Some (case wr_recovery r of No_recovery \<Rightarrow> ''toml'' | Migration_recovery \<Rightarrow> ''migration'' | Reload_recovery \<Rightarrow> ''reload'')
     else None)"

definition of_toml :: "string \<Rightarrow> string + ws_record" where
  "of_toml t =
     (case map_of [(''toml'', No_recovery), (''migration'', Migration_recovery), (''reload'', Reload_recovery)] t of
        Some r \<Rightarrow> Inr \<lparr>wr_database = Turso_config, wr_recovery = r, wr_limits = RequestLimits_default\<rparr>
      | None \<Rightarrow> Inl ''unknown'')"

definition ws_libs :: workspace_libs where
  "ws_libs = \<lparr>wl_to_toml = toml_of, wl_from_toml = of_toml,
     wl_connection = (\<lambda>_. True), wl_utf8 = (\<lambda>_. True), wl_canonical = id, wl_debug_error = (\<lambda>_. []),
     wl_now = 0, wl_limit = 10000000000\<rparr>"

definition ws_rec :: ws_record where
  "ws_rec = \<lparr>wr_database = Turso_config, wr_recovery = No_recovery, wr_limits = RequestLimits_default\<rparr>"

definition ws_fs :: "(nat \<Rightarrow> (nat \<times> string) option) \<Rightarrow> filesystem" where
  "ws_fs oracle = \<lparr>fs_nodes = [([''databases''], FDir), ([''databases'', ''app''], FDir)], fs_possible = (\<lambda>_. {None}),
     fs_locked = {}, fs_calls = 0, fs_fail = oracle\<rparr>"

lemma ws_dir: "fs_now (ws_fs oracle) (ws_directory [] ''app'') = Some FDir"
  by (simp add: ws_fs_def fs_now_def ws_directory_def databases_def)

lemma ws_valid: "Record_validate ws_libs ws_rec = Ok ()"
  by (simp add: Record_validate_def ws_rec_def ws_libs_def validate_database_def RequestLimits_validate_def duration_def
      RequestLimits_default_def request_timeout_default_def max_rows_default_def I64_MAX_def)

lemmas persist_run = persist_def seq_def lift_def ws_valid reject_symlink_def fs_call_def op_symlink_metadata_def
  replace_config_def op_create_new_def fs_write_all_def op_sync_file_def op_rename_def sync_directory_def op_sync_directory_def
  io_def attempt_def fail_def ws_directory_def config_path_def temporary_path_def databases_def Let_def

lemma ws_toml: "wl_to_toml ws_libs ws_rec = Some ''toml''" "wl_from_toml ws_libs ''toml'' = Inr ws_rec"
  by (simp_all add: ws_libs_def ws_rec_def toml_of_def of_toml_def)

lemma ws_persisted: "snd (persist ws_libs ''u'' [] ''app'' ws_rec (ws_fs (\<lambda>_. None))) = Ok ()"
  by (simp add: persist_run ws_toml ws_fs_def fs_now_def set_entry_def)

theorem persist_atomic_witness:
  "case persist ws_libs ''u'' [] ''app'' ws_rec (ws_fs (\<lambda>_. None)) of (fs', r) \<Rightarrow>
     fs_possible fs' (config_path [] ''app'') = {Some (FFile ''toml'' True)}"
proof -
  obtain fs' r where p: "persist ws_libs ''u'' [] ''app'' ws_rec (ws_fs (\<lambda>_. None)) = (fs', r)" by force
  then have "r = Ok ()" using ws_persisted by simp
  then show ?thesis using persist_atomic[OF p ws_dir] p by (auto simp: ws_toml)
qed

theorem persist_read_roundtrip_witness:
  "snd (ws_read ws_libs [] ''app'' ((fst (persist ws_libs ''u'' [] ''app'' ws_rec (ws_fs (\<lambda>_. None))))\<lparr>fs_fail := (\<lambda>_. None)\<rparr>))
     = Ok ws_rec"
proof -
  obtain fs' r where p: "persist ws_libs ''u'' [] ''app'' ws_rec (ws_fs (\<lambda>_. None)) = (fs', r)" by force
  then have r: "persist ws_libs ''u'' [] ''app'' ws_rec (ws_fs (\<lambda>_. None)) = (fs', Ok ())" using ws_persisted by simp
  have "snd (ws_read ws_libs [] ''app'' (fs'\<lparr>fs_fail := (\<lambda>_. None)\<rparr>)) = Ok ws_rec"
    by (rule persist_read_roundtrip[OF r ws_dir])
      (auto simp: ws_toml validate_name_def migration_name_char_def ascii_defs)
  then show ?thesis using r by simp
qed

end
