(* ===== verification/Operation_Id.thy ===== *)
theory Operation_Id
  imports Workspace
begin

text \<open>
  The operation identifiers of \<^verbatim>\<open>src/registry.rs\<close>: a kind and a 128-bit value, written as a
  prefix and the value in base 36. \<open>Display\<close> fills a buffer of 25 bytes from its end.
\<close>

datatype operation_kind = Publish | Unregister

primrec kind_prefix :: "operation_kind \<Rightarrow> string" where
  "kind_prefix Publish = ''publish''"
| "kind_prefix Unregister = ''unregister''"

record operation_id =
  oi_kind :: operation_kind
  oi_value :: "128 word"

definition base36_char :: "nat \<Rightarrow> char" where
  "base36_char n = ''0123456789abcdefghijklmnopqrstuvwxyz'' ! n"

text \<open>The loop of \<open>Display\<close>; \<open>start\<close> bytes of the buffer are left, and going below panics.\<close>

primrec display_loop :: "nat \<Rightarrow> nat \<Rightarrow> string \<Rightarrow> string result" where
  "display_loop 0 value bytes = Panic"
| "display_loop (Suc start) value bytes =
     (let bytes = base36_char (value mod 36) # bytes; value = value div 36 in
      if value = 0 then Ok bytes else display_loop start value bytes)"

definition OperationId_display :: "operation_id \<Rightarrow> string result" where
  "OperationId_display i =
     map_ok (\<lambda>digits. kind_prefix (oi_kind i) @ ''-'' @ digits) (display_loop 25 (unat (oi_value i)) [])"

definition invalid_operation_id :: sqlrest_error where
  "invalid_operation_id = new_error 400 ''invalid_operation_id''
     ''Expected an operation prefix and lowercase base36 UUID''"

definition base36_digit :: "char \<Rightarrow> nat" where
  "base36_digit c = (if is_ascii_digit c then of_char c - 48 else of_char c - 87)"

text \<open>\<open>u128::from_str_radix\<close> on lowercase base-36 digits: no overflow.\<close>

definition from_str_radix36 :: "string \<Rightarrow> 128 word option" where
  "from_str_radix36 s =
     (let n = foldl (\<lambda>n c. 36 * n + base36_digit c) 0 s in
      if s = [] \<or> 2 ^ 128 \<le> n then None else Some (of_nat n))"

definition operation_kind_of :: "string \<Rightarrow> operation_kind option" where
  "operation_kind_of pre =
     (if pre = ''publish'' then Some Publish else if pre = ''unregister'' then Some Unregister else None)"

definition OperationId_from_str :: "string \<Rightarrow> operation_id result" where
  "OperationId_from_str s =
     and_then (ok_or invalid_operation_id (split_once CHR ''-'' s)) (\<lambda>(pre, encoded).
     and_then (ok_or invalid_operation_id (operation_kind_of pre)) (\<lambda>kind.
     if encoded = [] \<or> 25 < length encoded
       \<or> \<not> list_all (\<lambda>c. is_ascii_digit c \<or> is_ascii_lowercase c) encoded
       \<or> (1 < length encoded \<and> starts_with encoded ''0'')
     then Err invalid_operation_id
     else and_then (ok_or invalid_operation_id (from_str_radix36 encoded)) (\<lambda>value.
       Ok \<lparr>oi_kind = kind, oi_value = value\<rparr>)))"


section \<open>Base 36\<close>

fun base36 :: "nat \<Rightarrow> string" where
  "base36 n = (if n < 36 then [base36_char n] else base36 (n div 36) @ [base36_char (n mod 36)])"

declare base36.simps [simp del]

definition base36_value :: "string \<Rightarrow> nat" where
  "base36_value s = foldl (\<lambda>n c. 36 * n + base36_digit c) 0 s"

lemma base36_chars:
  "map (\<lambda>n. char_of (if n < 10 then 48 + n else 87 + n)) [0..<36] = ''0123456789abcdefghijklmnopqrstuvwxyz''"
  by code_simp

lemma base36_char_eq:
  assumes "n < 36"
  shows "base36_char n = char_of (if n < 10 then 48 + n else 87 + n)"
proof -
  have "base36_char n = map (\<lambda>n. char_of (if n < 10 then 48 + n else 87 + n)) [0..<36] ! n"
    unfolding base36_char_def base36_chars ..
  also have "\<dots> = char_of (if n < 10 then 48 + n else 87 + n)" using assms by (simp del: if_split)
  finally show ?thesis .
qed

lemma of_base36_char: "n < 36 \<Longrightarrow> of_char (base36_char n) = (if n < 10 then 48 + n else 87 + n)"
  by (simp add: base36_char_eq)

lemma ascii_code:
  "is_ascii_digit c \<longleftrightarrow> 48 \<le> (of_char c :: nat) \<and> of_char c \<le> (57 :: nat)"
  "is_ascii_lowercase c \<longleftrightarrow> 97 \<le> (of_char c :: nat) \<and> of_char c \<le> (122 :: nat)"
  by (simp_all add: ascii_defs less_eq_char_def)

lemma base36_char:
  assumes "n < 36"
  shows "base36_digit (base36_char n) = n" and "is_ascii_digit (base36_char n) \<or> is_ascii_lowercase (base36_char n)"
    and "base36_char n = CHR ''0'' \<longleftrightarrow> n = 0" and "base36_char n \<noteq> CHR ''-''"
proof -
  show "base36_digit (base36_char n) = n" using assms by (simp add: base36_digit_def ascii_code of_base36_char)
  show "is_ascii_digit (base36_char n) \<or> is_ascii_lowercase (base36_char n)" using assms by (simp add: ascii_code of_base36_char)
  have zero: "base36_char 0 = CHR ''0''" by (simp add: base36_char_def)
  have "of_char (base36_char n) = (48 :: nat) \<longleftrightarrow> n = 0" using assms by (simp add: of_base36_char)
  then show "base36_char n = CHR ''0'' \<longleftrightarrow> n = 0" using zero by auto
  have "of_char (base36_char n) \<noteq> (45 :: nat)" using assms by (simp add: of_base36_char)
  then show "base36_char n \<noteq> CHR ''-''" by auto
qed

lemma base36_char_digit:
  assumes "is_ascii_digit c \<or> is_ascii_lowercase c"
  shows "base36_char (base36_digit c) = c" and "base36_digit c < 36"
proof -
  show less: "base36_digit c < 36" using assms by (auto simp: base36_digit_def ascii_code)
  have "of_char (base36_char (base36_digit c)) = (of_char c :: nat)"
    unfolding of_base36_char[OF less] using assms by (auto simp: base36_digit_def ascii_code)
  then show "base36_char (base36_digit c) = c" by simp
qed

lemma base36_value_snoc: "base36_value (s @ [c]) = 36 * base36_value s + base36_digit c"
  by (simp add: base36_value_def)

lemma base36_value_base36: "base36_value (base36 n) = n"
proof (induction n rule: base36.induct)
  case (1 n)
  show ?case
  proof (cases "n < 36")
    case True
    then show ?thesis by (simp add: base36.simps[of n] base36_value_def base36_char(1))
  next
    case False
    then show ?thesis using 1 by (simp add: base36.simps[of n] base36_value_snoc base36_char(1))
  qed
qed

lemma base36_digits: "list_all (\<lambda>c. is_ascii_digit c \<or> is_ascii_lowercase c) (base36 n)"
  and base36_not_Nil: "base36 n \<noteq> []"
  and base36_no_zero: "0 < n \<Longrightarrow> hd (base36 n) \<noteq> CHR ''0''"
proof (induction n rule: base36.induct)
  case (1 n)
  { case 1 show ?case using "1.IH"(1) by (simp add: base36.simps[of n] base36_char(2)) }
  { case 2 show ?case by (simp add: base36.simps[of n]) }
  { case 3
    show ?case
    proof (cases "n < 36")
      case True
      then show ?thesis using 3 by (simp add: base36.simps[of n] base36_char(3))
    next
      case False
      then have "0 < n div 36" by simp
      then show ?thesis using "1.IH"(2,3) False by (simp add: base36.simps[of n])
    qed }
qed

lemma base36_length: "n < 36 ^ k \<Longrightarrow> 0 < k \<Longrightarrow> length (base36 n) \<le> k"
proof (induction n arbitrary: k rule: base36.induct)
  case (1 n)
  show ?case
  proof (cases "n < 36")
    case True
    then show ?thesis using 1 by (simp add: base36.simps[of n])
  next
    case False
    then obtain j where k: "k = Suc j" "0 < j" using 1(2,3) by (cases k; cases "k - 1") auto
    then have "n div 36 < 36 ^ j" using 1(2) by (simp add: less_mult_imp_div_less mult.commute)
    then show ?thesis using 1(1)[OF False _ k(2)] False k by (simp add: base36.simps[of n])
  qed
qed

text \<open>Canonical digits are the text of their value.\<close>

lemma base36_base36_value:
  assumes "list_all (\<lambda>c. is_ascii_digit c \<or> is_ascii_lowercase c) s" and "s \<noteq> []" and "1 < length s \<longrightarrow> hd s \<noteq> CHR ''0''"
  shows "base36 (base36_value s) = s \<and> (hd s \<noteq> CHR ''0'' \<longrightarrow> 0 < base36_value s)"
  using assms
proof (induction s rule: rev_induct)
  case (snoc c s)
  have c: "base36_char (base36_digit c) = c" "base36_digit c < 36" using snoc.prems(1) by (auto intro: base36_char_digit)
  show ?case
  proof (cases "s = []")
    case True
    then show ?thesis using c base36_char(3)[OF c(2)] by (auto simp: base36_value_def base36.simps[of "base36_digit c"])
  next
    case False
    then have hd: "hd s \<noteq> CHR ''0''" using snoc.prems(3) by (cases s) auto
    then have IH: "base36 (base36_value s) = s" "0 < base36_value s" using snoc.IH snoc.prems(1) False by auto
    then have "\<not> 36 * base36_value s + base36_digit c < 36" by simp
    then show ?thesis using IH c by (simp add: base36_value_snoc base36.simps[of "36 * base36_value s + base36_digit c"])
  qed
qed simp

section \<open>The text of an identifier\<close>

lemma display_loop_eq: "length (base36 n) \<le> start \<Longrightarrow> display_loop start n acc = Ok (base36 n @ acc)"
proof (induction start arbitrary: n acc)
  case 0
  then show ?case using base36_not_Nil by simp
next
  case (Suc start)
  show ?case
  proof (cases "n < 36")
    case True
    then show ?thesis by (simp add: base36.simps[of n])
  next
    case False
    then have "length (base36 (n div 36)) \<le> start" using Suc.prems by (simp add: base36.simps[of n])
    then show ?thesis using False Suc.IH[of "n div 36"] by (simp add: base36.simps[of n] Let_def)
  qed
qed

definition operation_text :: "operation_id \<Rightarrow> string" where
  "operation_text i = kind_prefix (oi_kind i) @ ''-'' @ base36 (unat (oi_value i))"

lemma unat_length: "length (base36 (unat (v :: 128 word))) \<le> 25"
proof -
  have "unat v < 2 ^ 128" using unsigned_less[of v, where ?'a = nat] by simp
  also have "(2 :: nat) ^ 128 < 36 ^ 25" by simp
  finally show ?thesis by (intro base36_length) simp_all
qed

lemma display_text: "OperationId_display i = Ok (operation_text i)"
  by (simp add: OperationId_display_def operation_text_def display_loop_eq[OF unat_length])

lemma kind_prefix_no_dash: "CHR ''-'' \<notin> set (kind_prefix k)"
  by (cases k) simp_all

lemma kind_of_prefix: "operation_kind_of pre = Some k \<longleftrightarrow> pre = kind_prefix k"
  by (cases k) (auto simp: operation_kind_of_def)

lemma starts_with_zero: "starts_with s ''0'' \<longleftrightarrow> s \<noteq> [] \<and> hd s = CHR ''0''"
  by (cases s) (auto simp: starts_with_prefix)

lemma radix_base36: "from_str_radix36 (base36 (unat v)) = Some v"
proof -
  have "unat v < 2 ^ 128" using unsigned_less[of v, where ?'a = nat] by simp
  then show ?thesis
    using base36_value_base36[of "unat v"] base36_not_Nil[of "unat v"] by (simp add: from_str_radix36_def base36_value_def)
qed

interpretation operation_codec: canonical_codec operation_text OperationId_from_str "\<lambda>_. True"
proof
  fix i :: operation_id
  have s: "split_once CHR ''-'' (operation_text i) = Some (kind_prefix (oi_kind i), base36 (unat (oi_value i)))"
    using kind_prefix_no_dash by (simp add: operation_text_def split_once_iff)
  have "\<not> (1 < length (base36 (unat (oi_value i))) \<and> starts_with (base36 (unat (oi_value i))) ''0'')"
  proof (cases "unat (oi_value i) = 0")
    case True
    then show ?thesis by (simp add: base36.simps)
  next
    case False
    then show ?thesis using base36_no_zero by (simp add: starts_with_zero)
  qed
  moreover have "operation_kind_of (kind_prefix (oi_kind i)) = Some (oi_kind i)" by (simp add: kind_of_prefix)
  ultimately show "OperationId_from_str (operation_text i) = Ok i"
    using unat_length[of "oi_value i"] base36_digits[of "unat (oi_value i)"] base36_not_Nil[of "unat (oi_value i)"]
    by (simp add: OperationId_from_str_def s radix_base36 not_less)
next
  fix s i
  assume "OperationId_from_str s = Ok i"
  then obtain pre encoded v where s: "split_once CHR ''-'' s = Some (pre, encoded)"
    and k: "operation_kind_of pre = Some (oi_kind i)"
    and e: "encoded \<noteq> []" "list_all (\<lambda>c. is_ascii_digit c \<or> is_ascii_lowercase c) encoded"
      "\<not> (1 < length encoded \<and> starts_with encoded ''0'')"
    and v: "from_str_radix36 encoded = Some v" "oi_value i = v"
    by (auto simp: OperationId_from_str_def outcome_simps split: if_splits)
  have "base36 (base36_value encoded) = encoded" using base36_base36_value[of encoded] e by (auto simp: starts_with_zero)
  moreover have "unat v = base36_value encoded"
    using v(1) by (auto simp: from_str_radix36_def base36_value_def Let_def unat_of_nat split: if_splits)
  ultimately show "True \<and> operation_text i = s" using s k v(2) kind_of_prefix by (auto simp: operation_text_def split_once_iff)
qed

section \<open>Properties\<close>

text \<open>
  C37: every operation identifier is displayed without exhausting the buffer, its text is parsed back to
  it, and no other text is accepted for it: exactly one text denotes each identifier.
\<close>

theorem operation_id_roundtrip:
  "OperationId_from_str s = Ok i \<longleftrightarrow> OperationId_display i = Ok s"
  using operation_codec.decode_iff[of s i] by (auto simp: display_text)

end
