(* ===== verification/Registry.thy ===== *)
theory Registry
  imports Operation_Id
begin

text \<open>
  \<^verbatim>\<open>src/registry.rs\<close>: the state of one registered database, the operations on it, and the
  registry that holds them. What runs while no lock is held (workers, requests) is left to the
  transition system of the next theory. Resources (an executor with its file claim) are a type
  parameter.
\<close>

section \<open>Configurations\<close>

text \<open>\<open>parse\<close> is the parser of connection strings; targets are compared by what it returns.\<close>

datatype cfg_target = Turso_target path | Postgres_target string

record configuration =
  cf_target :: cfg_target
  cf_interfaces :: path
  cf_migrations :: path
  cf_limits :: limits

definition Configuration_from_record ::
  "workspace_libs \<Rightarrow> (string \<Rightarrow> string option) \<Rightarrow> path \<Rightarrow> string \<Rightarrow> ws_record \<Rightarrow> configuration result" where
  "Configuration_from_record libs parse root name r =
     (let dir = ws_directory root name in
      and_then (case wr_database r of
          Turso_config \<Rightarrow> Ok (Turso_target (dir @ [''data.db'']))
        | Postgres_unencrypted connection \<Rightarrow>
            map_ok Postgres_target
              (ok_or (definition_error ''Invalid PostgreSQL connection configuration'') (parse connection))) (\<lambda>t.
      map_ok (\<lambda>l. \<lparr>cf_target = t, cf_interfaces = dir @ [''interfaces''], cf_migrations = dir @ [''migrations''], cf_limits = l\<rparr>)
        (RequestLimits_validate libs (wr_limits r))))"

definition configuration_backend :: "configuration \<Rightarrow> backend" where
  "configuration_backend c = (case cf_target c of Turso_target _ \<Rightarrow> backend.Turso | Postgres_target _ \<Rightarrow> backend.Postgres)"

definition is_turso_target :: "configuration \<Rightarrow> bool" where
  "is_turso_target c = (case cf_target c of Turso_target _ \<Rightarrow> True | Postgres_target _ \<Rightarrow> False)"


section \<open>Operations and states\<close>

datatype phase = Publishing | Ready | Recovery_required | Unregistering | Unregistered

datatype op_outcome = Running | Succeeded | Failed

datatype publish_phase = Connecting | Preflight | Draining | Applying | Loading | Complete

record publish_progress =
  pp_step :: publish_phase
  pp_applied_versions :: "int list"
  pp_current_version :: "int option"
  pp_failed_version :: "int option"

record operation =
  op_id :: operation_id
  op_kind :: operation_kind
  op_outcome :: op_outcome
  op_error :: "sqlrest_error option"
  op_publish :: "publish_progress option"

record 'r db_state =
  st_phase :: phase
  st_config :: "configuration option"
  st_record :: "ws_record option"
  st_invalid_record :: bool
  st_resources :: "'r option"
  st_snapshot :: "snapshot option"
  st_active :: nat
  st_current :: "operation option"
  st_last :: "operation option"
  st_error :: "sqlrest_error option"

definition Database_new :: "'r db_state" where
  "Database_new = \<lparr>st_phase = Recovery_required, st_config = None, st_record = None, st_invalid_record = False,
     st_resources = None, st_snapshot = None, st_active = 0, st_current = None, st_last = None, st_error = None\<rparr>"

definition shutting_down :: sqlrest_error where
  "shutting_down = new_error 503 ''server_shutting_down'' ''Server is shutting down''"

definition unavailable :: sqlrest_error where
  "unavailable = new_error 503 ''database_unavailable'' ''Database interfaces are not accepting requests''"

definition busy :: sqlrest_error where
  "busy = new_error 409 ''operation_in_progress'' ''A database operation is in progress''"

definition worker_failed :: sqlrest_error where
  "worker_failed = new_error 500 ''management_task_failed'' ''Database management worker failed''"

definition database_not_found :: sqlrest_error where
  "database_not_found = new_error 404 ''database_not_found'' ''Database configuration not found''"

definition configuration_required :: sqlrest_error where
  "configuration_required = new_error 400 ''database_configuration_required''
     ''First publish requires database configuration''"

definition invalid_persisted :: sqlrest_error where
  "invalid_persisted = new_error 409 ''invalid_persisted_configuration''
     ''Repair database.toml and restart before publishing''"

definition operation_not_found :: sqlrest_error where
  "operation_not_found = new_error 404 ''operation_not_found''
     ''Operation record is unavailable; inspect database state before retrying''"

definition history_changed :: sqlrest_error where
  "history_changed = new_error 409 ''migration_history_changed''
     ''Migration history changed during publication; retry publish''"

text \<open>\<open>begin\<close>, with the fresh value of the identifier.\<close>

definition begin_operation :: "128 word \<Rightarrow> operation_kind \<Rightarrow> 'r db_state \<Rightarrow> 'r db_state" where
  "begin_operation v kind st = st\<lparr>st_current := Some
     \<lparr>op_id = \<lparr>oi_kind = kind, oi_value = v\<rparr>, op_kind = kind, op_outcome = Running, op_error = None,
      op_publish = (if kind = Publish then Some \<lparr>pp_step = Connecting, pp_applied_versions = [],
         pp_current_version = None, pp_failed_version = None\<rparr> else None)\<rparr>\<rparr>"

definition result_error :: "unit result \<Rightarrow> sqlrest_error option" where
  "result_error r = (case r of Err e \<Rightarrow> Some e | _ \<Rightarrow> None)"

definition finish_operation :: "unit result \<Rightarrow> 'r db_state \<Rightarrow> 'r db_state result" where
  "finish_operation r st =
     map_ok (\<lambda>op.
       let op = op\<lparr>op_outcome := (if is_ok r then Succeeded else Failed), op_error := result_error r\<rparr> in
       st\<lparr>st_current := None, st_error := op_error op, st_last := Some op\<rparr>)
     (unwrap (st_current st))"

definition find_operation :: "'r db_state \<Rightarrow> operation_id \<Rightarrow> operation result" where
  "find_operation st i =
     ok_or operation_not_found
       (find (\<lambda>op. op_id op = i)
         ((case st_current st of Some op \<Rightarrow> [op] | None \<Rightarrow> []) @ (case st_last st of Some op \<Rightarrow> [op] | None \<Rightarrow> [])))"

text \<open>One round of the loop of \<open>wait_operation\<close>; \<open>None\<close> when it waits for the next change.\<close>

definition wait_round :: "'r db_state \<Rightarrow> operation_id \<Rightarrow> operation result option" where
  "wait_round st i =
     (case find_operation st i of
        Ok op \<Rightarrow> if op_outcome op \<noteq> Running then Some (Ok op) else None
      | Err e \<Rightarrow> Some (Err e)
      | Panic \<Rightarrow> Some Panic)"

record db_status =
  ds_phase :: phase
  ds_version :: "string option"
  ds_active_requests :: nat
  ds_current_operation :: "operation option"
  ds_last_operation :: "operation option"
  ds_recovery :: "recovery option"
  ds_limits :: "request_limits option"
  ds_error :: "sqlrest_error option"

definition db_status_of :: "'r db_state \<Rightarrow> db_status" where
  "db_status_of st = \<lparr>ds_phase = st_phase st, ds_version = map_option sn_version (st_snapshot st),
     ds_active_requests = st_active st, ds_current_operation = st_current st, ds_last_operation = st_last st,
     ds_recovery = map_option wr_recovery (st_record st), ds_limits = map_option wr_limits (st_record st),
     ds_error = st_error st\<rparr>"


section \<open>Steps under the lock of a database\<close>

definition check_open :: "bool \<Rightarrow> unit result" where
  "check_open closed = (if closed then Err shutting_down else Ok ())"

record 'r admitted =
  ad_executor :: 'r
  ad_matched :: matched_endpoint
  ad_limits :: limits

text \<open>\<open>admit\<close>: a request that is admitted holds a lifetime until its cleanup is over.\<close>

definition admit :: "bool \<Rightarrow> 'r db_state \<Rightarrow> string \<Rightarrow> string list \<Rightarrow> ('r admitted \<times> 'r db_state) result" where
  "admit closed st method segments =
     and_then (check_open closed) (\<lambda>_.
     if st_phase st \<noteq> Ready then Err unavailable
     else
       and_then (unwrap (st_snapshot st)) (\<lambda>s.
       and_then (resolve s method segments) (\<lambda>matched.
       and_then (unwrap (st_resources st)) (\<lambda>resources.
       and_then (unwrap (st_config st)) (\<lambda>config.
       Ok (\<lparr>ad_executor = resources, ad_matched = matched, ad_limits = cf_limits config\<rparr>,
           st\<lparr>st_active := st_active st + 1\<rparr>))))))"

text \<open>\<open>Drop\<close> of a lifetime.\<close>

definition release :: "'r db_state \<Rightarrow> 'r db_state result" where
  "release st = (if st_active st = 0 then Panic else Ok (st\<lparr>st_active := st_active st - 1\<rparr>))"

text \<open>The part of \<open>export_migrations\<close> under the lock.\<close>

definition begin_export :: "bool \<Rightarrow> 'r db_state \<Rightarrow> (('r \<times> backend) \<times> 'r db_state) result" where
  "begin_export closed st =
     and_then (check_open closed) (\<lambda>_.
     if st_current st \<noteq> None \<or> st_phase st = Unregistered then Err unavailable
     else
       and_then (ok_or unavailable (st_resources st)) (\<lambda>resources.
       and_then (ok_or unavailable (st_config st)) (\<lambda>config.
       Ok ((resources, configuration_backend config), st\<lparr>st_active := st_active st + 1\<rparr>))))"

text \<open>
  The acceptance of \<open>publish\<close>: what it asks of the state, and before that of the request and the
  registry; \<open>known\<close> is the entry of the registry, if there is one.
\<close>

definition accept_state :: "128 word \<Rightarrow> publish_request \<Rightarrow> 'r db_state \<Rightarrow> 'r db_state result" where
  "accept_state v req st =
     (if st_current st \<noteq> None then Err busy
      else if st_invalid_record st then Err invalid_persisted
      else if pr_database req = None \<and> st_record st = None then Err configuration_required
      else Ok (begin_operation v Publish st))"

definition accept_publish ::
  "workspace_libs \<Rightarrow> bool \<Rightarrow> 128 word \<Rightarrow> string \<Rightarrow> publish_request \<Rightarrow> 'r db_state option \<Rightarrow> 'r db_state result" where
  "accept_publish libs closed v name req known =
     and_then (validate_name name) (\<lambda>_.
     and_then (PublishRequest_validate libs req) (\<lambda>_.
     and_then (check_open closed) (\<lambda>_.
     if known = None \<and> pr_database req = None then Err configuration_required
     else accept_state v req (case known of Some st \<Rightarrow> st | None \<Rightarrow> Database_new))))"

definition accept_unregister :: "bool \<Rightarrow> 128 word \<Rightarrow> 'r db_state \<Rightarrow> 'r db_state result" where
  "accept_unregister closed v st =
     and_then (check_open closed) (\<lambda>_.
     if st_current st \<noteq> None then Err busy
     else Ok ((begin_operation v Unregister st)\<lparr>st_phase := Unregistering\<rparr>))"

text \<open>\<open>progress\<close>: an update of the progress of the current publication.\<close>

definition update_progress :: "(publish_progress \<Rightarrow> publish_progress) \<Rightarrow> 'r db_state \<Rightarrow> 'r db_state result" where
  "update_progress f st =
     and_then (unwrap (st_current st)) (\<lambda>op.
     and_then (unwrap (op_publish op)) (\<lambda>p.
     Ok (st\<lparr>st_current := Some (op\<lparr>op_publish := Some (f p)\<rparr>)\<rparr>)))"

definition close_admission :: "'r db_state \<Rightarrow> (phase \<times> 'r db_state) result" where
  "close_admission st =
     map_ok (Pair (st_phase st)) (update_progress (\<lambda>p. p\<lparr>pp_step := Draining\<rparr>) (st\<lparr>st_phase := Publishing\<rparr>))"

definition restore_admission :: "phase \<Rightarrow> 'r db_state \<Rightarrow> 'r db_state" where
  "restore_admission previous st =
     (if \<not> st_invalid_record st \<and> st_phase st = Publishing then st\<lparr>st_phase := previous\<rparr> else st)"

text \<open>What the registry does with the result of persisting a record.\<close>

definition commit_uncertain :: "unit result \<Rightarrow> bool" where
  "commit_uncertain r = (case r of Err e \<Rightarrow> err_code e = ''workspace_commit_uncertain'' | _ \<Rightarrow> False)"

definition note_persist :: "unit result \<Rightarrow> 'r db_state \<Rightarrow> 'r db_state" where
  "note_persist r st =
     (if commit_uncertain r then st\<lparr>st_phase := Recovery_required, st_invalid_record := True\<rparr> else st)"

text \<open>The three updates of the state by which \<open>run_publish\<close> adopts a target, takes over resources and completes.\<close>

definition adopt :: "configuration \<Rightarrow> ws_record \<Rightarrow> 'r \<Rightarrow> 'r db_state \<Rightarrow> 'r db_state" where
  "adopt config candidate resources st =
     st\<lparr>st_config := Some config, st_record := Some candidate, st_resources := Some resources, st_snapshot := None\<rparr>"

definition complete_publish ::
  "ws_record \<Rightarrow> configuration \<Rightarrow> 'r \<Rightarrow> snapshot \<Rightarrow> 'r db_state \<Rightarrow> 'r db_state result" where
  "complete_publish candidate config resources s st =
     update_progress (\<lambda>p. p\<lparr>pp_step := Complete\<rparr>)
       (st\<lparr>st_record := Some candidate, st_config := Some config, st_resources := Some resources, st_phase := Ready,
           st_error := None, st_snapshot := Some s\<rparr>)"

text \<open>The end of a publication and of an unregistration.\<close>

definition end_publish :: "unit result \<Rightarrow> 'r db_state \<Rightarrow> 'r db_state result" where
  "end_publish r st =
     finish_operation r (if \<not> is_ok r \<and> st_phase st = Publishing then st\<lparr>st_phase := Recovery_required\<rparr> else st)"

definition retire_registration :: "'r db_state \<Rightarrow> 'r db_state" where
  "retire_registration st = st\<lparr>st_record := None, st_config := None, st_invalid_record := False,
     st_resources := None, st_snapshot := None\<rparr>"

definition end_unregister :: "unit result \<Rightarrow> 'r db_state \<Rightarrow> 'r db_state result" where
  "end_unregister r st = finish_operation r (st\<lparr>st_phase := (if is_ok r then Unregistered else Recovery_required)\<rparr>)"

text \<open>The shutdown retires a database that has no operation and no request.\<close>

definition retire_at_shutdown :: "'r db_state \<Rightarrow> 'r db_state" where
  "retire_at_shutdown st = st\<lparr>st_phase := Unregistered, st_resources := None, st_snapshot := None\<rparr>"


section \<open>Restoring a database\<close>

text \<open>The outcomes of the calls \<open>restore\<close> makes, in their order.\<close>

record 'r restore_calls =
  rc_read :: "ws_record result"
  rc_layout :: "unit result"
  rc_data :: "unit result"
  rc_resources :: "'r result"
  rc_snapshot :: "snapshot result"

definition restore ::
  "workspace_libs \<Rightarrow> (string \<Rightarrow> string option) \<Rightarrow> path \<Rightarrow> string \<Rightarrow> 'r restore_calls \<Rightarrow> 'r db_state
     \<Rightarrow> 'r db_state \<times> unit result" where
  "restore libs parse root name calls st =
     (case rc_read calls of
        Err e \<Rightarrow> (st\<lparr>st_invalid_record := True\<rparr>, Err e)
      | Panic \<Rightarrow> (st\<lparr>st_invalid_record := True\<rparr>, Err worker_failed)
      | Ok r \<Rightarrow>
          (case Configuration_from_record libs parse root name r of
             Err e \<Rightarrow> (st, Err e)
           | Panic \<Rightarrow> (st, Panic)
           | Ok config \<Rightarrow>
               let st = st\<lparr>st_record := Some r, st_config := Some config\<rparr> in
               (case and_then (rc_layout calls) (\<lambda>_. if is_turso_target config then rc_data calls else Ok ()) of
                  Err e \<Rightarrow> (st, Err e)
                | Panic \<Rightarrow> (st, Err worker_failed)
                | Ok _ \<Rightarrow>
                    (case rc_resources calls of
                       Err e \<Rightarrow> (st, Err e)
                     | Panic \<Rightarrow> (st, Err worker_failed)
                     | Ok resources \<Rightarrow>
                         let st = st\<lparr>st_resources := Some resources\<rparr> in
                         if wr_recovery r = No_recovery then
                           (case rc_snapshot calls of
                              Err e \<Rightarrow> (st, Err e)
                            | Panic \<Rightarrow> (st, Err worker_failed)
                            | Ok s \<Rightarrow> (st\<lparr>st_snapshot := Some s, st_phase := Ready\<rparr>, Ok ()))
                         else (st, Ok ())))))"

text \<open>One round of the loop of \<open>Registry::open\<close>.\<close>

definition open_database ::
  "workspace_libs \<Rightarrow> (string \<Rightarrow> string option) \<Rightarrow> path \<Rightarrow> string \<Rightarrow> 'r restore_calls \<Rightarrow> 'r db_state" where
  "open_database libs parse root name calls =
     (case restore libs parse root name calls Database_new of
        (st, Err e) \<Rightarrow> st\<lparr>st_error := Some e, st_phase := Recovery_required\<rparr>
      | (st, _) \<Rightarrow> st)"

end
