(* ===== verification/Publication.thy ===== *)
theory Publication
  imports Registry
begin

text \<open>
  The life of one registered database in \<^verbatim>\<open>src/registry.rs\<close> as a transition system: requests
  are admitted and released, operations are accepted, and the worker of an operation advances between
  the points where it holds the lock or has finished an awaited call. The outcome of every awaited call
  is arbitrary; what a crash may find on disk is kept as a set, as \<open>persist\<close> leaves it.
\<close>

section \<open>Workers\<close>

record 'r pub =
  pb_request :: publish_request
  pb_old_none :: bool
  pb_same_target :: bool
  pb_must_exist :: bool
  pb_old_resources :: "'r option"
  pb_candidate :: ws_record
  pb_config :: configuration
  pb_resources :: "'r option"
  pb_previous :: phase
  pb_plan :: plan
  pb_todo :: "migration_file list"
  pb_history :: "applied_migration list"
  pb_blocked :: "ws_record option"
  pb_snapshot :: "snapshot option"

text \<open>Where the worker of a publication is: the next thing it does.\<close>

datatype label =
    At_prepare | At_open | At_branch | At_drain | At_sync | At_persist | At_adopt | At_drop
  | At_preflight | At_plan | At_history | At_decide | At_drain_again | At_block | At_recheck
  | At_apply | At_applying | At_unblock | At_load | At_loading | At_final | At_complete | At_retire

datatype unregister_label = U_drain | U_remove | U_retire | U_drop

datatype 'r job =
    Idle
  | Starting publish_request
  | Publishing_at label "'r pub"
  | Publish_done "unit result"
  | Unregistering_at unregister_label
  | Unregister_done "unit result"

record 'r system =
  sy_db :: "'r db_state"
  sy_closed :: bool
  sy_disk :: "ws_record option set"
  sy_job :: "'r job"
  sy_lifetimes :: nat

text \<open>The outcomes of awaited calls; \<open>ef_removed\<close> is whether a failing removal had removed the file.\<close>

record 'r effects =
  ef_call :: "unit result"
  ef_resources :: "'r result"
  ef_persist :: "unit result"
  ef_removed :: bool
  ef_plan :: "plan result"
  ef_history :: "applied_migration list result"
  ef_budget :: "unit result"
  ef_snapshot :: "snapshot result"

record registry_libs =
  rg_workspace :: workspace_libs
  rg_parse :: "string \<Rightarrow> string option"
  rg_root :: path
  rg_name :: string

text \<open>A panic of a blocking call or of the worker is a failed worker.\<close>

definition task :: "'a result \<Rightarrow> 'a result" where
  "task r = (case r of Panic \<Rightarrow> Err worker_failed | _ \<Rightarrow> r)"

definition goto :: "label \<Rightarrow> 'r pub \<Rightarrow> 'r system \<Rightarrow> 'r system" where
  "goto l pb s = s\<lparr>sy_job := Publishing_at l pb\<rparr>"

definition stop :: "unit result \<Rightarrow> 'r system \<Rightarrow> 'r system" where
  "stop r s = s\<lparr>sy_job := Publish_done (task r)\<rparr>"

text \<open>Using the outcome of a call, and an update under the lock.\<close>

definition use :: "'a result \<Rightarrow> ('a \<Rightarrow> 'r system \<Rightarrow> 'r system) \<Rightarrow> 'r system \<Rightarrow> 'r system" where
  "use r k s = (case r of Ok x \<Rightarrow> k x s | Err e \<Rightarrow> stop (Err e) s | Panic \<Rightarrow> stop Panic s)"

definition locked :: "('r db_state \<Rightarrow> 'r db_state result) \<Rightarrow> ('r system \<Rightarrow> 'r system) \<Rightarrow> 'r system \<Rightarrow> 'r system" where
  "locked f k s = use (f (sy_db s)) (\<lambda>st s. k (s\<lparr>sy_db := st\<rparr>)) s"

definition disk_after :: "unit result \<Rightarrow> ws_record \<Rightarrow> ws_record option set \<Rightarrow> ws_record option set" where
  "disk_after r rec disk = (if is_ok r then {Some rec} else if commit_uncertain r then insert (Some rec) disk else disk)"

definition persisting ::
  "unit result \<Rightarrow> ws_record \<Rightarrow> ('r system \<Rightarrow> 'r system) \<Rightarrow> (sqlrest_error \<Rightarrow> 'r system \<Rightarrow> 'r system) \<Rightarrow> 'r system \<Rightarrow> 'r system" where
  "persisting r rec k fails s =
     (let r = task r; s = s\<lparr>sy_disk := disk_after r rec (sy_disk s), sy_db := note_persist r (sy_db s)\<rparr> in
      case r of Ok _ \<Rightarrow> k s | Err e \<Rightarrow> fails e s | Panic \<Rightarrow> stop Panic s)"

definition reopen :: "'r pub \<Rightarrow> sqlrest_error \<Rightarrow> 'r system \<Rightarrow> 'r system" where
  "reopen pb e s = stop (Err e) (s\<lparr>sy_db := restore_admission (pb_previous pb) (sy_db s)\<rparr>)"

definition closing :: "label \<Rightarrow> 'r pub \<Rightarrow> 'r system \<Rightarrow> 'r system" where
  "closing l pb s =
     use (close_admission (sy_db s)) (\<lambda>(previous, st) s. goto l (pb\<lparr>pb_previous := previous\<rparr>) (s\<lparr>sy_db := st\<rparr>)) s"

text \<open>The first block of \<open>run_publish\<close>.\<close>

definition start_publish :: "registry_libs \<Rightarrow> publish_request \<Rightarrow> 'r system \<Rightarrow> 'r system" where
  "start_publish libs req s =
     (let st = sy_db s; old = st_record st;
          database = (case pr_database req of Some d \<Rightarrow> Some d | None \<Rightarrow> map_option wr_database old) in
      use (ok_or (definition_error ''Database configuration required'') database) (\<lambda>d.
      let candidate = \<lparr>wr_database = d, wr_recovery = Reload_recovery, wr_limits = pr_limits req\<rparr> in
      use (Configuration_from_record (rg_workspace libs) (rg_parse libs) (rg_root libs) (rg_name libs) candidate) (\<lambda>config.
      goto At_prepare
        \<lparr>pb_request = req, pb_old_none = (old = None),
         pb_same_target = (case st_config st of Some c \<Rightarrow> cf_target c = cf_target config | None \<Rightarrow> False),
         pb_must_exist = (map_option wr_database old = Some Turso_config \<and> d = Turso_config),
         pb_old_resources = st_resources st, pb_candidate = candidate, pb_config = config, pb_resources = None,
         pb_previous = st_phase st, pb_plan = [], pb_todo = [], pb_history = [], pb_blocked = None, pb_snapshot = None\<rparr>)) s)"

definition set_recovery :: "recovery \<Rightarrow> ws_record \<Rightarrow> ws_record" where
  "set_recovery r rec = rec\<lparr>wr_recovery := r\<rparr>"

definition fail_migration :: "int \<Rightarrow> sqlrest_error \<Rightarrow> 'r system \<Rightarrow> 'r system" where
  "fail_migration v e =
     locked (update_progress (\<lambda>p. p\<lparr>pp_failed_version := Some v, pp_current_version := None\<rparr>)) (stop (Err e))"

text \<open>
  One step of \<open>run_publish\<close> from a label on; \<open>None\<close> when the worker waits for requests to drain.
\<close>

definition publish_step ::
  "registry_libs \<Rightarrow> 'r effects \<Rightarrow> label \<Rightarrow> 'r pub \<Rightarrow> 'r system \<Rightarrow> 'r system option" where
  "publish_step libs ef l pb s =
     (case l of
        At_prepare \<Rightarrow> Some (use (ef_call ef) (\<lambda>_. goto At_open pb) s)
      | At_open \<Rightarrow>
          Some (use (case pb_old_resources pb of
              Some r \<Rightarrow> if pb_same_target pb then Ok r else ef_resources ef
            | None \<Rightarrow> ef_resources ef) (\<lambda>r. goto At_branch (pb\<lparr>pb_resources := Some r\<rparr>)) s)
      | At_branch \<Rightarrow>
          Some (if \<not> pb_same_target pb \<or> pb_old_none pb then closing At_drain pb s
                else goto At_preflight pb (s\<lparr>sy_db := (sy_db s)\<lparr>st_resources := pb_resources pb\<rparr>\<rparr>))
      | At_drain \<Rightarrow> if st_active (sy_db s) = 0 then Some (goto At_sync pb s) else None
      | At_sync \<Rightarrow>
          Some (case (if is_turso_target (pb_config pb) then task (ef_call ef) else Ok ()) of
              Ok _ \<Rightarrow> goto At_persist pb s
            | Err e \<Rightarrow> reopen pb e s
            | Panic \<Rightarrow> stop Panic s)
      | At_persist \<Rightarrow> Some (persisting (ef_persist ef) (pb_candidate pb) (goto At_adopt pb) (reopen pb) s)
      | At_adopt \<Rightarrow>
          Some (use (unwrap (pb_resources pb)) (\<lambda>r s.
            goto At_drop pb (s\<lparr>sy_db := adopt (pb_config pb) (pb_candidate pb) r (sy_db s)\<rparr>)) s)
      | At_drop \<Rightarrow> Some (use (ef_call ef) (\<lambda>_. goto At_preflight pb) s)
      | At_preflight \<Rightarrow> Some (locked (update_progress (\<lambda>p. p\<lparr>pp_step := Preflight\<rparr>)) (goto At_plan pb) s)
      | At_plan \<Rightarrow>
          Some (use (ef_plan ef) (\<lambda>plan.
            use (duration (rg_workspace libs) (pr_migration_timeout_ms (pb_request pb))) (\<lambda>_.
            goto At_history (pb\<lparr>pb_plan := plan\<rparr>))) s)
      | At_history \<Rightarrow>
          Some (use (ef_history ef) (\<lambda>history.
            use (into_pending (pb_plan pb) history) (\<lambda>todo.
            goto At_decide (pb\<lparr>pb_todo := todo, pb_history := history\<rparr>))) s)
      | At_decide \<Rightarrow>
          Some (if pb_todo pb \<noteq> [] \<or> map_option wr_recovery (st_record (sy_db s)) = Some Migration_recovery
                then use (ef_budget ef) (\<lambda>_. closing At_drain_again pb) s
                else goto At_load pb s)
      | At_drain_again \<Rightarrow>
          if st_active (sy_db s) = 0 then
            Some (use (unwrap (st_record (sy_db s))) (\<lambda>rec.
              goto At_block (pb\<lparr>pb_blocked := Some (set_recovery Migration_recovery rec)\<rparr>)) s)
          else None
      | At_block \<Rightarrow>
          Some (use (unwrap (pb_blocked pb)) (\<lambda>rec.
            persisting (ef_persist ef) rec
              (\<lambda>s. goto At_recheck pb (s\<lparr>sy_db := (sy_db s)\<lparr>st_record := Some rec\<rparr>\<rparr>)) (reopen pb)) s)
      | At_recheck \<Rightarrow>
          Some (use (ef_budget ef) (\<lambda>_.
            use (ef_history ef) (\<lambda>history.
            if history \<noteq> pb_history pb then stop (Err history_changed) else goto At_apply pb)) s)
      | At_apply \<Rightarrow>
          Some (case pb_todo pb of
              [] \<Rightarrow> goto At_unblock (pb\<lparr>pb_blocked := map_option (set_recovery Reload_recovery) (pb_blocked pb)\<rparr>) s
            | f # _ \<Rightarrow>
                locked (update_progress (\<lambda>p. p\<lparr>pp_step := Applying, pp_current_version := Some (am_version (mf_record f))\<rparr>))
                  (\<lambda>s. case ef_budget ef of
                     Ok _ \<Rightarrow> goto At_applying pb s
                   | Err e \<Rightarrow> fail_migration (am_version (mf_record f)) e s
                   | Panic \<Rightarrow> stop Panic s) s)
      | At_applying \<Rightarrow>
          Some (case pb_todo pb of
              [] \<Rightarrow> stop Panic s
            | f # rest \<Rightarrow>
                (case ef_call ef of
                   Ok _ \<Rightarrow>
                     locked (update_progress (\<lambda>p. p\<lparr>pp_applied_versions := pp_applied_versions p @ [am_version (mf_record f)],
                         pp_current_version := None\<rparr>)) (goto At_apply (pb\<lparr>pb_todo := rest\<rparr>)) s
                 | Err e \<Rightarrow> fail_migration (am_version (mf_record f)) e s
                 | Panic \<Rightarrow> stop Panic s))
      | At_unblock \<Rightarrow>
          Some (use (unwrap (pb_blocked pb)) (\<lambda>rec.
            persisting (ef_persist ef) rec
              (\<lambda>s. goto At_load pb (s\<lparr>sy_db := (sy_db s)\<lparr>st_record := Some rec\<rparr>\<rparr>)) (\<lambda>e. stop (Err e))) s)
      | At_load \<Rightarrow> Some (locked (update_progress (\<lambda>p. p\<lparr>pp_step := Loading\<rparr>)) (goto At_loading pb) s)
      | At_loading \<Rightarrow>
          Some (use (ef_snapshot ef) (\<lambda>sn. goto At_final (pb\<lparr>pb_snapshot := Some sn,
            pb_candidate := set_recovery No_recovery (pb_candidate pb)\<rparr>)) s)
      | At_final \<Rightarrow> Some (persisting (ef_persist ef) (pb_candidate pb) (goto At_complete pb) (\<lambda>e. stop (Err e)) s)
      | At_complete \<Rightarrow>
          Some (use (unwrap (pb_resources pb)) (\<lambda>r.
            use (unwrap (pb_snapshot pb)) (\<lambda>sn.
            locked (complete_publish (pb_candidate pb) (pb_config pb) r sn) (goto At_retire pb))) s)
      | At_retire \<Rightarrow> Some (stop (ef_call ef) s))"

text \<open>The worker of an unregistration.\<close>

definition unregister_step :: "'r effects \<Rightarrow> unregister_label \<Rightarrow> 'r system \<Rightarrow> 'r system option" where
  "unregister_step ef u s =
     (case u of
        U_drain \<Rightarrow> if st_active (sy_db s) = 0 then Some (s\<lparr>sy_job := Unregistering_at U_remove\<rparr>) else None
      | U_remove \<Rightarrow>
          Some (case task (ef_call ef) of
              Ok _ \<Rightarrow> s\<lparr>sy_disk := {None}, sy_job := Unregistering_at U_retire\<rparr>
            | r \<Rightarrow> s\<lparr>sy_disk := (if ef_removed ef then insert None (sy_disk s) else sy_disk s), sy_job := Unregister_done r\<rparr>)
      | U_retire \<Rightarrow> Some (s\<lparr>sy_db := retire_registration (sy_db s), sy_job := Unregistering_at U_drop\<rparr>)
      | U_drop \<Rightarrow> Some (s\<lparr>sy_job := Unregister_done (task (ef_call ef))\<rparr>))"

definition job_step :: "registry_libs \<Rightarrow> 'r effects \<Rightarrow> 'r system \<Rightarrow> 'r system option" where
  "job_step libs ef s =
     (case sy_job s of
        Idle \<Rightarrow> None
      | Starting req \<Rightarrow> Some (start_publish libs req s)
      | Publishing_at l pb \<Rightarrow> publish_step libs ef l pb s
      | Publish_done r \<Rightarrow>
          (case end_publish r (sy_db s) of Ok st \<Rightarrow> Some (s\<lparr>sy_db := st, sy_job := Idle\<rparr>) | _ \<Rightarrow> None)
      | Unregistering_at u \<Rightarrow> unregister_step ef u s
      | Unregister_done r \<Rightarrow>
          (case end_unregister r (sy_db s) of Ok st \<Rightarrow> Some (s\<lparr>sy_db := st, sy_job := Idle\<rparr>) | _ \<Rightarrow> None))"


section \<open>The transition system\<close>

definition reading :: "'r restore_calls \<Rightarrow> ws_record option \<Rightarrow> bool" where
  "reading calls d \<longleftrightarrow> (case rc_read calls of Ok r \<Rightarrow> d = Some r | _ \<Rightarrow> True)"

text \<open>A database without a file \<^verbatim>\<open>database.toml\<close> is not an entry of the registry.\<close>

definition started :: "registry_libs \<Rightarrow> 'r restore_calls \<Rightarrow> ws_record option \<Rightarrow> 'r system" where
  "started libs calls d = \<lparr>sy_db =
       (case d of
          Some _ \<Rightarrow> open_database (rg_workspace libs) (rg_parse libs) (rg_root libs) (rg_name libs) calls
        | None \<Rightarrow> Database_new),
     sy_closed = False, sy_disk = {d}, sy_job = Idle, sy_lifetimes = 0\<rparr>"

definition initial :: "registry_libs \<Rightarrow> 'r system \<Rightarrow> bool" where
  "initial libs s \<longleftrightarrow> (\<exists>calls d. reading calls d \<and> s = started libs calls d)"

text \<open>What a client, the holder of a lifetime and the worker do to a database.\<close>

inductive db_step :: "registry_libs \<Rightarrow> 'r system \<Rightarrow> 'r system \<Rightarrow> bool" for libs where
  admit_request: "admit (sy_closed s) (sy_db s) meth segs = Ok (ad, st) \<Longrightarrow>
     db_step libs s (s\<lparr>sy_db := st, sy_lifetimes := sy_lifetimes s + 1\<rparr>)"
| export_history: "begin_export (sy_closed s) (sy_db s) = Ok (ex, st) \<Longrightarrow>
     db_step libs s (s\<lparr>sy_db := st, sy_lifetimes := sy_lifetimes s + 1\<rparr>)"
| release_request: "0 < sy_lifetimes s \<Longrightarrow> release (sy_db s) = Ok st \<Longrightarrow>
     db_step libs s (s\<lparr>sy_db := st, sy_lifetimes := sy_lifetimes s - 1\<rparr>)"
| publish: "accept_publish (rg_workspace libs) (sy_closed s) v (rg_name libs) req (Some (sy_db s)) = Ok st \<Longrightarrow>
     db_step libs s (s\<lparr>sy_db := st, sy_job := Starting req\<rparr>)"
| unregister: "accept_unregister (sy_closed s) v (sy_db s) = Ok st \<Longrightarrow>
     db_step libs s (s\<lparr>sy_db := st, sy_job := Unregistering_at U_drain\<rparr>)"
| work: "job_step libs ef s = Some s' \<Longrightarrow> db_step libs s s'"

text \<open>Its environment closes the registry, retires the database at shutdown, or crashes and restarts.\<close>

inductive system_step :: "registry_libs \<Rightarrow> 'r system \<Rightarrow> 'r system \<Rightarrow> bool" for libs where
  db: "db_step libs s s' \<Longrightarrow> system_step libs s s'"
| close: "system_step libs s (s\<lparr>sy_closed := True\<rparr>)"
| retire: "sy_closed s \<Longrightarrow> st_current (sy_db s) = None \<Longrightarrow> st_active (sy_db s) = 0 \<Longrightarrow>
     system_step libs s (s\<lparr>sy_db := retire_at_shutdown (sy_db s)\<rparr>)"
| restart: "d \<in> sy_disk s \<Longrightarrow> reading calls d \<Longrightarrow> system_step libs s (started libs calls d)"

lemmas system_db_steps = db_step.intros[THEN system_step.db]

end
