(* ===== verification/Publication_Safety.thy ===== *)
theory Publication_Safety
  imports Publication
begin

text \<open>
  The invariant of the transition system of \<open>Publication\<close>, proved for every label of a worker and every
  action of its environment, and the progress of a worker: it ends after finitely many steps of its
  own, and waits for admitted requests only.
\<close>

section \<open>The invariant\<close>

definition ready_record :: "ws_record option \<Rightarrow> bool" where
  "ready_record d \<longleftrightarrow> (case d of Some r \<Rightarrow> wr_recovery r = No_recovery | None \<Rightarrow> False)"

definition migrating_record :: "ws_record option \<Rightarrow> bool" where
  "migrating_record d \<longleftrightarrow> (case d of Some r \<Rightarrow> wr_recovery r = Migration_recovery | None \<Rightarrow> False)"

text \<open>Everything a request needs is there, and whatever a crash leaves on disk asks for no recovery.\<close>

definition serving :: "'r system \<Rightarrow> bool" where
  "serving s \<longleftrightarrow> st_snapshot (sy_db s) \<noteq> None \<and> st_resources (sy_db s) \<noteq> None \<and> st_config (sy_db s) \<noteq> None
     \<and> st_record (sy_db s) \<noteq> None \<and> (\<forall>d \<in> sy_disk s. ready_record d)"

definition common :: "'r system \<Rightarrow> bool" where
  "common s \<longleftrightarrow> st_active (sy_db s) = sy_lifetimes s \<and> (st_phase (sy_db s) = Ready \<longrightarrow> serving s)"

definition publish_op :: "'r db_state \<Rightarrow> bool" where
  "publish_op st \<longleftrightarrow> (\<exists>op. st_current st = Some op \<and> op_publish op \<noteq> None)"

definition closed_labels :: "label set" where
  "closed_labels = {At_drain, At_sync, At_persist, At_adopt, At_drop, At_drain_again, At_block, At_recheck, At_apply,
     At_applying, At_unblock}"

definition restoring_labels :: "label set" where
  "restoring_labels = {At_drain, At_sync, At_persist, At_drain_again, At_block}"

definition blocked_labels :: "label set" where
  "blocked_labels = {At_recheck, At_apply, At_applying, At_unblock}"

definition publishing :: "'r system \<Rightarrow> bool" where
  "publishing s \<longleftrightarrow> common s \<and> publish_op (sy_db s) \<and> st_phase (sy_db s) \<noteq> Unregistering"

text \<open>What holds where a publication is.\<close>

definition reservation :: "label \<Rightarrow> 'r pub \<Rightarrow> 'r system \<Rightarrow> bool" where
  "reservation l pb s \<longleftrightarrow>
     (l \<in> closed_labels \<longrightarrow> st_phase (sy_db s) = Publishing) \<and>
     (st_phase (sy_db s) = Publishing \<longrightarrow> l \<noteq> At_drain \<longrightarrow> l \<noteq> At_drain_again \<longrightarrow> st_active (sy_db s) = 0) \<and>
     (l \<in> restoring_labels \<longrightarrow> pb_previous pb = Ready \<longrightarrow> serving s) \<and> pb_previous pb \<noteq> Unregistering \<and>
     (l = At_retire \<longrightarrow> st_phase (sy_db s) = Ready)"

definition records :: "label \<Rightarrow> 'r pub \<Rightarrow> 'r system \<Rightarrow> bool" where
  "records l pb s \<longleftrightarrow>
     (l \<in> blocked_labels \<longrightarrow> (\<forall>d \<in> sy_disk s. migrating_record d)) \<and>
     (l \<in> blocked_labels \<or> l = At_block \<longrightarrow> pb_blocked pb \<noteq> None) \<and>
     (l = At_block \<longrightarrow> migrating_record (pb_blocked pb)) \<and>
     (l \<in> {At_prepare, At_open, At_branch} \<longrightarrow> (pb_old_none pb \<longleftrightarrow> st_record (sy_db s) = None)) \<and>
     (l \<notin> {At_prepare, At_open, At_branch, At_drain, At_sync, At_persist, At_adopt} \<longrightarrow> st_record (sy_db s) \<noteq> None) \<and>
     (l = At_final \<or> l = At_complete \<longrightarrow> ready_record (Some (pb_candidate pb)) \<and> pb_snapshot pb \<noteq> None) \<and>
     (l = At_complete \<longrightarrow> sy_disk s = {Some (pb_candidate pb)}) \<and>
     (l \<notin> {At_prepare, At_open} \<longrightarrow> pb_resources pb \<noteq> None) \<and>
     (l = At_applying \<longrightarrow> pb_todo pb \<noteq> [])"

definition system_inv :: "'r system \<Rightarrow> bool" where
  "system_inv s \<longleftrightarrow> common s \<and>
     (case sy_job s of
        Idle \<Rightarrow> st_current (sy_db s) = None \<and> st_phase (sy_db s) \<noteq> Publishing \<and> st_phase (sy_db s) \<noteq> Unregistering
      | Starting req \<Rightarrow> publish_op (sy_db s) \<and> \<not> st_invalid_record (sy_db s)
          \<and> st_phase (sy_db s) \<noteq> Publishing \<and> st_phase (sy_db s) \<noteq> Unregistering
      | Publishing_at l pb \<Rightarrow> publish_op (sy_db s) \<and> \<not> st_invalid_record (sy_db s) \<and> st_phase (sy_db s) \<noteq> Unregistering
          \<and> reservation l pb s \<and> records l pb s
      | Publish_done r \<Rightarrow> publish_op (sy_db s) \<and> st_phase (sy_db s) \<noteq> Unregistering \<and> r \<noteq> Panic
          \<and> (is_ok r \<longrightarrow> st_phase (sy_db s) = Ready)
      | Unregistering_at u \<Rightarrow> st_current (sy_db s) \<noteq> None \<and> st_phase (sy_db s) = Unregistering
          \<and> (u \<noteq> U_drain \<longrightarrow> st_active (sy_db s) = 0)
      | Unregister_done r \<Rightarrow> st_current (sy_db s) \<noteq> None \<and> st_phase (sy_db s) = Unregistering)"

lemmas label_sets = closed_labels_def restoring_labels_def blocked_labels_def

lemma update_progress_ok:
  assumes "publish_op st"
  obtains op where "update_progress f st = Ok (st\<lparr>st_current := Some op\<rparr>)" "op_publish op \<noteq> None"
  using assms by (auto simp: publish_op_def update_progress_def)

text \<open>Stopping, going on, and the combinators keep the invariant.\<close>

lemma inv_stop:
  "publishing s \<Longrightarrow> (is_ok r \<Longrightarrow> st_phase (sy_db s) = Ready) \<Longrightarrow> system_inv (stop r s)"
  by (cases r) (simp_all add: publishing_def stop_def task_def system_inv_def common_def serving_def)

lemma inv_goto:
  "publishing s \<Longrightarrow> \<not> st_invalid_record (sy_db s) \<Longrightarrow> reservation l pb s \<Longrightarrow> records l pb s \<Longrightarrow> system_inv (goto l pb s)"
  by (simp add: publishing_def goto_def system_inv_def common_def serving_def reservation_def records_def)

lemma inv_use:
  assumes "publishing s" and "\<And>x. r = Ok x \<Longrightarrow> system_inv (k x s)"
  shows "system_inv (use r k s)"
  using assms by (cases r) (auto simp: use_def intro: inv_stop)

lemma inv_locked:
  assumes "publishing s" and "\<And>op. op_publish op \<noteq> None \<Longrightarrow> system_inv (k (s\<lparr>sy_db := (sy_db s)\<lparr>st_current := Some op\<rparr>\<rparr>))"
  shows "system_inv (locked (update_progress f) k s)"
proof -
  have "publish_op (sy_db s)" using assms(1) by (simp add: publishing_def)
  then obtain op where "update_progress f (sy_db s) = Ok ((sy_db s)\<lparr>st_current := Some op\<rparr>)" "op_publish op \<noteq> None"
    by (rule update_progress_ok)
  then show ?thesis using assms(2) by (simp add: locked_def use_def)
qed

lemma publish_op_simps [simp]:
  "publish_op (st\<lparr>st_current := Some op\<rparr>) \<longleftrightarrow> op_publish op \<noteq> None"
  "publish_op (st\<lparr>st_phase := p\<rparr>) = publish_op st" "publish_op (st\<lparr>st_invalid_record := b\<rparr>) = publish_op st"
  "publish_op (st\<lparr>st_config := c\<rparr>) = publish_op st" "publish_op (st\<lparr>st_record := x\<rparr>) = publish_op st"
  "publish_op (st\<lparr>st_resources := y\<rparr>) = publish_op st" "publish_op (st\<lparr>st_snapshot := sn\<rparr>) = publish_op st"
  "publish_op (st\<lparr>st_active := n\<rparr>) = publish_op st" "publish_op (st\<lparr>st_error := e\<rparr>) = publish_op st"
  by (auto simp: publish_op_def)

lemma publishing_current [simp]:
  "op_publish op \<noteq> None \<Longrightarrow> publishing (s\<lparr>sy_db := (sy_db s)\<lparr>st_current := Some op\<rparr>\<rparr>) \<longleftrightarrow> common s \<and> st_phase (sy_db s) \<noteq> Unregistering"
  by (auto simp: publishing_def common_def serving_def publish_op_def)

lemma reservation_current [simp]:
  "reservation l pb (s\<lparr>sy_db := (sy_db s)\<lparr>st_current := c\<rparr>\<rparr>) = reservation l pb s"
  "records l pb (s\<lparr>sy_db := (sy_db s)\<lparr>st_current := c\<rparr>\<rparr>) = records l pb s"
  by (simp_all add: reservation_def records_def serving_def)


lemma inv_reopen:
  assumes "publishing s" and "\<not> st_invalid_record (sy_db s) \<Longrightarrow> st_phase (sy_db s) = Publishing \<Longrightarrow>
      (pb_previous pb = Ready \<longrightarrow> serving s) \<and> pb_previous pb \<noteq> Unregistering"
  shows "system_inv (reopen pb e s)"
  unfolding reopen_def
  by (rule inv_stop) (use assms in \<open>auto simp: publishing_def restore_admission_def common_def serving_def publish_op_def\<close>)

lemma inv_persisting:
  assumes s: "publishing s" and ok: "system_inv (k (s\<lparr>sy_disk := {Some rec}\<rparr>))"
    and fails: "\<And>e. system_inv (fails e s)"
    and lost: "\<And>e D. system_inv (fails e (s\<lparr>sy_disk := D, sy_db := (sy_db s)\<lparr>st_phase := Recovery_required, st_invalid_record := True\<rparr>\<rparr>))"
  shows "system_inv (persisting r rec k fails s)"
proof (cases "task r")
  case (Ok u)
  then show ?thesis using ok by (simp add: persisting_def disk_after_def note_persist_def commit_uncertain_def)
next
  case (Err e)
  then show ?thesis using fails[of e] lost[of e]
    by (cases "err_code e = ''workspace_commit_uncertain''")
      (simp_all add: persisting_def disk_after_def note_persist_def commit_uncertain_def)
next
  case Panic
  then show ?thesis by (cases r) (simp_all add: task_def)
qed

lemma publishing_lost [simp]:
  "publishing (s\<lparr>sy_disk := D, sy_db := (sy_db s)\<lparr>st_phase := Recovery_required, st_invalid_record := True\<rparr>\<rparr>)
     \<longleftrightarrow> st_active (sy_db s) = sy_lifetimes s \<and> publish_op (sy_db s)"
  by (simp add: publishing_def common_def publish_op_def)

lemma inv_fails_lost:
  assumes "publishing s"
  shows "system_inv (stop (Err e) (s\<lparr>sy_disk := D, sy_db := (sy_db s)\<lparr>st_phase := Recovery_required, st_invalid_record := True\<rparr>\<rparr>))"
    and "system_inv (reopen pb e (s\<lparr>sy_disk := D, sy_db := (sy_db s)\<lparr>st_phase := Recovery_required, st_invalid_record := True\<rparr>\<rparr>))"
proof -
  have p: "st_active (sy_db s) = sy_lifetimes s" "publish_op (sy_db s)" using assms by (simp_all add: publishing_def common_def)
  show "system_inv (stop (Err e) (s\<lparr>sy_disk := D, sy_db := (sy_db s)\<lparr>st_phase := Recovery_required, st_invalid_record := True\<rparr>\<rparr>))"
    by (rule inv_stop) (use p in simp_all)
  show "system_inv (reopen pb e (s\<lparr>sy_disk := D, sy_db := (sy_db s)\<lparr>st_phase := Recovery_required, st_invalid_record := True\<rparr>\<rparr>))"
    by (rule inv_reopen) (use p in simp_all)
qed

lemma inv_closing:
  assumes s: "publishing s" and go: "\<And>op. op_publish op \<noteq> None \<Longrightarrow>
      system_inv (goto l (pb\<lparr>pb_previous := st_phase (sy_db s)\<rparr>)
        (s\<lparr>sy_db := (sy_db s)\<lparr>st_phase := Publishing, st_current := Some op\<rparr>\<rparr>))"
  shows "system_inv (closing l pb s)"
proof -
  have "publish_op ((sy_db s)\<lparr>st_phase := Publishing\<rparr>)" using s by (simp add: publishing_def publish_op_def)
  then obtain op where "update_progress (\<lambda>p. p\<lparr>pp_step := Draining\<rparr>) ((sy_db s)\<lparr>st_phase := Publishing\<rparr>)
      = Ok ((sy_db s)\<lparr>st_phase := Publishing, st_current := Some op\<rparr>)" "op_publish op \<noteq> None"
    by (rule update_progress_ok) simp
  then show ?thesis using go by (simp add: closing_def close_admission_def use_def)
qed

lemma inv_fail_migration: "publishing s \<Longrightarrow> system_inv (fail_migration v e s)"
  unfolding fail_migration_def
  by (rule inv_locked) (auto intro!: inv_stop simp: publishing_def common_def serving_def)

text \<open>The state of a publication as the rules need it.\<close>

lemma at_publishing:
  assumes "system_inv s" and "sy_job s = Publishing_at l pb"
  shows "publishing s" "\<not> st_invalid_record (sy_db s)" "reservation l pb s" "records l pb s"
  using assms by (simp_all add: system_inv_def publishing_def)

lemmas at_defs = reservation_def records_def label_sets publishing_def common_def serving_def

lemma start_publish_inv:
  assumes "system_inv s" and "sy_job s = Starting req"
  shows "system_inv (start_publish libs req s)"
proof -
  have s: "publishing s" "\<not> st_invalid_record (sy_db s)" "st_phase (sy_db s) \<noteq> Publishing"
    using assms by (simp_all add: system_inv_def publishing_def)
  show ?thesis unfolding start_publish_def Let_def
    by (intro inv_use inv_goto s) (use s in \<open>auto simp: at_defs\<close>)
qed

lemma step_going_on:
  assumes s: "publishing s" "\<not> st_invalid_record (sy_db s)" "reservation l pb s" "records l pb s"
  and l: "l \<in> {At_prepare, At_open, At_adopt, At_drop, At_plan, At_history, At_loading}"
  and step: "publish_step libs ef l pb s = Some s'"
  shows "system_inv s'"
proof (cases l)
  case At_prepare
  then have s': "s' = use (ef_call ef) (\<lambda>_. goto At_open pb) s" using step by (simp add: publish_step_def)
  show ?thesis unfolding s' by (intro inv_use inv_goto s) (use s At_prepare in \<open>auto simp: at_defs\<close>)
next
  case At_open
  show ?thesis using step unfolding At_open publish_step_def label.case option.inject
    by (elim subst) (intro inv_use inv_goto s; use s At_open in \<open>auto simp: at_defs\<close>)
next
  case At_adopt
  show ?thesis using step unfolding At_adopt publish_step_def label.case option.inject
    by (elim subst) (intro inv_use inv_goto s; use s At_adopt in \<open>auto simp: at_defs adopt_def publish_op_def\<close>)
next
  case At_drop
  show ?thesis using step unfolding At_drop publish_step_def label.case option.inject
    by (elim subst) (intro inv_use inv_goto s; use s At_drop in \<open>auto simp: at_defs\<close>)
next
  case At_plan
  show ?thesis using step unfolding At_plan publish_step_def label.case option.inject
    by (elim subst) (intro inv_use inv_goto s; use s At_plan in \<open>auto simp: at_defs\<close>)
next
  case At_history
  show ?thesis using step unfolding At_history publish_step_def label.case option.inject
    by (elim subst) (intro inv_use inv_goto s; use s At_history in \<open>auto simp: at_defs\<close>)
next
  case At_loading
  show ?thesis using step unfolding At_loading publish_step_def label.case option.inject
    by (elim subst) (intro inv_use inv_goto s; use s At_loading in \<open>auto simp: at_defs ready_record_def set_recovery_def\<close>)
qed (use l in simp_all)

lemma step_branch:
  assumes s: "publishing s" "\<not> st_invalid_record (sy_db s)" "reservation At_branch pb s" "records At_branch pb s"
    and step: "publish_step libs ef At_branch pb s = Some s'"
  shows "system_inv s'"
proof -
  have c: "system_inv (closing At_drain pb s)"
    by (rule inv_closing[OF s(1)], rule inv_goto) (use s in \<open>auto simp: at_defs publish_op_def\<close>)
  have g: "system_inv (goto At_preflight pb (s\<lparr>sy_db := (sy_db s)\<lparr>st_resources := pb_resources pb\<rparr>\<rparr>))"
    if "\<not> pb_old_none pb"
    by (rule inv_goto) (use s that in \<open>auto simp: at_defs publish_op_def\<close>)
  show ?thesis using step c g unfolding publish_step_def by (auto split: if_splits)
qed

lemma step_drain:
  assumes s: "publishing s" "\<not> st_invalid_record (sy_db s)" "reservation At_drain pb s" "records At_drain pb s"
    and step: "publish_step libs ef At_drain pb s = Some s'"
  shows "system_inv s'"
proof -
  have "s' = goto At_sync pb s" "st_active (sy_db s) = 0" using step by (auto simp: publish_step_def split: if_splits)
  then show ?thesis by (auto intro!: inv_goto s) (use s in \<open>auto simp: at_defs\<close>)
qed

lemma step_sync:
  assumes s: "publishing s" "\<not> st_invalid_record (sy_db s)" "reservation At_sync pb s" "records At_sync pb s"
    and step: "publish_step libs ef At_sync pb s = Some s'"
  shows "system_inv s'"
proof -
  have r: "system_inv (reopen pb e s)" for e by (rule inv_reopen[OF s(1)]) (use s in \<open>auto simp: at_defs\<close>)
  have g: "system_inv (goto At_persist pb s)" by (intro inv_goto s) (use s in \<open>auto simp: at_defs\<close>)
  have p: "system_inv (stop Panic s)" by (rule inv_stop[OF s(1)]) simp
  show ?thesis using step r g p unfolding publish_step_def by (auto split: outcome.splits)
qed

lemma step_persist:
  assumes s: "publishing s" "\<not> st_invalid_record (sy_db s)" "reservation At_persist pb s" "records At_persist pb s"
    and step: "publish_step libs ef At_persist pb s = Some s'"
  shows "system_inv s'"
proof -
  have "system_inv (persisting (ef_persist ef) (pb_candidate pb) (goto At_adopt pb) (reopen pb) s)"
  proof (rule inv_persisting[OF s(1)])
    show "system_inv (goto At_adopt pb (s\<lparr>sy_disk := {Some (pb_candidate pb)}\<rparr>))"
      by (rule inv_goto) (use s in \<open>auto simp: at_defs\<close>)
    show "system_inv (reopen pb e s)" for e by (rule inv_reopen[OF s(1)]) (use s in \<open>auto simp: at_defs\<close>)
  qed (rule inv_fails_lost[OF s(1)])
  then show ?thesis using step by (simp add: publish_step_def)
qed

lemma step_preflight:
  assumes s: "publishing s" "\<not> st_invalid_record (sy_db s)" "reservation At_preflight pb s" "records At_preflight pb s"
    and step: "publish_step libs ef At_preflight pb s = Some s'"
  shows "system_inv s'"
proof -
  have "system_inv (locked (update_progress (\<lambda>p. p\<lparr>pp_step := Preflight\<rparr>)) (goto At_plan pb) s)"
    by (rule inv_locked[OF s(1)], rule inv_goto) (use s in \<open>auto simp: at_defs\<close>)
  then show ?thesis using step by (simp add: publish_step_def)
qed

lemma step_decide:
  assumes s: "publishing s" "\<not> st_invalid_record (sy_db s)" "reservation At_decide pb s" "records At_decide pb s"
    and step: "publish_step libs ef At_decide pb s = Some s'"
  shows "system_inv s'"
proof -
  have g: "system_inv (goto At_load pb s)" by (intro inv_goto s) (use s in \<open>auto simp: at_defs\<close>)
  have c: "system_inv (closing At_drain_again pb s)"
    by (rule inv_closing[OF s(1)], rule inv_goto) (use s in \<open>auto simp: at_defs publish_op_def\<close>)
  have u: "system_inv (use (ef_budget ef) (\<lambda>_. closing At_drain_again pb) s)" by (intro inv_use s c)
  show ?thesis using step g u unfolding publish_step_def by (auto split: if_splits)
qed

lemma step_drain_again:
  assumes s: "publishing s" "\<not> st_invalid_record (sy_db s)" "reservation At_drain_again pb s" "records At_drain_again pb s"
    and step: "publish_step libs ef At_drain_again pb s = Some s'"
  shows "system_inv s'"
proof -
  have act: "st_active (sy_db s) = 0" using step by (auto simp: publish_step_def split: if_splits)
  have "system_inv (use (unwrap (st_record (sy_db s))) (\<lambda>rec. goto At_block (pb\<lparr>pb_blocked := Some (set_recovery Migration_recovery rec)\<rparr>)) s)"
    by (intro inv_use inv_goto s) (use s act in \<open>auto simp: at_defs migrating_record_def set_recovery_def\<close>)
  then show ?thesis using step act by (simp add: publish_step_def)
qed

lemma step_block:
  assumes s: "publishing s" "\<not> st_invalid_record (sy_db s)" "reservation At_block pb s" "records At_block pb s"
    and step: "publish_step libs ef At_block pb s = Some s'"
  shows "system_inv s'"
proof -
  have "system_inv (use (unwrap (pb_blocked pb)) (\<lambda>rec. persisting (ef_persist ef) rec
            (\<lambda>s. goto At_recheck pb (s\<lparr>sy_db := (sy_db s)\<lparr>st_record := Some rec\<rparr>\<rparr>)) (reopen pb)) s)"
  proof (rule inv_use[OF s(1)], rule inv_persisting[OF s(1)])
    fix rec assume "unwrap (pb_blocked pb) = Ok rec"
    then show "system_inv (goto At_recheck pb (s\<lparr>sy_disk := {Some rec}, sy_db := (sy_db (s\<lparr>sy_disk := {Some rec}\<rparr>))\<lparr>st_record := Some rec\<rparr>\<rparr>))"
      by (intro inv_goto) (use s in \<open>auto simp: at_defs publish_op_def outcome_simps\<close>)
    show "system_inv (reopen pb e s)" for e by (rule inv_reopen[OF s(1)]) (use s in \<open>auto simp: at_defs\<close>)
  qed (rule inv_fails_lost[OF s(1)])
  then show ?thesis using step by (simp add: publish_step_def)
qed

lemma step_recheck:
  assumes s: "publishing s" "\<not> st_invalid_record (sy_db s)" "reservation At_recheck pb s" "records At_recheck pb s"
    and step: "publish_step libs ef At_recheck pb s = Some s'"
  shows "system_inv s'"
proof -
  have g: "system_inv (goto At_apply pb s)" by (intro inv_goto s) (use s in \<open>auto simp: at_defs\<close>)
  have h: "system_inv (stop (Err history_changed) s)" by (rule inv_stop[OF s(1)]) simp
  have "system_inv (use (ef_budget ef) (\<lambda>_. use (ef_history ef) (\<lambda>history.
          if history \<noteq> pb_history pb then stop (Err history_changed) else goto At_apply pb)) s)"
    by (intro inv_use s) (simp add: g h)
  then show ?thesis using step by (simp add: publish_step_def)
qed

lemma step_apply:
  assumes s: "publishing s" "\<not> st_invalid_record (sy_db s)" "reservation At_apply pb s" "records At_apply pb s"
    and step: "publish_step libs ef At_apply pb s = Some s'"
  shows "system_inv s'"
proof -
  show ?thesis
  proof (cases "pb_todo pb")
    case Nil
    have "system_inv (goto At_unblock (pb\<lparr>pb_blocked := map_option (set_recovery Reload_recovery) (pb_blocked pb)\<rparr>) s)"
      by (intro inv_goto s) (use s in \<open>auto simp: at_defs\<close>)
    then show ?thesis using step Nil by (simp add: publish_step_def)
  next
    case (Cons f rest)
    let ?v = "am_version (mf_record f)"
    have "system_inv (locked (update_progress (\<lambda>p. p\<lparr>pp_step := Applying, pp_current_version := Some ?v\<rparr>))
                (\<lambda>s. case ef_budget ef of
                   Ok _ \<Rightarrow> goto At_applying pb s
                 | Err e \<Rightarrow> fail_migration ?v e s
                 | Panic \<Rightarrow> stop Panic s) s)"
    proof (rule inv_locked[OF s(1)])
      fix op :: operation assume op: "op_publish op \<noteq> None"
      let ?s = "s\<lparr>sy_db := (sy_db s)\<lparr>st_current := Some op\<rparr>\<rparr>"
      have p: "publishing ?s" using s(1) op by (auto simp: publishing_def common_def serving_def)
      have g: "system_inv (goto At_applying pb ?s)"
        by (rule inv_goto[OF p]) (use s Cons in \<open>auto simp: at_defs\<close>)
      show "system_inv (case ef_budget ef of Ok _ \<Rightarrow> goto At_applying pb ?s
          | Err e \<Rightarrow> fail_migration ?v e ?s | Panic \<Rightarrow> stop Panic ?s)"
        using g inv_fail_migration[OF p] inv_stop[OF p, of Panic] by (simp split: outcome.splits)
    qed
    then show ?thesis using step Cons by (simp add: publish_step_def)
  qed
qed

lemma step_applying:
  assumes s: "publishing s" "\<not> st_invalid_record (sy_db s)" "reservation At_applying pb s" "records At_applying pb s"
    and step: "publish_step libs ef At_applying pb s = Some s'"
  shows "system_inv s'"
proof -
  obtain f rest where todo: "pb_todo pb = f # rest" using s by (auto simp: at_defs neq_Nil_conv)
  let ?v = "am_version (mf_record f)"
  have g: "system_inv (locked (update_progress (\<lambda>p. p\<lparr>pp_applied_versions := pp_applied_versions p @ [?v],
        pp_current_version := None\<rparr>)) (goto At_apply (pb\<lparr>pb_todo := rest\<rparr>)) s)"
    by (rule inv_locked[OF s(1)], rule inv_goto) (use s in \<open>auto simp: at_defs\<close>)
  show ?thesis using step todo g inv_fail_migration[OF s(1)] inv_stop[OF s(1), of Panic]
    by (auto simp: publish_step_def split: outcome.splits)
qed

lemma step_unblock:
  assumes s: "publishing s" "\<not> st_invalid_record (sy_db s)" "reservation At_unblock pb s" "records At_unblock pb s"
    and step: "publish_step libs ef At_unblock pb s = Some s'"
  shows "system_inv s'"
proof -
  have "system_inv (use (unwrap (pb_blocked pb)) (\<lambda>rec. persisting (ef_persist ef) rec
            (\<lambda>s. goto At_load pb (s\<lparr>sy_db := (sy_db s)\<lparr>st_record := Some rec\<rparr>\<rparr>)) (\<lambda>e. stop (Err e))) s)"
  proof (rule inv_use[OF s(1)], rule inv_persisting[OF s(1)])
    fix rec assume "unwrap (pb_blocked pb) = Ok rec"
    then show "system_inv (goto At_load pb (s\<lparr>sy_disk := {Some rec}, sy_db := (sy_db (s\<lparr>sy_disk := {Some rec}\<rparr>))\<lparr>st_record := Some rec\<rparr>\<rparr>))"
      by (intro inv_goto) (use s in \<open>auto simp: at_defs publish_op_def outcome_simps\<close>)
    show "system_inv (stop (Err e) s)" for e by (rule inv_stop[OF s(1)]) simp
  qed (rule inv_fails_lost[OF s(1)])
  then show ?thesis using step by (simp add: publish_step_def)
qed

lemma step_load:
  assumes s: "publishing s" "\<not> st_invalid_record (sy_db s)" "reservation At_load pb s" "records At_load pb s"
    and step: "publish_step libs ef At_load pb s = Some s'"
  shows "system_inv s'"
proof -
  have "system_inv (locked (update_progress (\<lambda>p. p\<lparr>pp_step := Loading\<rparr>)) (goto At_loading pb) s)"
    by (rule inv_locked[OF s(1)], rule inv_goto) (use s in \<open>auto simp: at_defs\<close>)
  then show ?thesis using step by (simp add: publish_step_def)
qed

lemma step_final:
  assumes s: "publishing s" "\<not> st_invalid_record (sy_db s)" "reservation At_final pb s" "records At_final pb s"
    and step: "publish_step libs ef At_final pb s = Some s'"
  shows "system_inv s'"
proof -
  have "system_inv (persisting (ef_persist ef) (pb_candidate pb) (goto At_complete pb) (\<lambda>e. stop (Err e)) s)"
  proof (rule inv_persisting[OF s(1)])
    show "system_inv (goto At_complete pb (s\<lparr>sy_disk := {Some (pb_candidate pb)}\<rparr>))"
      by (rule inv_goto) (use s in \<open>auto simp: at_defs\<close>)
    show "system_inv (stop (Err e) s)" for e by (rule inv_stop[OF s(1)]) simp
  qed (rule inv_fails_lost[OF s(1)])
  then show ?thesis using step by (simp add: publish_step_def)
qed

lemma step_complete:
  assumes s: "publishing s" "\<not> st_invalid_record (sy_db s)" "reservation At_complete pb s" "records At_complete pb s"
    and step: "publish_step libs ef At_complete pb s = Some s'"
  shows "system_inv s'"
proof -
  obtain r sn where rs: "pb_resources pb = Some r" "pb_snapshot pb = Some sn" using s by (auto simp: at_defs)
  let ?st = "(sy_db s)\<lparr>st_record := Some (pb_candidate pb), st_config := Some (pb_config pb), st_resources := Some r,
      st_phase := Ready, st_error := None, st_snapshot := Some sn\<rparr>"
  have "publish_op ?st" using s(1) by (simp add: publishing_def)
  then obtain op where op: "update_progress (\<lambda>p. p\<lparr>pp_step := Complete\<rparr>) ?st = Ok (?st\<lparr>st_current := Some op\<rparr>)"
      "op_publish op \<noteq> None" by (rule update_progress_ok)
  have "s' = goto At_retire pb (s\<lparr>sy_db := ?st\<lparr>st_current := Some op\<rparr>\<rparr>)"
    using step rs op by (simp add: publish_step_def use_def unwrap_def locked_def complete_publish_def)
  moreover have "system_inv (goto At_retire pb (s\<lparr>sy_db := ?st\<lparr>st_current := Some op\<rparr>\<rparr>))"
    by (rule inv_goto) (use s op(2) rs in \<open>auto simp: at_defs\<close>)
  ultimately show ?thesis by simp
qed

lemma step_retire:
  assumes s: "publishing s" "\<not> st_invalid_record (sy_db s)" "reservation At_retire pb s" "records At_retire pb s"
    and step: "publish_step libs ef At_retire pb s = Some s'"
  shows "system_inv s'"
proof -
  show ?thesis using step s by (auto simp: publish_step_def at_defs intro!: inv_stop)
qed

lemmas label_steps = step_branch step_drain step_sync step_persist step_preflight step_decide step_drain_again step_block
  step_recheck step_apply step_applying step_unblock step_load step_final step_complete step_retire

lemma publish_step_inv:
  assumes inv: "system_inv s" and job: "sy_job s = Publishing_at l pb" and step: "publish_step libs ef l pb s = Some s'"
  shows "system_inv s'"
proof (cases "l \<in> {At_prepare, At_open, At_adopt, At_drop, At_plan, At_history, At_loading}")
  case True
  then show ?thesis using step_going_on[OF at_publishing[OF inv job] _ step] by simp
next
  case False
  then show ?thesis using at_publishing[OF inv job] step by (cases l; hypsubst) (simp, blast intro: label_steps)+
qed


lemma start_open:
  assumes "reading calls d"
  shows "system_inv (started libs calls d)"
proof -
  let ?st = "open_database (rg_workspace libs) (rg_parse libs) (rg_root libs) (rg_name libs) calls"
  have "st_active ?st = 0 \<and> st_current ?st = None \<and> (st_phase ?st = Recovery_required
      \<or> (st_phase ?st = Ready \<and> st_snapshot ?st \<noteq> None \<and> st_resources ?st \<noteq> None \<and> st_config ?st \<noteq> None
        \<and> st_record ?st \<noteq> None \<and> ready_record d))"
    using assms by (auto simp: open_database_def restore_def Database_new_def reading_def ready_record_def Let_def
        split: outcome.splits if_splits)
  then show ?thesis
    by (cases d) (auto simp: started_def system_inv_def common_def serving_def Database_new_def)
qed

lemma initial_inv: "initial libs s \<Longrightarrow> system_inv s"
  by (auto simp: initial_def start_open)

lemma unregister_step_inv:
  assumes inv: "system_inv s" and job: "sy_job s = Unregistering_at u" and step: "unregister_step ef u s = Some s'"
  shows "system_inv s'"
proof -
  have s: "st_active (sy_db s) = sy_lifetimes s" "st_current (sy_db s) \<noteq> None" "st_phase (sy_db s) = Unregistering"
    "u \<noteq> U_drain \<Longrightarrow> st_active (sy_db s) = 0"
    using inv job by (simp_all add: system_inv_def common_def)
  show ?thesis using step s
    by (cases u; auto simp: unregister_step_def system_inv_def common_def retire_registration_def split: if_splits outcome.splits)
qed

lemma job_step_inv:
  assumes inv: "system_inv s" and step: "job_step libs ef s = Some s'"
  shows "system_inv s'"
proof (cases "sy_job s")
  case Idle
  then show ?thesis using step by (simp add: job_step_def)
next
  case (Starting req)
  then have "s' = start_publish libs req s" using step by (simp add: job_step_def)
  then show ?thesis using start_publish_inv[OF inv Starting] by simp
next
  case (Publishing_at l pb)
  then show ?thesis using step publish_step_inv[OF inv Publishing_at] by (simp add: job_step_def)
next
  case (Publish_done r)
  have p: "common s" "publish_op (sy_db s)" "st_phase (sy_db s) \<noteq> Unregistering" "is_ok r \<Longrightarrow> st_phase (sy_db s) = Ready"
    using inv Publish_done by (simp_all add: system_inv_def)
  then obtain op where op: "st_current (sy_db s) = Some op" by (auto simp: publish_op_def)
  show ?thesis using step Publish_done p op
    by (auto simp: job_step_def end_publish_def finish_operation_def unwrap_def system_inv_def common_def serving_def Let_def
        split: if_splits)
next
  case (Unregistering_at u)
  then show ?thesis using step unregister_step_inv[OF inv Unregistering_at] by (simp add: job_step_def)
next
  case (Unregister_done r)
  then obtain op where op: "st_current (sy_db s) = Some op" "st_active (sy_db s) = sy_lifetimes s"
    using inv by (auto simp: system_inv_def common_def)
  show ?thesis using step Unregister_done op
    by (auto simp: job_step_def end_unregister_def finish_operation_def unwrap_def system_inv_def common_def Let_def split: if_splits)
qed

text \<open>Requests come and go beside the worker: they change the number of lifetimes only.\<close>

lemma serving_active [simp]: "serving (s\<lparr>sy_db := (sy_db s)\<lparr>st_active := n\<rparr>, sy_lifetimes := m\<rparr>) = serving s"
  by (simp add: serving_def)

lemma records_active [simp]:
  "records l pb (s\<lparr>sy_db := (sy_db s)\<lparr>st_active := n\<rparr>, sy_lifetimes := m\<rparr>) = records l pb s"
  by (simp add: records_def)

lemma reservation_active:
  "reservation l pb s \<Longrightarrow> (st_phase (sy_db s) = Publishing \<Longrightarrow> n \<le> st_active (sy_db s)) \<Longrightarrow>
     reservation l pb (s\<lparr>sy_db := (sy_db s)\<lparr>st_active := n\<rparr>, sy_lifetimes := m\<rparr>)"
  by (simp add: reservation_def) linarith

lemma active_inv:
  assumes "system_inv s" and "st_phase (sy_db s) \<in> {Publishing, Unregistering} \<Longrightarrow> n \<le> st_active (sy_db s)"
  shows "system_inv (s\<lparr>sy_db := (sy_db s)\<lparr>st_active := n\<rparr>, sy_lifetimes := n\<rparr>)"
proof -
  have r: "reservation l pb (s\<lparr>sy_db := (sy_db s)\<lparr>st_active := n\<rparr>, sy_lifetimes := n\<rparr>)" if "reservation l pb s" for l pb
    using that assms(2) by (intro reservation_active) auto
  show ?thesis
  proof (cases "sy_job s")
    case (Publishing_at l pb)
    then show ?thesis using assms r by (simp add: system_inv_def common_def)
  next
    case (Unregistering_at u)
    then show ?thesis using assms by (cases u) (simp_all add: system_inv_def common_def)
  qed (use assms in \<open>simp_all add: system_inv_def common_def\<close>)
qed

lemma system_active: "system_inv s \<Longrightarrow> st_active (sy_db s) = sy_lifetimes s"
  by (simp add: system_inv_def common_def)

lemma enter_inv:
  assumes "system_inv s" and "st_phase (sy_db s) = Ready \<or> st_current (sy_db s) = None"
  shows "system_inv (s\<lparr>sy_db := (sy_db s)\<lparr>st_active := st_active (sy_db s) + 1\<rparr>, sy_lifetimes := sy_lifetimes s + 1\<rparr>)"
proof -
  have "st_phase (sy_db s) \<notin> {Publishing, Unregistering}"
    using assms by (cases "sy_job s") (auto simp: system_inv_def publish_op_def)
  then show ?thesis using active_inv[OF assms(1), of "sy_lifetimes s + 1"] system_active[OF assms(1)] by simp
qed

lemma leave_inv:
  assumes "system_inv s"
  shows "system_inv (s\<lparr>sy_db := (sy_db s)\<lparr>st_active := st_active (sy_db s) - 1\<rparr>, sy_lifetimes := sy_lifetimes s - 1\<rparr>)"
  using active_inv[OF assms, of "sy_lifetimes s - 1"] system_active[OF assms] by simp

lemma closed_simps [simp]:
  "serving (s\<lparr>sy_closed := True\<rparr>) = serving s" "common (s\<lparr>sy_closed := True\<rparr>) = common s"
  "records l pb (s\<lparr>sy_closed := True\<rparr>) = records l pb s" "reservation l pb (s\<lparr>sy_closed := True\<rparr>) = reservation l pb s"
  by (simp_all add: serving_def common_def records_def reservation_def)

lemma closed_inv: "system_inv s \<Longrightarrow> system_inv (s\<lparr>sy_closed := True\<rparr>)"
  by (cases "sy_job s") (simp_all add: system_inv_def)

lemma admit_Ok: "admit c st m segs = Ok (ad, st') \<longleftrightarrow>
    \<not> c \<and> st_phase st = Ready \<and> st' = st\<lparr>st_active := st_active st + 1\<rparr> \<and>
    (\<exists>sn r config. st_snapshot st = Some sn \<and> st_resources st = Some r \<and> st_config st = Some config \<and>
       resolve sn m segs = Ok (ad_matched ad) \<and> ad = \<lparr>ad_executor = r, ad_matched = ad_matched ad, ad_limits = cf_limits config\<rparr>)"
  by (auto simp: admit_def check_open_def outcome_simps)

lemma begin_export_Ok: "begin_export c st = Ok (ex, st') \<longleftrightarrow>
    \<not> c \<and> st_current st = None \<and> st_phase st \<noteq> Unregistered \<and> st' = st\<lparr>st_active := st_active st + 1\<rparr> \<and>
    (\<exists>r config. st_resources st = Some r \<and> st_config st = Some config \<and> ex = (r, configuration_backend config))"
  by (auto simp: begin_export_def check_open_def outcome_simps)

lemma accept_publish_Ok: "accept_publish libs c v name req (Some st) = Ok st' \<longleftrightarrow>
    validate_name name = Ok () \<and> PublishRequest_validate libs req = Ok () \<and> \<not> c \<and> st_current st = None
    \<and> \<not> st_invalid_record st \<and> (pr_database req = None \<longrightarrow> st_record st \<noteq> None) \<and> st' = begin_operation v Publish st"
  by (auto simp: accept_publish_def accept_state_def check_open_def outcome_simps)

lemma accept_unregister_Ok: "accept_unregister c v st = Ok st' \<longleftrightarrow>
    \<not> c \<and> st_current st = None \<and> st' = (begin_operation v Unregister st)\<lparr>st_phase := Unregistering\<rparr>"
  by (auto simp: accept_unregister_def check_open_def outcome_simps)

lemma idle_iff: "system_inv s \<Longrightarrow> st_current (sy_db s) = None \<longleftrightarrow> sy_job s = Idle"
  by (auto simp: system_inv_def publish_op_def split: job.splits)

lemma db_step_inv: "db_step libs s s' \<Longrightarrow> system_inv s \<Longrightarrow> system_inv s'"
proof (induction rule: db_step.induct)
  case (admit_request s meth segs ad st)
  then show ?case using enter_inv[of s] by (simp add: admit_Ok)
next
  case (export_history s ex st)
  then show ?case using enter_inv[of s] by (simp add: begin_export_Ok)
next
  case (release_request s st)
  then show ?case using leave_inv[of s] by (simp add: release_def split: if_splits)
next
  case (publish s v req st)
  then have "sy_job s = Idle" by (simp add: accept_publish_Ok idle_iff)
  then show ?case using publish
    by (auto simp: accept_publish_Ok begin_operation_def system_inv_def common_def serving_def publish_op_def)
next
  case (unregister s v st)
  then have "sy_job s = Idle" by (simp add: accept_unregister_Ok idle_iff)
  then show ?case using unregister
    by (auto simp: accept_unregister_Ok begin_operation_def system_inv_def common_def)
next
  case (work ef s s')
  then show ?case by (blast intro: job_step_inv)
qed

lemma system_step_inv: "system_step libs s s' \<Longrightarrow> system_inv s \<Longrightarrow> system_inv s'"
proof (induction rule: system_step.induct)
  case (db s s')
  then show ?case by (rule db_step_inv)
next
  case (close s)
  then show ?case by (simp add: closed_inv)
next
  case (retire s)
  then have "sy_job s = Idle" by (simp add: idle_iff)
  then show ?case using retire by (simp add: retire_at_shutdown_def system_inv_def common_def)
next
  case (restart d s calls)
  then show ?case by (simp add: start_open)
qed

interpretation registry_system: invariant_system "initial libs" "system_step libs" system_inv for libs
  by unfold_locales (auto intro: initial_inv system_step_inv)


section \<open>Progress of a worker\<close>

fun label_rank :: "label \<Rightarrow> nat" where
  "label_rank At_prepare = 22" | "label_rank At_open = 21" | "label_rank At_branch = 20" | "label_rank At_drain = 19"
| "label_rank At_sync = 18" | "label_rank At_persist = 17" | "label_rank At_adopt = 16" | "label_rank At_drop = 15"
| "label_rank At_preflight = 14" | "label_rank At_plan = 13" | "label_rank At_history = 12" | "label_rank At_decide = 11"
| "label_rank At_drain_again = 10" | "label_rank At_block = 9" | "label_rank At_recheck = 8" | "label_rank At_apply = 7"
| "label_rank At_applying = 7" | "label_rank At_unblock = 6" | "label_rank At_load = 5" | "label_rank At_loading = 4"
| "label_rank At_final = 3" | "label_rank At_complete = 2" | "label_rank At_retire = 1"

fun unregister_rank :: "unregister_label \<Rightarrow> nat" where
  "unregister_rank U_drain = 4" | "unregister_rank U_remove = 3" | "unregister_rank U_retire = 2" | "unregister_rank U_drop = 1"

text \<open>The migrations left count only while they are applied: the plan is read before.\<close>

fun job_size :: "'r job \<Rightarrow> nat \<times> nat" where
  "job_size Idle = (0, 0)"
| "job_size (Starting _) = (24, 0)"
| "job_size (Publishing_at l pb) = (Suc (label_rank l),
     if l = At_apply then Suc (2 * length (pb_todo pb)) else if l = At_applying then 2 * length (pb_todo pb) else 0)"
| "job_size (Publish_done _) = (1, 0)"
| "job_size (Unregistering_at u) = (Suc (unregister_rank u), 0)"
| "job_size (Unregister_done _) = (1, 0)"

definition tracked :: "operation_id \<Rightarrow> 'r db_state \<Rightarrow> bool" where
  "tracked i st \<longleftrightarrow> (\<exists>op. st_current st = Some op \<and> op_id op = i)"

definition job_order :: "((nat \<times> nat) \<times> (nat \<times> nat)) set" where
  "job_order = less_than <*lex*> less_than"

lemma wf_job_order: "wf job_order" by (simp add: job_order_def wf_lex_prod)

definition moving :: "operation_id \<Rightarrow> nat \<Rightarrow> nat \<times> nat \<Rightarrow> 'r system \<Rightarrow> bool" where
  "moving i n b s \<longleftrightarrow> tracked i (sy_db s) \<and> sy_lifetimes s = n \<and> (job_size (sy_job s), b) \<in> job_order"

lemma tracked_simps [simp]:
  "tracked i (st\<lparr>st_phase := p\<rparr>) = tracked i st" "tracked i (st\<lparr>st_invalid_record := b\<rparr>) = tracked i st"
  "tracked i (st\<lparr>st_config := c\<rparr>) = tracked i st" "tracked i (st\<lparr>st_record := x\<rparr>) = tracked i st"
  "tracked i (st\<lparr>st_resources := y\<rparr>) = tracked i st" "tracked i (st\<lparr>st_snapshot := sn\<rparr>) = tracked i st"
  "tracked i (st\<lparr>st_active := n\<rparr>) = tracked i st" "tracked i (st\<lparr>st_error := e\<rparr>) = tracked i st"
  by (simp_all add: tracked_def)

lemma tracked_calls [simp]:
  "tracked i (note_persist r st) = tracked i st" "tracked i (restore_admission p st) = tracked i st"
  "tracked i (adopt c x y st) = tracked i st" "tracked i (retire_registration st) = tracked i st"
  by (simp_all add: note_persist_def restore_admission_def adopt_def retire_registration_def)

lemma tracked_progress: "update_progress f st = Ok st' \<Longrightarrow> tracked i st \<Longrightarrow> tracked i st'"
  by (auto simp: update_progress_def tracked_def outcome_simps)

lemma moving_stop: "1 < fst b \<Longrightarrow> tracked i (sy_db s) \<Longrightarrow> sy_lifetimes s = n \<Longrightarrow> moving i n b (stop r s)"
  by (cases b) (simp add: moving_def stop_def job_order_def)

lemma moving_goto:
  "tracked i (sy_db s) \<Longrightarrow> sy_lifetimes s = n \<Longrightarrow> (job_size (Publishing_at l pb), b) \<in> job_order \<Longrightarrow> moving i n b (goto l pb s)"
  by (simp add: moving_def goto_def)

lemma moving_use:
  assumes "1 < fst b" "tracked i (sy_db s)" "sy_lifetimes s = n" and "\<And>x. r = Ok x \<Longrightarrow> moving i n b (k x s)"
  shows "moving i n b (use r k s)"
  using assms by (cases r) (auto simp: use_def intro: moving_stop)

lemma moving_locked:
  assumes "1 < fst b" "tracked i (sy_db s)" "sy_lifetimes s = n"
    and "\<And>st. tracked i st \<Longrightarrow> moving i n b (k (s\<lparr>sy_db := st\<rparr>))"
  shows "moving i n b (locked (update_progress f) k s)"
  unfolding locked_def using assms tracked_progress[of f "sy_db s"] by (intro moving_use) blast+

lemma moving_complete:
  assumes "1 < fst b" "tracked i (sy_db s)" "sy_lifetimes s = n"
    and "\<And>st. tracked i st \<Longrightarrow> moving i n b (k (s\<lparr>sy_db := st\<rparr>))"
  shows "moving i n b (locked (complete_publish c config x sn) k s)"
  unfolding locked_def
proof (rule moving_use[OF assms(1,2,3)])
  fix st assume "complete_publish c config x sn (sy_db s) = Ok st"
  then have "tracked i st" unfolding complete_publish_def by (rule tracked_progress) (simp add: assms(2))
  then show "moving i n b (k (s\<lparr>sy_db := st\<rparr>))" by (rule assms(4))
qed

lemma moving_reopen: "1 < fst b \<Longrightarrow> tracked i (sy_db s) \<Longrightarrow> sy_lifetimes s = n \<Longrightarrow> moving i n b (reopen pb e s)"
  unfolding reopen_def by (rule moving_stop) simp_all

lemma moving_fail: "1 < fst b \<Longrightarrow> tracked i (sy_db s) \<Longrightarrow> sy_lifetimes s = n \<Longrightarrow> moving i n b (fail_migration v e s)"
  unfolding fail_migration_def by (rule moving_locked) (auto intro: moving_stop)

lemma moving_persisting:
  assumes "1 < fst b" "tracked i (sy_db s)" "sy_lifetimes s = n"
    and "\<And>D st. tracked i st \<Longrightarrow> moving i n b (k (s\<lparr>sy_disk := D, sy_db := st\<rparr>))"
    and "\<And>e D st. tracked i st \<Longrightarrow> moving i n b (fails e (s\<lparr>sy_disk := D, sy_db := st\<rparr>))"
  shows "moving i n b (persisting r rec k fails s)"
  using assms by (auto simp: persisting_def Let_def intro: moving_stop split: outcome.split)

lemma moving_closing:
  assumes "1 < fst b" "tracked i (sy_db s)" "sy_lifetimes s = n"
    and "\<And>p st. tracked i st \<Longrightarrow> moving i n b (goto l (pb\<lparr>pb_previous := p\<rparr>) (s\<lparr>sy_db := st\<rparr>))"
  shows "moving i n b (closing l pb s)"
  unfolding closing_def
proof (rule moving_use[OF assms(1,2,3)], clarify)
  fix p st assume "close_admission (sy_db s) = Ok (p, st)"
  then show "moving i n b (goto l (pb\<lparr>pb_previous := p\<rparr>) (s\<lparr>sy_db := st\<rparr>))"
    using assms tracked_progress[of _ "(sy_db s)\<lparr>st_phase := Publishing\<rparr>" st i]
    by (auto simp: close_admission_def outcome_simps)
qed

lemmas moving_intros = moving_stop moving_goto moving_use moving_locked moving_complete moving_reopen moving_fail moving_persisting moving_closing


lemma publish_step_moving:
  assumes "tracked i (sy_db s)" "sy_lifetimes s = n" and step: "publish_step libs ef l pb s = Some s'"
  shows "moving i n (job_size (Publishing_at l pb)) s'"
  using step unfolding publish_step_def
  by (cases l; simp split: if_splits)
    (use assms in \<open>auto simp: job_order_def neq_Nil_conv intro!: moving_intros split: option.split outcome.split list.split\<close>)

lemma unregister_step_moving:
  assumes "tracked i (sy_db s)" "sy_lifetimes s = n" and "unregister_step ef u s = Some s'"
  shows "moving i n (job_size (Unregistering_at u)) s'"
  using assms by (cases u) (auto simp: unregister_step_def moving_def job_order_def split: if_splits outcome.splits)

lemma start_publish_moving:
  assumes "tracked i (sy_db s)" "sy_lifetimes s = n"
  shows "moving i n (job_size (Starting req)) (start_publish libs req s)"
proof -
  have b: "1 < fst (job_size (Starting req))" by simp
  show ?thesis unfolding start_publish_def Let_def
    by (intro moving_use moving_goto b assms) (simp add: job_order_def)
qed

text \<open>A worker moves on, or its operation has ended with its record kept.\<close>

lemma job_step_moving:
  assumes t: "tracked i (sy_db s)" "sy_lifetimes s = n" and step: "job_step libs ef s = Some s'"
  shows "moving i n (job_size (sy_job s)) s' \<or>
    (sy_job s' = Idle \<and> (\<exists>op. wait_round (sy_db s') i = Some (Ok op)))"
proof (cases "sy_job s")
  case (Starting req)
  then have "s' = start_publish libs req s" using step by (simp add: job_step_def)
  then show ?thesis using start_publish_moving[OF t] Starting by simp
next
  case (Publishing_at l pb)
  then show ?thesis using step publish_step_moving[OF t] by (simp add: job_step_def)
next
  case (Unregistering_at u)
  then show ?thesis using step unregister_step_moving[OF t] by (simp add: job_step_def)
next
  case (Publish_done r)
  then show ?thesis using step t(1)
    by (auto simp: job_step_def end_publish_def finish_operation_def tracked_def unwrap_def Let_def wait_round_def
        find_operation_def split: if_splits)
next
  case (Unregister_done r)
  then show ?thesis using step t(1)
    by (auto simp: job_step_def end_unregister_def finish_operation_def tracked_def unwrap_def Let_def wait_round_def
        find_operation_def split: if_splits)
qed (use step in \<open>simp add: job_step_def\<close>)

definition waiting :: "'r system \<Rightarrow> bool" where
  "waiting s \<longleftrightarrow> 0 < st_active (sy_db s) \<and>
     (case sy_job s of
        Publishing_at l pb \<Rightarrow> l = At_drain \<or> l = At_drain_again
      | Unregistering_at u \<Rightarrow> u = U_drain
      | _ \<Rightarrow> False)"

lemma publish_step_None: "publish_step libs ef l pb s = None \<longleftrightarrow> (l = At_drain \<or> l = At_drain_again) \<and> 0 < st_active (sy_db s)"
  by (cases l) (simp_all add: publish_step_def)

lemma unregister_step_None: "unregister_step ef u s = None \<longleftrightarrow> u = U_drain \<and> 0 < st_active (sy_db s)"
  by (cases u) (simp_all add: unregister_step_def split: outcome.split)

text \<open>A worker stops for one reason only: it waits for requests to drain.\<close>

lemma job_step_None: "system_inv s \<Longrightarrow> job_step libs ef s = None \<longleftrightarrow> sy_job s = Idle \<or> waiting s"
  by (cases "sy_job s") (auto simp: job_step_def waiting_def publish_step_None unregister_step_None system_inv_def
      publish_op_def end_publish_def end_unregister_def finish_operation_def unwrap_def Let_def split: if_splits)

text \<open>The worker alone, with the outcomes of its awaited calls.\<close>

primrec work_alone :: "registry_libs \<Rightarrow> nat \<Rightarrow> (nat \<Rightarrow> 'r effects) \<Rightarrow> 'r system \<Rightarrow> 'r system" where
  "work_alone libs 0 efs s = s"
| "work_alone libs (Suc n) efs s =
     (case job_step libs (efs 0) s of None \<Rightarrow> s | Some s' \<Rightarrow> work_alone libs n (\<lambda>k. efs (Suc k)) s')"

lemma work_alone_ends:
  assumes "system_inv s" "tracked i (sy_db s)" "sy_lifetimes s = 0"
  shows "\<exists>n op. sy_job (work_alone libs n efs s) = Idle \<and> wait_round (sy_db (work_alone libs n efs s)) i = Some (Ok op)"
  using assms
proof (induction "job_size (sy_job s)" arbitrary: s efs rule: wf_induct_rule[OF wf_job_order])
  case (1 s)
  have "sy_job s \<noteq> Idle" using 1(2,3) by (auto simp: system_inv_def tracked_def)
  moreover have "\<not> waiting s" using 1(2,4) by (simp add: waiting_def system_active)
  ultimately obtain s' where s': "job_step libs (efs 0) s = Some s'"
    using job_step_None[OF 1(2)] by (metis option.exhaust)
  have inv: "system_inv s'" by (rule job_step_inv[OF 1(2) s'])
  from job_step_moving[OF 1(3,4) s'] show ?case
  proof
    assume m: "moving i 0 (job_size (sy_job s)) s'"
    then have "\<exists>n op. sy_job (work_alone libs n (\<lambda>k. efs (Suc k)) s') = Idle
        \<and> wait_round (sy_db (work_alone libs n (\<lambda>k. efs (Suc k)) s')) i = Some (Ok op)"
      using 1(1)[of s'] inv by (auto simp: moving_def)
    then obtain n op where "sy_job (work_alone libs n (\<lambda>k. efs (Suc k)) s') = Idle"
        "wait_round (sy_db (work_alone libs n (\<lambda>k. efs (Suc k)) s')) i = Some (Ok op)" by blast
    then show ?thesis using s' by (intro exI[of _ "Suc n"] exI[of _ op]) simp
  next
    assume "sy_job s' = Idle \<and> (\<exists>op. wait_round (sy_db s') i = Some (Ok op))"
    then obtain op where "sy_job s' = Idle" "wait_round (sy_db s') i = Some (Ok op)" by blast
    then show ?thesis using s' by (intro exI[of _ "Suc 0"] exI[of _ op]) simp
  qed
qed


section \<open>Properties\<close>

definition reachable :: "registry_libs \<Rightarrow> 'r system \<Rightarrow> bool" where
  "reachable libs s \<longleftrightarrow> (\<exists>s0. initial libs s0 \<and> (system_step libs)\<^sup>*\<^sup>* s0 s)"

lemma reachable_system_inv: "reachable libs s \<Longrightarrow> system_inv s"
  unfolding reachable_def using registry_system.reachable_inv by blast

lemma reachable_step: "reachable libs s \<Longrightarrow> system_step libs s s' \<Longrightarrow> reachable libs s'"
  unfolding reachable_def by (meson rtranclp.rtrancl_into_rtrancl)

lemma reachable_work: "reachable libs s \<Longrightarrow> reachable libs (work_alone libs n efs s)"
proof (induction n arbitrary: s efs)
  case (Suc n)
  show ?case
  proof (cases "job_step libs (efs 0) s")
    case None
    then show ?thesis using Suc.prems by simp
  next
    case (Some s')
    have "reachable libs s'" by (rule reachable_step[OF Suc.prems system_db_steps(6)[OF Some]])
    then show ?thesis using Some Suc.IH by simp
  qed
qed simp

lemma ready_record_iff: "ready_record d \<longleftrightarrow> (\<exists>rec. d = Some rec \<and> wr_recovery rec = No_recovery)"
  by (cases d) (simp_all add: ready_record_def)

lemma migrating_record_iff: "migrating_record d \<longleftrightarrow> (\<exists>rec. d = Some rec \<and> wr_recovery rec = Migration_recovery)"
  by (cases d) (simp_all add: migrating_record_def)

lemma admit_closed_phase:
  "st_phase st \<noteq> Ready \<Longrightarrow> admit c st meth segs = Err (if c then shutting_down else unavailable)"
  by (simp add: admit_def check_open_def)

lemma export_busy: "st_current st \<noteq> None \<Longrightarrow> begin_export c st = Err (if c then shutting_down else unavailable)"
  by (simp add: begin_export_def check_open_def)

lemma running_current: "system_inv s \<Longrightarrow> sy_job s \<noteq> Idle \<Longrightarrow> st_current (sy_db s) \<noteq> None"
  by (simp add: idle_iff)

lemma waiting_phase: "system_inv s \<Longrightarrow> waiting s \<Longrightarrow> st_phase (sy_db s) = Publishing \<or> st_phase (sy_db s) = Unregistering"
  by (cases "sy_job s") (auto simp: waiting_def system_inv_def reservation_def closed_labels_def)

lemma blocked_state:
  assumes "system_inv s" and "sy_job s = Publishing_at l pb" and "l \<in> blocked_labels"
  shows "sy_lifetimes s = 0" "st_phase (sy_db s) = Publishing" "\<forall>d \<in> sy_disk s. migrating_record d"
proof -
  have s: "common s" "reservation l pb s" "records l pb s" using assms by (simp_all add: system_inv_def)
  have l: "l \<in> closed_labels" "l \<noteq> At_drain" "l \<noteq> At_drain_again" using assms(3) by (auto simp: label_sets)
  show p: "st_phase (sy_db s) = Publishing" using s l by (simp add: reservation_def)
  show "sy_lifetimes s = 0" using s l p by (simp add: reservation_def common_def)
  show "\<forall>d \<in> sy_disk s. migrating_record d" using s assms(3) by (simp add: records_def)
qed

lemma restart_blocked:
  assumes "migrating_record d" and "reading calls d"
  shows "st_phase (open_database libs parse root name calls) = Recovery_required"
  using assms
  by (auto simp: open_database_def restore_def Database_new_def reading_def migrating_record_def Let_def
      split: outcome.splits if_splits option.splits)

text \<open> C5: In every reachable state a database that is ready has its snapshot, resources and configuration: admission
  never meets a missing one, and decides by the routes of the snapshot only. Whatever a crash then leaves on
  disk is a record that asks for no recovery.\<close>

theorem ready_serves:
  assumes "reachable libs s" and "st_phase (sy_db s) = Ready"
  shows "(\<exists>sn r (config :: configuration). admit closed (sy_db s) meth segs =
      (if closed then Err shutting_down
       else map_ok (\<lambda>m. (\<lparr>ad_executor = r, ad_matched = m, ad_limits = cf_limits config\<rparr>,
           (sy_db s)\<lparr>st_active := st_active (sy_db s) + 1\<rparr>)) (resolve sn meth segs)))
    \<and> (\<forall>d \<in> sy_disk s. \<exists>rec. d = Some rec \<and> wr_recovery rec = No_recovery)"
proof -
  have "common s" using reachable_system_inv[OF assms(1)] by (simp add: system_inv_def)
  then have s: "serving s" using assms(2) by (simp add: common_def)
  then obtain sn r config where "st_snapshot (sy_db s) = Some sn" "st_resources (sy_db s) = Some r" "st_config (sy_db s) = Some config"
    by (auto simp: serving_def)
  then have a: "admit closed (sy_db s) meth segs =
      (if closed then Err shutting_down
       else map_ok (\<lambda>m. (\<lparr>ad_executor = r, ad_matched = m, ad_limits = cf_limits config\<rparr>,
           (sy_db s)\<lparr>st_active := st_active (sy_db s) + 1\<rparr>)) (resolve sn meth segs))"
    using assms(2) by (cases "resolve sn meth segs") (simp_all add: admit_def check_open_def)
  have "\<forall>d \<in> sy_disk s. \<exists>rec. d = Some rec \<and> wr_recovery rec = No_recovery"
    using s by (simp add: serving_def ready_record_iff)
  then show ?thesis by (intro conjI exI[of _ sn] exI[of _ r] exI[of _ config] a)
qed

text \<open> C2: While migrations are compared again, applied and unblocked, no request and no export is running or can
  start, and every record a crash can leave on disk says that a migration was under way.\<close>

theorem migration_exclusive:
  assumes "reachable libs s" and "sy_job s = Publishing_at l pb" and "l \<in> {At_recheck, At_apply, At_applying, At_unblock}"
  shows "sy_lifetimes s = 0
    \<and> admit closed (sy_db s) meth segs = Err (if closed then shutting_down else unavailable)
    \<and> begin_export closed (sy_db s) = Err (if closed then shutting_down else unavailable)
    \<and> (\<forall>d \<in> sy_disk s. \<exists>rec. d = Some rec \<and> wr_recovery rec = Migration_recovery)"
proof -
  note inv = reachable_system_inv[OF assms(1)]
  have l: "l \<in> blocked_labels" using assms(3) by (simp add: blocked_labels_def)
  note b = blocked_state[OF inv assms(2) l]
  have "\<forall>d \<in> sy_disk s. \<exists>rec. d = Some rec \<and> wr_recovery rec = Migration_recovery"
    using b(3) by (simp add: migrating_record_iff)
  then show ?thesis using b running_current[OF inv] assms(2) by (simp add: admit_closed_phase export_busy)
qed

text \<open> C3: If the process dies anywhere between the blocking of a database and its release, the restarted registry
  does not serve the database, whichever record it finds and however the calls of the restoration end.\<close>

theorem crash_while_migrating:
  assumes "reachable libs s" and "sy_job s = Publishing_at l pb" and "l \<in> {At_recheck, At_apply, At_applying, At_unblock}"
    and "d \<in> sy_disk s" and "reading calls d"
  shows "st_phase (sy_db (started libs calls d)) = Recovery_required
    \<and> admit closed (sy_db (started libs calls d)) meth segs = Err (if closed then shutting_down else unavailable)"
proof -
  have l: "l \<in> blocked_labels" using assms(3) by (simp add: blocked_labels_def)
  have migrating: "migrating_record d" using blocked_state(3)[OF reachable_system_inv[OF assms(1)] assms(2) l] assms(4) by blast
  have "st_phase (open_database (rg_workspace libs) (rg_parse libs) (rg_root libs) (rg_name libs) calls) = Recovery_required"
    using migrating assms(5) by (intro restart_blocked)
  moreover have "d \<noteq> None" using migrating by (cases d) (simp_all add: migrating_record_def)
  ultimately show ?thesis by (auto simp: started_def admit_closed_phase)
qed

text \<open>A database has one operation at a time: while a worker runs, every further publication or unregistration
  is refused, whatever the request.\<close>

theorem one_operation:
  assumes "reachable libs s" and "sy_job s \<noteq> Idle"
  shows "\<not> is_ok (accept_publish ws closed v name req (Some (sy_db s)))
    \<and> accept_unregister closed v (sy_db s) = Err (if closed then shutting_down else busy)"
proof -
  have c: "st_current (sy_db s) \<noteq> None" by (rule running_current[OF reachable_system_inv[OF assms(1)] assms(2)])
  have "\<not> is_ok (accept_publish ws closed v name req (Some (sy_db s)))"
    using c by (cases "accept_publish ws closed v name req (Some (sy_db s))") (auto simp: accept_publish_Ok)
  then show ?thesis using c by (simp add: accept_unregister_def check_open_def)
qed

text \<open> C30: A worker that cannot go on waits for requests that were admitted before, each of which can end, and
  nothing can be admitted in the meantime: the drain cannot be prolonged.\<close>

theorem drain_waits_for_admitted:
  assumes "reachable libs s" and "sy_job s \<noteq> Idle" and "job_step libs ef s = None"
  shows "0 < sy_lifetimes s \<and> is_ok (release (sy_db s))
    \<and> admit closed (sy_db s) meth segs = Err (if closed then shutting_down else unavailable)
    \<and> begin_export closed (sy_db s) = Err (if closed then shutting_down else unavailable)"
proof -
  note inv = reachable_system_inv[OF assms(1)]
  have w: "waiting s" using job_step_None[OF inv] assms(2,3) by blast
  then have "0 < st_active (sy_db s)" by (simp add: waiting_def)
  then show ?thesis
    using waiting_phase[OF inv w] system_active[OF inv] running_current[OF inv assms(2)]
    by (auto simp: admit_closed_phase export_busy release_def)
qed



section \<open>Witnesses\<close>

definition pub_libs :: registry_libs where
  "pub_libs = \<lparr>rg_workspace = ws_libs, rg_parse = Some, rg_root = [], rg_name = ''app''\<rparr>"

definition pub_request :: publish_request where
  "pub_request = \<lparr>pr_database = Some Turso_config, pr_limits = RequestLimits_default, pr_migration_timeout_ms = 1000\<rparr>"

definition pub_snapshot :: snapshot where
  "pub_snapshot = \<lparr>sn_endpoints = [], sn_openapi = JNull, sn_version = ''v''\<rparr>"

text \<open>Every call succeeds; one migration is new.\<close>

definition pub_effects :: "unit effects" where
  "pub_effects = \<lparr>ef_call = Ok (), ef_resources = Ok (), ef_persist = Ok (), ef_removed = False,
     ef_plan = Ok [(1, mig_file 1 ''1_a.sql'')], ef_history = Ok [], ef_budget = Ok (), ef_snapshot = Ok pub_snapshot\<rparr>"

definition pub_new :: "unit system" where
  "pub_new = \<lparr>sy_db = Database_new, sy_closed = False, sy_disk = {None}, sy_job = Idle, sy_lifetimes = 0\<rparr>"

definition pub_accepted :: "unit system" where
  "pub_accepted = pub_new\<lparr>sy_db := begin_operation 7 Publish Database_new, sy_job := Starting pub_request\<rparr>"

abbreviation pub_at :: "nat \<Rightarrow> unit system" where
  "pub_at n \<equiv> work_alone pub_libs n (\<lambda>_. pub_effects) pub_accepted"

lemma pub_limits: "duration ws_libs 1000 = Ok 1000000000" "RequestLimits_validate ws_libs RequestLimits_default
    = Ok \<lparr>lim_timeout = rl_request_timeout_ms RequestLimits_default * 1000000, lim_max_rows = rl_max_rows RequestLimits_default\<rparr>"
  by (simp_all add: ws_libs_def RequestLimits_validate_def duration_def
      RequestLimits_default_def request_timeout_default_def max_rows_default_def I64_MAX_def)


lemmas pub_run = job_step_def publish_step_def start_publish_def use_def locked_def persisting_def reopen_def closing_def
  goto_def stop_def task_def update_progress_def close_admission_def restore_admission_def adopt_def note_persist_def disk_after_def
  commit_uncertain_def complete_publish_def Configuration_from_record_def is_turso_target_def set_recovery_def Let_def unwrap_def
  into_pending_def Plan_validate_def highest_version_def mig_file_def

lemmas pub_values = pub_libs_def pub_request_def pub_effects_def pub_accepted_def pub_new_def pub_limits
  Database_new_def begin_operation_def

lemma work_alone_numeral: "work_alone libs (numeral k) efs s =
    (case job_step libs (efs 0) s of None \<Rightarrow> s | Some s' \<Rightarrow> work_alone libs (pred_numeral k) (\<lambda>n. efs (Suc n)) s')"
  by (simp add: numeral_eq_Suc)

lemma pub_applying: "\<exists>pb rec. sy_job (pub_at 17) = Publishing_at At_applying pb \<and> sy_disk (pub_at 17) = {Some rec}
    \<and> wr_recovery rec = Migration_recovery"
  by (simp add: work_alone_numeral pub_run pub_values)

lemma pub_published: "db_step pub_libs pub_new pub_accepted"
proof -
  have "accept_publish (rg_workspace pub_libs) (sy_closed pub_new) 7 (rg_name pub_libs) pub_request (Some (sy_db pub_new))
      = Ok (begin_operation 7 Publish Database_new)"
    by (simp add: accept_publish_Ok pub_libs_def pub_new_def Database_new_def validate_name_def migration_name_char_def ascii_defs
        PublishRequest_validate_def pub_request_def pub_limits validate_database_def)
  then show ?thesis unfolding pub_accepted_def by (rule db_step.publish)
qed

lemma pub_reachable: "reachable pub_libs pub_accepted"
proof -
  have "initial pub_libs pub_new"
    unfolding initial_def pub_new_def
    by (rule exI[of _ "\<lparr>rc_read = Err busy, rc_layout = Ok (), rc_data = Ok (), rc_resources = Ok (), rc_snapshot = Err busy\<rparr>"],
        rule exI[of _ None]) (simp add: reading_def started_def)
  then have "reachable pub_libs pub_new" unfolding reachable_def by blast
  then show ?thesis by (rule reachable_step[OF _ system_step.db[OF pub_published]])
qed

lemma pub_at_reachable: "reachable pub_libs (pub_at n)"
  by (rule reachable_work[OF pub_reachable])

lemma pub_served: "sy_job (pub_at 26) = Idle \<and> sy_closed (pub_at 26) = False \<and> sy_lifetimes (pub_at 26) = 0
    \<and> st_phase (sy_db (pub_at 26)) = Ready \<and> st_current (sy_db (pub_at 26)) = None \<and> st_resources (sy_db (pub_at 26)) = Some ()
    \<and> st_config (sy_db (pub_at 26)) \<noteq> None"
  by (simp add: work_alone_numeral pub_run pub_values end_publish_def finish_operation_def)

text \<open>An export is running when the database is unregistered.\<close>

definition pub_exporting :: "unit system" where
  "pub_exporting = (pub_at 26)\<lparr>sy_db := (sy_db (pub_at 26))\<lparr>st_active := st_active (sy_db (pub_at 26)) + 1\<rparr>,
     sy_lifetimes := sy_lifetimes (pub_at 26) + 1\<rparr>"

definition pub_leaving :: "unit system" where
  "pub_leaving = pub_exporting\<lparr>sy_db := (begin_operation 8 Unregister (sy_db pub_exporting))\<lparr>st_phase := Unregistering\<rparr>,
     sy_job := Unregistering_at U_drain\<rparr>"

lemma pub_leaving_reachable: "reachable pub_libs pub_leaving"
proof -
  obtain config where "st_config (sy_db (pub_at 26)) = Some config" using pub_served by blast
  then have e: "begin_export (sy_closed (pub_at 26)) (sy_db (pub_at 26)) = Ok (((), configuration_backend config),
      (sy_db (pub_at 26))\<lparr>st_active := st_active (sy_db (pub_at 26)) + 1\<rparr>)"
    using pub_served by (simp add: begin_export_Ok)
  have r: "reachable pub_libs pub_exporting"
    unfolding pub_exporting_def by (rule reachable_step[OF pub_at_reachable system_db_steps(2)[OF e]])
  have "accept_unregister (sy_closed pub_exporting) 8 (sy_db pub_exporting)
      = Ok ((begin_operation 8 Unregister (sy_db pub_exporting))\<lparr>st_phase := Unregistering\<rparr>)"
    using pub_served by (simp add: accept_unregister_Ok pub_exporting_def)
  then show ?thesis unfolding pub_leaving_def by (rule reachable_step[OF r system_db_steps(5)])
qed

theorem ready_serves_witness:
  "\<exists>sn r (config :: configuration). admit False (sy_db (pub_at 26)) ''GET'' [] =
     map_ok (\<lambda>m. (\<lparr>ad_executor = r, ad_matched = m, ad_limits = cf_limits config\<rparr>,
       (sy_db (pub_at 26))\<lparr>st_active := st_active (sy_db (pub_at 26)) + 1\<rparr>)) (resolve sn ''GET'' [])"
proof -
  have p: "st_phase (sy_db (pub_at 26)) = Ready" using pub_served by blast
  show ?thesis using ready_serves[OF pub_at_reachable p, of False "''GET''" "[]"] unfolding if_False by (rule conjunct1)
qed

theorem migration_exclusive_witness:
  "sy_lifetimes (pub_at 17) = 0 \<and> admit False (sy_db (pub_at 17)) ''GET'' [] = Err unavailable"
proof -
  obtain pb where "sy_job (pub_at 17) = Publishing_at At_applying pb" using pub_applying by blast
  from migration_exclusive[OF pub_at_reachable this, of False "''GET''" "[]"] show ?thesis by simp
qed

theorem crash_while_migrating_witness:
  "\<exists>rec. Some rec \<in> sy_disk (pub_at 17) \<and> st_phase (sy_db (started pub_libs \<lparr>rc_read = Ok rec, rc_layout = Ok (), rc_data = Ok (),
     rc_resources = Ok (), rc_snapshot = Ok pub_snapshot\<rparr> (Some rec))) = Recovery_required"
proof -
  obtain pb rec where p: "sy_job (pub_at 17) = Publishing_at At_applying pb" "sy_disk (pub_at 17) = {Some rec}"
    using pub_applying by blast
  then have d: "Some rec \<in> sy_disk (pub_at 17)" by simp
  have "reading \<lparr>rc_read = Ok rec, rc_layout = Ok (), rc_data = Ok (), rc_resources = Ok (), rc_snapshot = Ok pub_snapshot\<rparr> (Some rec)"
    by (simp add: reading_def)
  from crash_while_migrating[OF pub_at_reachable p(1) _ d this] d show ?thesis by blast
qed

theorem one_operation_witness: "accept_unregister False 9 (sy_db (pub_at 17)) = Err busy"
proof -
  have "sy_job (pub_at 17) \<noteq> Idle" using pub_applying by force
  from one_operation[OF pub_at_reachable this, where closed = False and v = 9] show ?thesis by simp
qed

theorem drain_waits_for_admitted_witness:
  "0 < sy_lifetimes pub_leaving \<and> admit False (sy_db pub_leaving) ''GET'' [] = Err unavailable"
proof -
  have j: "sy_job pub_leaving \<noteq> Idle" by (simp add: pub_leaving_def)
  have "job_step pub_libs pub_effects pub_leaving = None"
    by (simp add: job_step_def pub_leaving_def unregister_step_def begin_operation_def pub_exporting_def)
  from drain_waits_for_admitted[OF pub_leaving_reachable j this, of False "''GET''" "[]"] show ?thesis by simp
qed


end
