(* ===== verification/Registry_Api.thy ===== *)
theory Registry_Api
  imports Publication_Safety
begin

text \<open>
  The registry of \<^verbatim>\<open>src/registry.rs\<close>: its map of databases, the calls that the HTTP service and an
  embedding program make, the loop that restores a workspace, the shutdown worker, and the claims
  on database files. A call looks up its database under the lock of the map and then acts on the
  state of that database.
\<close>

section \<open>The registry\<close>

record 'r registry =
  rs_entries :: "(string \<times> 'r db_state) list"
  rs_closed :: bool

definition registry_database :: "'r registry \<Rightarrow> string \<Rightarrow> 'r db_state result" where
  "registry_database reg name = ok_or database_not_found (map_of (rs_entries reg) name)"

definition set_database :: "string \<Rightarrow> 'r db_state \<Rightarrow> 'r registry \<Rightarrow> 'r registry" where
  "set_database name st reg = reg\<lparr>rs_entries := bt_insert name st (rs_entries reg)\<rparr>"

text \<open>The entry is made before the state is asked.\<close>

definition entry_or_insert :: "string \<Rightarrow> 'r registry \<Rightarrow> 'r db_state \<times> 'r registry" where
  "entry_or_insert name reg =
     (case map_of (rs_entries reg) name of
        Some st \<Rightarrow> (st, reg)
      | None \<Rightarrow> (Database_new, set_database name Database_new reg))"

definition Registry_publish ::
  "workspace_libs \<Rightarrow> 128 word \<Rightarrow> string \<Rightarrow> publish_request \<Rightarrow> 'r registry \<Rightarrow> 'r registry \<times> operation_id result" where
  "Registry_publish libs v name req reg =
     (case and_then (validate_name name) (\<lambda>_. and_then (PublishRequest_validate libs req) (\<lambda>_. check_open (rs_closed reg))) of
        Err e \<Rightarrow> (reg, Err e)
      | Panic \<Rightarrow> (reg, Panic)
      | Ok _ \<Rightarrow>
          if map_of (rs_entries reg) name = None \<and> pr_database req = None then (reg, Err configuration_required)
          else
            (case entry_or_insert name reg of
               (st, reg) \<Rightarrow>
                 (case accept_state v req st of
                    Ok st \<Rightarrow> (set_database name st reg, Ok \<lparr>oi_kind = Publish, oi_value = v\<rparr>)
                  | Err e \<Rightarrow> (reg, Err e)
                  | Panic \<Rightarrow> (reg, Panic))))"

text \<open>The other calls leave the registry alone when they fail.\<close>

definition on_database :: "string \<Rightarrow> ('r db_state \<Rightarrow> ('a \<times> 'r db_state) result) \<Rightarrow> 'r registry \<Rightarrow> 'r registry \<times> 'a result" where
  "on_database name f reg =
     (case and_then (check_open (rs_closed reg)) (\<lambda>_. and_then (registry_database reg name) f) of
        Ok (x, st) \<Rightarrow> (set_database name st reg, Ok x)
      | Err e \<Rightarrow> (reg, Err e)
      | Panic \<Rightarrow> (reg, Panic))"

definition Registry_unregister :: "128 word \<Rightarrow> string \<Rightarrow> 'r registry \<Rightarrow> 'r registry \<times> operation_id result" where
  "Registry_unregister v name reg =
     on_database name (\<lambda>st. map_ok (Pair \<lparr>oi_kind = Unregister, oi_value = v\<rparr>) (accept_unregister (rs_closed reg) v st)) reg"

definition Registry_admit :: "string \<Rightarrow> string \<Rightarrow> string list \<Rightarrow> 'r registry \<Rightarrow> 'r registry \<times> 'r admitted result" where
  "Registry_admit name meth segs reg = on_database name (\<lambda>st. admit (rs_closed reg) st meth segs) reg"

definition Registry_export :: "string \<Rightarrow> 'r registry \<Rightarrow> 'r registry \<times> ('r \<times> backend) result" where
  "Registry_export name reg = on_database name (begin_export (rs_closed reg)) reg"

text \<open>The drop of a lifetime; the entry of a database is never removed.\<close>

definition Registry_release :: "string \<Rightarrow> 'r registry \<Rightarrow> 'r registry result" where
  "Registry_release name reg =
     and_then (unwrap (map_of (rs_entries reg) name)) (\<lambda>st. map_ok (\<lambda>st. set_database name st reg) (release st))"

definition Registry_status :: "'r registry \<Rightarrow> string \<Rightarrow> db_status result" where
  "Registry_status reg name = map_ok db_status_of (registry_database reg name)"

definition Registry_statuses :: "'r registry \<Rightarrow> (string \<times> db_status) list" where
  "Registry_statuses reg = map (\<lambda>(name, st). (name, db_status_of st)) (rs_entries reg)"

definition Registry_openapi :: "'r registry \<Rightarrow> string \<Rightarrow> string \<Rightarrow> json result" where
  "Registry_openapi reg name server_url =
     and_then (registry_database reg name) (\<lambda>st.
     and_then (ok_or unavailable (st_snapshot st)) (\<lambda>s. Snapshot_openapi s server_url))"

definition Registry_operation :: "'r registry \<Rightarrow> string \<Rightarrow> operation_id \<Rightarrow> operation result" where
  "Registry_operation reg name i = and_then (registry_database reg name) (\<lambda>st. find_operation st i)"

text \<open>\<open>open\<close>: every name of the workspace is restored independently of the others.\<close>

definition Registry_open ::
  "workspace_libs \<Rightarrow> (string \<Rightarrow> string option) \<Rightarrow> path \<Rightarrow> (string \<Rightarrow> 'r restore_calls) \<Rightarrow> string list \<Rightarrow> 'r registry" where
  "Registry_open libs parse root calls names =
     \<lparr>rs_entries = fold (\<lambda>name. bt_insert name (open_database libs parse root name (calls name))) names [], rs_closed = False\<rparr>"


section \<open>Executing an admitted request\<close>

definition capped :: "nat option \<Rightarrow> limits \<Rightarrow> limits" where
  "capped budget lim =
     (case budget of Some r \<Rightarrow> lim\<lparr>lim_timeout := min (lim_timeout lim) r\<rparr> | None \<Rightarrow> lim)"

definition admitted_execute ::
  "worker_fate \<Rightarrow> nat \<Rightarrow> params_libs \<Rightarrow> request_libs \<Rightarrow> env \<Rightarrow> ('s, 't, 'p) database admitted \<Rightarrow> input \<Rightarrow> nat option
     \<Rightarrow> ('s world, string) action" where
  "admitted_execute fate fuel plibs libs env ad i budget =
     execute_tracked (ad_executor ad) fate fuel plibs libs env (me_endpoint (ad_matched ad))
       (i\<lparr>in_path := me_path_parameters (ad_matched ad)\<rparr>) (capped budget (ad_limits ad))"


section \<open>Shutdown\<close>

text \<open>Closing admission; the first caller gets the databases to drain.\<close>

definition start_shutdown :: "'r registry \<Rightarrow> 'r registry \<times> string list option" where
  "start_shutdown reg = (reg\<lparr>rs_closed := True\<rparr>, if rs_closed reg then None else Some (map fst (rs_entries reg)))"

definition is_idle :: "'r db_state \<Rightarrow> bool" where
  "is_idle st \<longleftrightarrow> st_current st = None \<and> st_active st = 0"

text \<open>
  One round of the shutdown worker on the databases that are left: \<open>None\<close> when it waits for the first
  one; \<open>dropped\<close> is the outcome of dropping its resources.
\<close>

definition shutdown_round ::
  "unit result \<Rightarrow> string list \<Rightarrow> 'r registry \<Rightarrow> ('r registry \<times> (unit result + string list)) option" where
  "shutdown_round dropped names reg =
     (case names of
        [] \<Rightarrow> Some (reg, Inl (Ok ()))
      | name # rest \<Rightarrow>
          (case map_of (rs_entries reg) name of
             None \<Rightarrow> None
           | Some st \<Rightarrow>
               if is_idle st then
                 Some (set_database name (retire_at_shutdown st) reg,
                   case task dropped of Ok _ \<Rightarrow> Inr rest | r \<Rightarrow> Inl r)
               else None))"


section \<open>Claims on database files\<close>

text \<open>
  A claim is alive while a registration holds it. \<open>cf_regular\<close> is the first \<open>metadata\<close> call (\<open>None\<close> when it
  fails), \<open>cf_opened\<close> whether the file was opened or created, \<open>cf_regular_open\<close> the metadata of the open
  file, \<open>cf_path\<close> its canonical path and \<open>cf_handle\<close> the identity of the file.
\<close>

record 'h claim =
  cl_path :: path
  cl_handle :: 'h
  cl_alive :: bool

record 'h claim_calls =
  cf_regular :: "bool option"
  cf_opened :: bool
  cf_regular_open :: "bool option"
  cf_path :: "path option"
  cf_handle :: "'h option"

definition file_error :: sqlrest_error where
  "file_error = new_error 400 ''invalid_database_path'' ''Cannot open a stable regular database file''"

definition already_registered :: sqlrest_error where
  "already_registered = new_error 409 ''database_already_registered''
     ''Database file is already owned by this process''"

definition claim_file :: "'h claim_calls \<Rightarrow> 'h claim list \<Rightarrow> 'h claim list \<times> 'h claim result" where
  "claim_file calls claims =
     (let claims = filter cl_alive claims in
      if cf_regular calls = Some False \<or> \<not> cf_opened calls \<or> cf_regular_open calls \<noteq> Some True then (claims, Err file_error)
      else
        (case (cf_path calls, cf_handle calls) of
           (Some path, Some handle) \<Rightarrow>
             if \<exists>c \<in> set claims. cl_path c = path \<or> cl_handle c = handle then (claims, Err already_registered)
             else let c = \<lparr>cl_path = path, cl_handle = handle, cl_alive = True\<rparr> in (claims @ [c], Ok c)
         | _ \<Rightarrow> (claims, Err file_error)))"

text \<open>The last owner of a claim is dropped.\<close>

definition drop_claim :: "'h claim \<Rightarrow> 'h claim list \<Rightarrow> 'h claim list" where
  "drop_claim c claims = map (\<lambda>d. if d = c then d\<lparr>cl_alive := False\<rparr> else d) claims"

text \<open>
  \<open>open_resources\<close> for a Turso file: \<open>opened\<close> is the driver's \<open>open\<close> on the claimed path and \<open>after\<close> the
  identity of the file at that path afterwards; a claim that does not become a resource is dropped.
\<close>

definition open_turso_resources ::
  "'h claim_calls \<Rightarrow> 'd result \<Rightarrow> 'h option \<Rightarrow> 'h claim list \<Rightarrow> 'h claim list \<times> ('d \<times> 'h claim) result" where
  "open_turso_resources calls opened after claims =
     (case claim_file calls claims of
        (claims, Ok c) \<Rightarrow>
          (case opened of
             Ok db \<Rightarrow>
               if after = Some (cl_handle c) then (claims, Ok (db, c)) else (drop_claim c claims, Err file_error)
           | Err e \<Rightarrow> (drop_claim c claims, Err e)
           | Panic \<Rightarrow> (drop_claim c claims, Err worker_failed))
      | (claims, Err e) \<Rightarrow> (claims, Err e)
      | (claims, Panic) \<Rightarrow> (claims, Err worker_failed))"

section \<open>The calls act on one database\<close>

lemma accept_publish_known:
  "accept_publish libs c v name req known =
     and_then (and_then (validate_name name) (\<lambda>_. and_then (PublishRequest_validate libs req) (\<lambda>_. check_open c))) (\<lambda>_.
     if known = None \<and> pr_database req = None then Err configuration_required
     else accept_state v req (case known of Some st \<Rightarrow> st | None \<Rightarrow> Database_new))"
  by (cases "validate_name name"; cases "PublishRequest_validate libs req") (simp_all add: accept_publish_def)

lemma accept_checks_no_panic:
  "and_then (validate_name name) (\<lambda>_. and_then (PublishRequest_validate libs req) (\<lambda>_. check_open c)) \<noteq> Panic"
  by (auto simp: validate_name_def PublishRequest_validate_def RequestLimits_validate_def duration_def Let_def
      validate_database_def check_open_def outcome_simps split: if_splits option.splits database_config.splits)

lemma accept_state_new: "pr_database req \<noteq> None \<Longrightarrow> accept_state v req Database_new = Ok (begin_operation v Publish Database_new)"
  by (simp add: accept_state_def Database_new_def)

lemma accept_state_no_panic: "accept_state v req st \<noteq> Panic"
  by (simp add: accept_state_def)

lemma set_database_simps [simp]:
  "bt_wf (rs_entries reg) \<Longrightarrow> map_of (rs_entries (set_database name st reg)) = (map_of (rs_entries reg))(name \<mapsto> st)"
  "bt_wf (rs_entries reg) \<Longrightarrow> bt_wf (rs_entries (set_database name st reg))"
  "rs_closed (set_database name st reg) = rs_closed reg"
  by (simp_all add: set_database_def)

lemma begin_found:
  "find_operation (begin_operation v kind st) \<lparr>oi_kind = kind, oi_value = v\<rparr>
     = Ok (the (st_current (begin_operation v kind st)))"
  by (simp add: find_operation_def begin_operation_def)

lemma registry_publish_cases:
  assumes wf: "bt_wf (rs_entries reg)"
  shows "case Registry_publish libs v name req reg of
     (reg', Ok i) \<Rightarrow> (\<exists>st op. accept_publish libs (rs_closed reg) v name req (map_of (rs_entries reg) name) = Ok st
        \<and> map_of (rs_entries reg') = (map_of (rs_entries reg))(name \<mapsto> st) \<and> bt_wf (rs_entries reg')
        \<and> Registry_operation reg' name i = Ok op \<and> op_outcome op = Running \<and> op_kind op = Publish)
   | (reg', Err e) \<Rightarrow> accept_publish libs (rs_closed reg) v name req (map_of (rs_entries reg) name) = Err e \<and> reg' = reg
   | (reg', Panic) \<Rightarrow> False"
proof -
  let ?c = "and_then (validate_name name) (\<lambda>_. and_then (PublishRequest_validate libs req) (\<lambda>_. check_open (rs_closed reg)))"
  let ?m = "map_of (rs_entries reg) name"
  consider (checks) e where "?c = Err e" | (required) "?c = Ok ()" "?m = None" "pr_database req = None"
    | (new) "?c = Ok ()" "?m = None" "pr_database req \<noteq> None" | (known) st where "?c = Ok ()" "?m = Some st"
    using accept_checks_no_panic[of name libs req "rs_closed reg"] by (cases ?c; cases ?m) auto
  then show ?thesis
  proof cases
    case known
    then show ?thesis
      by (cases "accept_state v req st")
        (use wf in \<open>auto simp: Registry_publish_def accept_publish_known entry_or_insert_def accept_state_no_panic accept_state_def
          Registry_operation_def registry_database_def begin_found begin_operation_def find_operation_def split: if_splits\<close>)
  qed (use wf in \<open>auto simp: Registry_publish_def accept_publish_known entry_or_insert_def accept_state_new
      Registry_operation_def registry_database_def begin_operation_def find_operation_def\<close>)
qed

text \<open> C31: Publishing through the registry is exactly the acceptance by the state of the named database (a new one if
  there is none): a refusal leaves the registry as it was, an acceptance changes that database only, and the
  returned identifier names a running operation.\<close>

theorem registry_publish_exact:
  assumes wf: "bt_wf (rs_entries reg)"
  shows "case Registry_publish libs v name req reg of
     (reg', Ok i) \<Rightarrow> (\<exists>st op. accept_publish libs (rs_closed reg) v name req (map_of (rs_entries reg) name) = Ok st
        \<and> map_of (rs_entries reg') = (map_of (rs_entries reg))(name \<mapsto> st) \<and> bt_wf (rs_entries reg')
        \<and> Registry_operation reg' name i = Ok op \<and> op_outcome op = Running \<and> op_kind op = Publish)
   | (reg', Err e) \<Rightarrow> accept_publish libs (rs_closed reg) v name req (map_of (rs_entries reg) name) = Err e \<and> reg' = reg
   | (reg', Panic) \<Rightarrow> False"
  by (rule registry_publish_cases[OF wf])

text \<open>Admission and the drop of the lifetime it hands out cancel out, and neither touches another database;
  a refused request changes nothing. So every request that was admitted and dropped leaves the registry as it
  found it, and the count of active requests is exact.\<close>

theorem admission_released:
  assumes "bt_wf (rs_entries reg)" and "Registry_admit name meth segs reg = (reg', r)"
  shows "case r of
      Ok ad \<Rightarrow> Registry_release name reg' = Ok reg \<and> (\<forall>n. n \<noteq> name \<longrightarrow> map_of (rs_entries reg') n = map_of (rs_entries reg) n)
        \<and> (\<exists>st. map_of (rs_entries reg) name = Some st \<and> st_phase st = Ready
            \<and> map_of (rs_entries reg') name = Some (st\<lparr>st_active := st_active st + 1\<rparr>))
    | _ \<Rightarrow> reg' = reg"
proof (cases r)
  case (Ok ad)
  then obtain st where st: "map_of (rs_entries reg) name = Some st" "st_phase st = Ready"
      "reg' = set_database name (st\<lparr>st_active := st_active st + 1\<rparr>) reg"
    using assms(2) by (auto simp: Registry_admit_def on_database_def registry_database_def admit_Ok outcome_simps
        split: outcome.splits prod.splits)
  have "Registry_release name reg' = Ok (set_database name st reg')"
    using st assms(1) by (simp add: Registry_release_def release_def)
  moreover have "set_database name st reg' = reg"
  proof -
    have "bt_insert name st (rs_entries reg') = rs_entries reg"
      by (rule bt_wf_unique) (use st assms(1) in \<open>auto simp: set_database_def\<close>)
    then show ?thesis using st(3) by (simp add: set_database_def)
  qed
  ultimately show ?thesis using Ok st assms(1) by simp
qed (use assms(2) in \<open>auto simp: Registry_admit_def on_database_def split: outcome.splits prod.splits\<close>)


text \<open>Restoring a workspace gives every listed name the state that its own calls lead to, whatever happens to the
  others, and no other name an entry.\<close>

theorem registry_open_independent:
  "map_of (rs_entries (Registry_open libs parse root calls names)) name
     = (if name \<in> set names then Some (open_database libs parse root name (calls name)) else None)"
proof -
  let ?f = "\<lambda>n. open_database libs parse root n (calls n)"
  have "rs_entries (Registry_open libs parse root calls names) = fold (\<lambda>(k, v). bt_insert k v) (map (\<lambda>n. (n, ?f n)) names) []"
    by (simp add: Registry_open_def fold_map comp_def)
  then have "map_of (rs_entries (Registry_open libs parse root calls names)) = map_of (rev (map (\<lambda>n. (n, ?f n)) names))"
    using bt.look_fold[OF bt.invar_empty] by simp
  also have "rev (map (\<lambda>n. (n, ?f n)) names) = map (\<lambda>n. (n, ?f n)) (rev names)" by (simp add: rev_map)
  finally show ?thesis by (simp add: map_of_map_restrict)
qed


section \<open>Shutdown\<close>

text \<open>An idle database of a closed registry stays as it is: nothing is accepted and no worker is left.\<close>

lemma closed_idle_no_step:
  assumes "db_step libs s s'" and "system_inv s" and "sy_closed s" and "is_idle (sy_db s)"
  shows False
  using assms
proof cases
  case (work ef)
  then have "sy_job s = Idle" using assms(2,4) by (simp add: is_idle_def idle_iff)
  then show ?thesis using work by (simp add: job_step_def)
qed (auto simp: is_idle_def admit_Ok begin_export_Ok accept_publish_Ok accept_unregister_Ok release_def split: if_splits)

lemma closed_idle_step:
  assumes "system_step libs s s'" and "system_inv s" and "sy_closed s" and "is_idle (sy_db s)" and "sy_closed s'"
  shows "is_idle (sy_db s')"
  using assms
proof cases
  case db
  then show ?thesis using closed_idle_no_step assms(2-4) by blast
qed (auto simp: is_idle_def retire_at_shutdown_def started_def)

text \<open>Once the registry is closed, a database that is idle stays idle through every further step of the
  process, so the shutdown worker retires a database only after its last operation and request.\<close>

theorem shutdown_stays_idle:
  assumes "reachable libs s" and "sy_closed s" and "is_idle (sy_db s)"
    and "(\<lambda>s s'. system_step libs s s' \<and> sy_closed s')\<^sup>*\<^sup>* s s'"
  shows "is_idle (sy_db s') \<and> sy_job s' = Idle"
proof -
  have "is_idle (sy_db s') \<and> sy_closed s' \<and> reachable libs s'" using assms(4)
  proof induction
    case (step t u)
    then show ?case using closed_idle_step[of libs t u] reachable_system_inv[of libs t] reachable_step[of libs t u] by blast
  qed (use assms in blast)
  then show ?thesis using idle_iff[OF reachable_system_inv, of libs s'] by (auto simp: is_idle_def)
qed

section \<open>Claims\<close>

text \<open>What happens to the claims of a process: files are opened as resources, and resources are dropped.\<close>

datatype 'h claim_event =
    Open_event "'h claim_calls" "unit result" "'h option"
  | Drop_event "'h claim"

primrec claim_run :: "'h claim_event \<Rightarrow> 'h claim list \<Rightarrow> 'h claim list" where
  "claim_run (Open_event calls opened after) claims = fst (open_turso_resources calls opened after claims)"
| "claim_run (Drop_event c) claims = drop_claim c claims"

definition claims_inv :: "'h claim list \<Rightarrow> bool" where
  "claims_inv claims \<longleftrightarrow> distinct (map cl_path (filter cl_alive claims)) \<and> distinct (map cl_handle (filter cl_alive claims))"

lemma alive_drop: "filter cl_alive (drop_claim c claims) = filter (\<lambda>d. cl_alive d \<and> d \<noteq> c) claims"
  by (induction claims) (auto simp: drop_claim_def)

lemma distinct_map_filter_mono:
  "distinct (map f (filter P xs)) \<Longrightarrow> (\<And>x. Q x \<Longrightarrow> P x) \<Longrightarrow> distinct (map f (filter Q xs))"
  by (induction xs) (auto split: if_splits)

lemma claims_inv_drop: "claims_inv claims \<Longrightarrow> claims_inv (drop_claim c claims)"
  unfolding claims_inv_def alive_drop by (auto intro: distinct_map_filter_mono)

lemma claims_inv_file: "claims_inv claims \<Longrightarrow> claims_inv (fst (claim_file calls claims))"
  by (auto simp: claim_file_def claims_inv_def Let_def split: option.split)

lemma claims_inv_open: "claims_inv claims \<Longrightarrow> claims_inv (fst (open_turso_resources calls opened after claims))"
  using claims_inv_file[of claims calls]
  by (auto simp: open_turso_resources_def intro: claims_inv_drop split: prod.split outcome.split)

interpretation claim_system: invariant_system "\<lambda>claims. claims = []" "\<lambda>claims claims'. \<exists>e. claims' = claim_run e claims" claims_inv
proof unfold_locales
  fix s t assume "\<exists>e. t = claim_run e s" "claims_inv s"
  then obtain e where "t = claim_run e s" "claims_inv s" by blast
  then show "claims_inv t" by (cases e) (auto intro: claims_inv_open claims_inv_drop)
qed (simp add: claims_inv_def)

text \<open> C35: Whatever files are opened and dropped, and however the calls end, no two live registrations of a process
  own the same path or the same file.\<close>

theorem claims_exclusive:
  "distinct (map cl_path (filter cl_alive (fold claim_run events [])))
    \<and> distinct (map cl_handle (filter cl_alive (fold claim_run events [])))"
proof -
  have "(\<lambda>claims claims'. \<exists>e. claims' = claim_run e claims)\<^sup>*\<^sup>* c (fold claim_run events c)" for c
  proof (induction events arbitrary: c)
    case (Cons e events)
    have "(\<lambda>claims claims'. \<exists>e. claims' = claim_run e claims) c (claim_run e c)" by blast
    from converse_rtranclp_into_rtranclp[where r = "\<lambda>claims claims'. \<exists>e. claims' = claim_run e claims", OF this Cons]
    show ?case by simp
  qed simp
  from claim_system.reachable_inv[OF _ this, of "[]"] show ?thesis by (simp add: claims_inv_def)
qed


section \<open>Admitted requests\<close>

lemma resolved_fields:
  assumes "from_files libs files b = Ok s" and "resolve s meth vs = Ok m" and "p \<in> set (e_parameters (me_endpoint m))"
    and "p_source p = ''path''"
  shows "p_fields p \<noteq> []"
proof (rule from_files_inv[OF assms(1)])
  fix P assume inv: "snapshot_inv P s"
  then show ?thesis
  proof (cases rule: resolve_cases[of P s meth vs])
    case (found e ps)
    then have "wf_endpoint e" using inv by (simp add: snapshot_inv_def)
    then show ?thesis using found(1) assms(2-4) by (auto simp: wf_endpoint_def)
  qed (use assms(2) in auto)
qed

lemma Registry_admit_Ok:
  assumes "Registry_admit name meth segs reg = (reg', Ok ad)"
  obtains st sn where "map_of (rs_entries reg) name = Some st" "st_phase st = Ready" "st_snapshot st = Some sn"
    "resolve sn meth segs = Ok (ad_matched ad)" "st_resources st = Some (ad_executor ad)"
proof -
  obtain st x where "map_of (rs_entries reg) name = Some st" "admit (rs_closed reg) st meth segs = Ok (ad, x)"
    using assms by (auto simp: Registry_admit_def on_database_def registry_database_def outcome_simps
        split: outcome.splits prod.splits)
  moreover from this obtain sn r and config :: configuration where "st_phase st = Ready" "st_snapshot st = Some sn" "st_resources st = Some r"
      "resolve sn meth segs = Ok (ad_matched ad)" "ad = \<lparr>ad_executor = r, ad_matched = ad_matched ad, ad_limits = cf_limits config\<rparr>"
    unfolding admit_Ok by blast
  moreover from this have "ad_executor ad = r" by (metis admitted.select_convs(1))
  ultimately show ?thesis using that by blast
qed

text \<open> C33: A request that was admitted on a loaded interface carries, for every path parameter of its endpoint, the
  non-empty segment of the URL at the place the route names, and that text is what the parameter reads: a path
  parameter of an admitted request is never missing.\<close>

theorem admitted_paths_read:
  assumes "Registry_admit name meth segs reg = (reg', Ok ad)"
    and "\<exists>st s. map_of (rs_entries reg) name = Some st \<and> st_snapshot st = Some s \<and> from_files libs files b = Ok s"
    and "p \<in> set (e_parameters (me_endpoint (ad_matched ad)))" and "p_source p = ''path''"
  shows "\<exists>k v. k < length segs \<and> segs ! k = v \<and> v \<noteq> [] \<and> e_segments (me_endpoint (ad_matched ad)) ! k = Dynamic (hd (p_fields p))
    \<and> Parameter_read plibs p (i\<lparr>in_path := me_path_parameters (ad_matched ad)\<rparr>)
        = read_text plibs (Parameter_path p) (p_ty p) v"
proof -
  obtain st s where s: "from_files libs files b = Ok s" "resolve s meth segs = Ok (ad_matched ad)"
    using Registry_admit_Ok[OF assms(1)] assms(2) by (metis option.inject)
  from resolve_binds_path_parameters[OF s assms(3,4)] obtain k v
    where kv: "map_of (me_path_parameters (ad_matched ad)) (hd (p_fields p)) = Some v" "k < length segs" "v = segs ! k"
      "e_segments (me_endpoint (ad_matched ad)) ! k = Dynamic (hd (p_fields p))" "v \<noteq> []" by blast
  moreover obtain f fs where "p_fields p = f # fs"
    using resolved_fields[OF s assms(3,4)] by (cases "p_fields p") auto
  ultimately have "Parameter_read plibs p (i\<lparr>in_path := me_path_parameters (ad_matched ad)\<rparr>)
      = read_text plibs (Parameter_path p) (p_ty p) v"
    using assms(4) by (simp add: Parameter_read_def Let_def)
  then show ?thesis using kv by blast
qed


section \<open>Witnesses\<close>

theorem registry_publish_exact_witness:
  "\<exists>reg' i op. Registry_publish ws_libs 7 ''app'' pub_request (\<lparr>rs_entries = [], rs_closed = False\<rparr> :: unit registry) = (reg', Ok i)
     \<and> Registry_operation reg' ''app'' i = Ok op \<and> op_outcome op = Running"
proof -
  let ?reg = "\<lparr>rs_entries = [], rs_closed = False\<rparr> :: unit registry"
  obtain reg' i where p: "Registry_publish ws_libs 7 ''app'' pub_request ?reg = (reg', Ok i)"
    by (simp add: Registry_publish_def validate_name_def migration_name_char_def ascii_defs PublishRequest_validate_def
        pub_request_def pub_limits validate_database_def check_open_def entry_or_insert_def accept_state_def Database_new_def)
  have "bt_wf (rs_entries ?reg)" by simp
  from registry_publish_exact[OF this, of ws_libs 7 "''app''" pub_request] p show ?thesis by auto
qed

text \<open>A served database with the routes of the demonstration interface.\<close>

definition api_registry :: "snapshot \<Rightarrow> unit registry" where
  "api_registry s = \<lparr>rs_entries = [(''app'', (sy_db (pub_at 26))\<lparr>st_snapshot := Some s\<rparr>)], rs_closed = False\<rparr>"

lemma api_admitted:
  obtains s reg' ad where "from_files demo_libs demo_files Turso = Ok s"
    "Registry_admit ''app'' ''DELETE'' [''7''] (api_registry s) = (reg', Ok ad)"
    "e_parameters (me_endpoint (ad_matched ad)) = [demo_id]"
proof (rule demo_snapshot)
  fix s e e'
  assume s: "from_files demo_libs demo_files Turso = Ok s" and es: "sn_endpoints s = [e, e']"
    and e: "e_method e = ''get''" "e_path e = ''/new''" "e_segments e = [Static ''new'']"
    and e': "e_method e' = ''delete''" "e_path e' = ''/{id}''" "e_segments e' = [Dynamic ''id'']" "e_parameters e' = [demo_id]"
  obtain config where c: "st_config (sy_db (pub_at 26)) = Some config" using pub_served by blast
  have r: "resolve s ''DELETE'' [''7''] = Ok \<lparr>me_endpoint = e', me_path_parameters = [(''id'', ''7'')]\<rparr>"
    using es e e' demo_methods by (simp add: resolve_def captures_def)
  obtain reg' ad where a: "Registry_admit ''app'' ''DELETE'' [''7''] (api_registry s) = (reg', Ok ad)"
      "ad_matched ad = \<lparr>me_endpoint = e', me_path_parameters = [(''id'', ''7'')]\<rparr>"
    using pub_served c r by (simp add: Registry_admit_def on_database_def api_registry_def
        registry_database_def admit_def check_open_def)
  then show ?thesis using that[OF s a(1)] e' by simp
qed

theorem admission_released_witness:
  "\<exists>s reg' ad. Registry_admit ''app'' ''DELETE'' [''7''] (api_registry s) = (reg', Ok ad) \<and> Registry_release ''app'' reg' = Ok (api_registry s)"
proof (rule api_admitted)
  fix s reg' ad assume a: "Registry_admit ''app'' ''DELETE'' [''7''] (api_registry s) = (reg', Ok ad)"
  have "bt_wf (rs_entries (api_registry s))" by (simp add: api_registry_def)
  from admission_released[OF this a] a show ?thesis by auto
qed

theorem admitted_paths_read_witness:
  "\<exists>s reg' ad v. Registry_admit ''app'' ''DELETE'' [''7''] (api_registry s) = (reg', Ok ad) \<and> v \<noteq> []
     \<and> Parameter_read counter_params_libs demo_id (example_input\<lparr>in_path := me_path_parameters (ad_matched ad)\<rparr>)
        = read_text counter_params_libs ''path.id'' Int64_T v"
proof (rule api_admitted)
  fix s reg' ad assume s: "from_files demo_libs demo_files Turso = Ok s"
    and a: "Registry_admit ''app'' ''DELETE'' [''7''] (api_registry s) = (reg', Ok ad)"
    and p: "e_parameters (me_endpoint (ad_matched ad)) = [demo_id]"
  have "\<exists>st sn. map_of (rs_entries (api_registry s)) ''app'' = Some st \<and> st_snapshot st = Some sn \<and> from_files demo_libs demo_files Turso = Ok sn"
    using s by (simp add: api_registry_def)
  moreover have "demo_id \<in> set (e_parameters (me_endpoint (ad_matched ad)))" "p_source demo_id = ''path''"
    using p by (simp_all add: demo_id_def)
  ultimately show ?thesis
    using admitted_paths_read[OF a, of demo_libs demo_files Turso demo_id counter_params_libs example_input] a
    by (auto simp: demo_id_def Parameter_path_def)
qed

theorem shutdown_stays_idle_witness: "is_idle (sy_db (((pub_at 26)\<lparr>sy_closed := True\<rparr>)\<lparr>sy_db := retire_at_shutdown (sy_db (pub_at 26))\<rparr>))"
proof -
  let ?s = "(pub_at 26)\<lparr>sy_closed := True\<rparr>"
  have r: "reachable pub_libs ?s" by (rule reachable_step[OF pub_at_reachable system_step.close])
  have i: "is_idle (sy_db ?s)"
    using pub_served system_active[OF reachable_system_inv[OF pub_at_reachable, of 26]] by (simp add: is_idle_def)
  have "system_step pub_libs ?s (?s\<lparr>sy_db := retire_at_shutdown (sy_db ?s)\<rparr>)"
    by (rule system_step.retire) (use i in \<open>simp_all add: is_idle_def\<close>)
  then have "(\<lambda>s s'. system_step pub_libs s s' \<and> sy_closed s')\<^sup>*\<^sup>* ?s (?s\<lparr>sy_db := retire_at_shutdown (sy_db ?s)\<rparr>)"
    by (intro r_into_rtranclp) simp
  from shutdown_stays_idle[OF r _ i this] show ?thesis by simp
qed

end
