(* ===== verification/Http.thy ===== *)
theory Http
  imports Registry_Api
begin

text \<open>
  \<^verbatim>\<open>src/http.rs\<close>: the routing of data and management requests, the life of one request from its
  path to its response, and the end of the server. The HTTP library, \<open>serde_json\<close> and percent
  decoding are parameters; the environment says how each \<open>select!\<close> ends. A request runs alone here:
  its interleaving with others is the subject of \<open>Publication_Safety\<close>.
\<close>

section \<open>Errors and responses\<close>

definition not_found :: sqlrest_error where
  "not_found = new_error 404 ''route_not_found'' ''No matching route''"

definition http_method_not_allowed :: "string \<Rightarrow> sqlrest_error" where
  "http_method_not_allowed allowed =
     with_allowed_methods allowed (new_error 405 ''method_not_allowed'' ''Method not defined for this route'')"

definition invalid_path :: sqlrest_error where
  "invalid_path = new_error 400 ''invalid_path'' ''Invalid request path encoding''"

definition invalid_configuration :: sqlrest_error where
  "invalid_configuration = new_error 400 ''invalid_configuration'' ''Invalid publish configuration''"

definition invalid_body :: sqlrest_error where
  "invalid_body = new_error 400 ''invalid_body'' ''Cannot read request body''"

definition invalid_management_query :: sqlrest_error where
  "invalid_management_query = new_error 400 ''invalid_query'' ''Unsupported management query parameter''"

definition unsupported_media_type :: sqlrest_error where
  "unsupported_media_type = new_error 415 ''unsupported_media_type'' ''Expected application/json''"

definition server_failed :: sqlrest_error where
  "server_failed = new_error 500 ''server_failed'' ''HTTP server operation failed''"

record http_response =
  hr_status :: nat
  hr_body :: string
  hr_content_type :: string
  hr_length :: nat
  hr_allow :: "string option"

definition bytes_response :: "nat \<Rightarrow> string \<Rightarrow> http_response" where
  "bytes_response status bytes = \<lparr>hr_status = status, hr_body = bytes, hr_content_type = ''application/json'',
     hr_length = length bytes, hr_allow = None\<rparr>"

text \<open>\<open>StatusCode::from_u16\<close> and \<open>HeaderValue::from_str\<close>.\<close>

definition status_code :: "16 word \<Rightarrow> nat" where
  "status_code s = (if 100 \<le> unat s \<and> unat s < 1000 then unat s else 500)"

definition header_char :: "char \<Rightarrow> bool" where
  "header_char c \<longleftrightarrow> (32 \<le> (of_char c :: nat) \<and> (of_char c :: nat) \<noteq> 127) \<or> of_char c = (9 :: nat)"

definition header_value :: "string \<Rightarrow> string option" where
  "header_value s = (if list_all header_char s then Some s else None)"

text \<open>The derived serializer of an error: only its code, message and parameter.\<close>

definition error_json :: "sqlrest_error \<Rightarrow> json" where
  "error_json e = json_obj
     ([(''code'', JString (err_code e)), (''message'', JString (err_message e))]
      @ (case err_parameter e of Some p \<Rightarrow> [(''parameter'', JString p)] | None \<Rightarrow> []))"

definition error_response :: "(json \<Rightarrow> string option) \<Rightarrow> sqlrest_error \<Rightarrow> http_response result" where
  "error_response to_vec e =
     map_ok (\<lambda>bytes. (bytes_response (status_code (err_status e)) bytes)
       \<lparr>hr_allow := Option.bind (err_allowed_methods e) header_value\<rparr>)
       (unwrap (to_vec (json_obj [(''error'', error_json e)])))"

definition head_response :: "string \<Rightarrow> http_response \<Rightarrow> http_response" where
  "head_response meth r = (if meth = ''HEAD'' then r\<lparr>hr_body := []\<rparr> else r)"

text \<open>The two handlers around a request: an error becomes a response.\<close>

definition handled :: "(json \<Rightarrow> string option) \<Rightarrow> string \<Rightarrow> http_response result \<Rightarrow> http_response result" where
  "handled to_vec meth r =
     map_ok (head_response meth) (case r of Err e \<Rightarrow> error_response to_vec e | _ \<Rightarrow> r)"


section \<open>Paths and headers\<close>

definition path_segment :: "(string \<Rightarrow> string option) \<Rightarrow> string \<Rightarrow> string list \<Rightarrow> string list result" where
  "path_segment decode segment segments =
     (if \<not> percent_ok segment then Err invalid_path
      else
        and_then (ok_or invalid_path (decode segment)) (\<lambda>decoded.
        if CHR ''/'' \<in> set decoded then Err invalid_path else Ok (segments @ [decoded])))"

definition http_path :: "(string \<Rightarrow> string option) \<Rightarrow> string \<Rightarrow> string list result" where
  "http_path decode p =
     and_then (ok_or not_found (strip_prefix ''/'' p)) (\<lambda>raw.
     and_then (try_fold (path_segment decode) (split_on CHR ''/'' raw) []) (\<lambda>segments.
     Ok (if length segments = 3 \<and> segments ! 2 = [] then butlast segments else segments)))"

definition valid_name :: "string \<Rightarrow> bool" where
  "valid_name name \<longleftrightarrow> name \<noteq> [] \<and> list_all (\<lambda>b. is_ascii_alphanumeric b \<or> b = CHR ''_'' \<or> b = CHR ''-'') name"

text \<open>\<open>content_type\<close> holds the bytes of the first header of that name; \<open>to_str\<close> wants visible ASCII.\<close>

definition to_str :: "string \<Rightarrow> string option" where
  "to_str s = (if list_all (\<lambda>c. (32 \<le> (of_char c :: nat) \<and> (of_char c :: nat) < 127) \<or> of_char c = (9 :: nat)) s then Some s else None)"

definition require_json :: "string option \<Rightarrow> unit result" where
  "require_json content_type =
     (case Option.bind content_type to_str of
        Some v \<Rightarrow>
          if eq_ignore_ascii_case (trim (hd (split_on CHR '';'' v))) ''application/json'' then Ok ()
          else Err unsupported_media_type
      | None \<Rightarrow> Err unsupported_media_type)"


section \<open>Data requests\<close>

record http_request =
  rq_method :: string
  rq_path :: string
  rq_query :: "string option"
  rq_content_type :: "string option"
  rq_body :: "string option"

text \<open>How a \<open>select!\<close> ends: the server stops, the deadline passes, or the awaited call is done.\<close>

datatype select_end = Stopped | Timed_out | Completed

text \<open>
  \<open>he_joined\<close> says that a spawned blocking task did not panic; \<open>he_fresh\<close> is the value of a new
  operation identifier.
\<close>

record http_env =
  he_body :: select_end
  he_parse :: select_end
  he_joined :: bool
  he_fresh :: "128 word"

record ('r, 's) http_world =
  hw_registry :: "'r registry"
  hw_exec :: "'s world"

definition on_exec :: "('s world, 'a) action \<Rightarrow> (('r, 's) http_world, 'a) action" where
  "on_exec f hw = (case f (hw_exec hw) of (w, r) \<Rightarrow> (hw\<lparr>hw_exec := w\<rparr>, r))"

definition on_registry :: "('r registry \<Rightarrow> 'r registry \<times> 'a result) \<Rightarrow> (('r, 's) http_world, 'a) action" where
  "on_registry f hw = (case f (hw_registry hw) of (reg, r) \<Rightarrow> (hw\<lparr>hw_registry := reg\<rparr>, r))"

text \<open>The drop of the lifetime of a request, whatever the outcome of the request.\<close>

definition dropping :: "string \<Rightarrow> (('r, 's) http_world, 'a) action \<Rightarrow> (('r, 's) http_world, 'a) action" where
  "dropping name f =
     attempt f (\<lambda>r. attempt (on_registry (\<lambda>reg. case Registry_release name reg of
         Ok reg' \<Rightarrow> (reg', Ok ()) | _ \<Rightarrow> (reg, Panic))) (\<lambda>d. lift (if d = Panic then Panic else r)))"

definition selected :: "select_end \<Rightarrow> 'a result \<Rightarrow> 'a result" where
  "selected s r = (case s of Stopped \<Rightarrow> Err shutting_down | Timed_out \<Rightarrow> Err timeout_error | Completed \<Rightarrow> r)"

text \<open>The outcome of a spawned blocking task: a panic is a failed join.\<close>

definition spawned :: "http_env \<Rightarrow> 'a result \<Rightarrow> 'a result" where
  "spawned henv r = (if he_joined henv \<and> r \<noteq> Panic then r else Err server_failed)"

definition read_body :: "http_request \<Rightarrow> string result" where
  "read_body req = ok_or invalid_body (rq_body req)"

definition text_or_empty :: "string option \<Rightarrow> string" where
  "text_or_empty s = (case s of Some s \<Rightarrow> s | None \<Rightarrow> [])"

text \<open>The body is read, its type checked and the input parsed, all under the deadline of the request.\<close>

definition data_input :: "http_env \<Rightarrow> params_libs \<Rightarrow> http_request \<Rightarrow> input result" where
  "data_input henv plibs req =
     and_then (selected (he_body henv) (read_body req)) (\<lambda>bytes.
     and_then (if bytes \<noteq> [] then require_json (rq_content_type req) else Ok ()) (\<lambda>_.
     selected (he_parse henv)
       (spawned henv (Input_from_http plibs (text_or_empty (rq_query req)) bytes))))"

text \<open>The request after admission.\<close>

definition data_work ::
  "worker_fate \<Rightarrow> nat \<Rightarrow> params_libs \<Rightarrow> request_libs \<Rightarrow> env \<Rightarrow> http_env \<Rightarrow> http_request \<Rightarrow> ('s, 't, 'p) database admitted
     \<Rightarrow> ('s world, http_response) action" where
  "data_work fate fuel plibs libs env henv req ad =
     seq (now env) (\<lambda>t.
     if env_limit env < t + lim_timeout (ad_limits ad) then lift Panic
     else
       let deadline = t + lim_timeout (ad_limits ad) in
       seq (lift (data_input henv plibs req)) (\<lambda>i.
       seq (now env) (\<lambda>t.
       if \<not> t < deadline then fail timeout_error
       else
         seq (admitted_execute fate fuel plibs libs env ad i (Some (deadline - t))) (\<lambda>bytes.
         ret (bytes_response 200 bytes)))))"

definition data_route :: "string list \<Rightarrow> (string \<times> string list) result" where
  "data_route segments =
     (case segments of
        pre # name # route \<Rightarrow> if pre = ''db'' \<and> valid_name name then Ok (name, route) else Err not_found
      | _ \<Rightarrow> Err not_found)"

definition data_request ::
  "worker_fate \<Rightarrow> nat \<Rightarrow> params_libs \<Rightarrow> request_libs \<Rightarrow> env \<Rightarrow> http_env \<Rightarrow> http_request
     \<Rightarrow> ((('s, 't, 'p) database, 's) http_world, http_response) action" where
  "data_request fate fuel plibs libs env henv req =
     seq (lift (http_path (lib_percent_decode plibs) (rq_path req))) (\<lambda>segments.
     seq (lift (data_route segments)) (\<lambda>(name, route).
     seq (on_registry (Registry_admit name (rq_method req) route)) (\<lambda>ad.
     dropping name (on_exec (data_work fate fuel plibs libs env henv req ad)))))"

text \<open>\<open>Registry::execute\<close>, the same without HTTP.\<close>

definition Registry_execute ::
  "worker_fate \<Rightarrow> nat \<Rightarrow> params_libs \<Rightarrow> request_libs \<Rightarrow> env \<Rightarrow> string \<Rightarrow> string \<Rightarrow> string list \<Rightarrow> input
     \<Rightarrow> ((('s, 't, 'p) database, 's) http_world, string) action" where
  "Registry_execute fate fuel plibs libs env name meth segs i =
     seq (on_registry (Registry_admit name meth segs)) (\<lambda>ad.
     dropping name (on_exec (admitted_execute fate fuel plibs libs env ad i None)))"

definition data_handler ::
  "(json \<Rightarrow> string option) \<Rightarrow> worker_fate \<Rightarrow> nat \<Rightarrow> params_libs \<Rightarrow> request_libs \<Rightarrow> env \<Rightarrow> http_env \<Rightarrow> http_request
     \<Rightarrow> ((('s, 't, 'p) database, 's) http_world, http_response) action" where
  "data_handler to_vec fate fuel plibs libs env henv req =
     attempt (data_request fate fuel plibs libs env henv req) (\<lambda>r. lift (handled to_vec (rq_method req) r))"

section \<open>Management requests\<close>

text \<open>What a response serializes.\<close>

datatype payload =
    Statuses_payload "(string \<times> db_status) list"
  | Status_payload db_status
  | Accepted_payload operation_id
  | Openapi_payload json
  | Migrations_payload "applied_migration list"
  | Operation_payload operation

text \<open>
  \<open>hl_payload\<close> and \<open>hl_error\<close> are \<open>serde_json::to_vec\<close>, \<open>hl_publish\<close> is \<open>from_slice::<PublishRequest>\<close>.
\<close>

record http_libs =
  hl_payload :: "payload \<Rightarrow> string option"
  hl_error :: "json \<Rightarrow> string option"
  hl_publish :: "string \<Rightarrow> publish_request option"
  hl_workspace :: workspace_libs
  hl_params :: params_libs
  hl_request :: request_libs
  hl_migration :: migration_libs

definition json_response :: "http_libs \<Rightarrow> nat \<Rightarrow> payload \<Rightarrow> http_response result" where
  "json_response libs status v = map_ok (bytes_response status) (ok_or server_failed (hl_payload libs v))"

definition accepted :: "http_libs \<Rightarrow> operation_id \<Rightarrow> http_response result" where
  "accepted libs i = json_response libs 202 (Accepted_payload i)"

definition stoppable :: "select_end \<Rightarrow> 'a result \<Rightarrow> 'a result" where
  "stoppable s r = (if s = Stopped then Err shutting_down else r)"

definition publish_config :: "http_libs \<Rightarrow> http_env \<Rightarrow> http_request \<Rightarrow> publish_request result" where
  "publish_config libs henv req =
     and_then (require_json (rq_content_type req)) (\<lambda>_.
     and_then (stoppable (he_body henv) (read_body req)) (\<lambda>bytes.
     stoppable (he_parse henv) (spawned henv (ok_or invalid_configuration (hl_publish libs bytes)))))"

definition EXPORT_TIMEOUT :: nat where
  "EXPORT_TIMEOUT = 60000000000"

text \<open>The rest of \<open>export_migrations\<close> after its acceptance.\<close>

definition export_migrations ::
  "worker_fate \<Rightarrow> nat \<Rightarrow> http_libs \<Rightarrow> env \<Rightarrow> string
     \<Rightarrow> ((('s, 't, 'p) database, 's) http_world, applied_migration list) action" where
  "export_migrations fate fuel libs env name =
     seq (on_registry (Registry_export name)) (\<lambda>(db, b).
     dropping name (on_exec (joined worker_failed (migrator_history env (hl_migration libs)
       \<lparr>mg_execute = execute_tracked db fate fuel (hl_params libs) (hl_request libs) env, mg_backend = b,
        mg_timeout = EXPORT_TIMEOUT\<rparr>))))"

definition management_route :: "string list \<Rightarrow> (string \<times> string list) result" where
  "management_route segments =
     (case segments of
        pre # name # tail \<Rightarrow> if pre = ''databases'' \<and> valid_name name then Ok (name, tail) else Err not_found
      | _ \<Rightarrow> Err not_found)"

definition query_allowed :: "string list \<Rightarrow> (string \<times> string) list \<Rightarrow> bool" where
  "query_allowed tail query \<longleftrightarrow> query = [] \<or> (tail = [''openapi''] \<and> length query = 1 \<and> map_of query ''server_url'' \<noteq> None)"

definition management_call ::
  "worker_fate \<Rightarrow> nat \<Rightarrow> http_libs \<Rightarrow> env \<Rightarrow> http_env \<Rightarrow> http_request \<Rightarrow> string \<Rightarrow> string list \<Rightarrow> (string \<times> string) list
     \<Rightarrow> ((('s, 't, 'p) database, 's) http_world, http_response) action" where
  "management_call fate fuel libs env henv req name tail query =
     (let meth = rq_method req in
      if meth = ''POST'' \<and> tail = [''publish''] then
        seq (lift (publish_config libs henv req)) (\<lambda>config.
        seq (on_registry (Registry_publish (hl_workspace libs) (he_fresh henv) name config)) (\<lambda>i. lift (accepted libs i)))
      else if meth = ''GET'' \<and> tail = [] then
        (\<lambda>hw. (hw, and_then (Registry_status (hw_registry hw) name) (\<lambda>s. json_response libs 200 (Status_payload s))))
      else if meth = ''DELETE'' \<and> tail = [] then
        seq (on_registry (Registry_unregister (he_fresh henv) name)) (\<lambda>i. lift (accepted libs i))
      else if meth = ''GET'' \<and> tail = [''openapi''] then
        (\<lambda>hw. (hw, spawned henv (and_then (Registry_openapi (hw_registry hw) name
            (case map_of query ''server_url'' of Some u \<Rightarrow> u | None \<Rightarrow> ''/db/'' @ name))
          (\<lambda>doc. json_response libs 200 (Openapi_payload doc)))))
      else if meth = ''GET'' \<and> tail = [''migrations''] then
        seq (export_migrations fate fuel libs env name) (\<lambda>records.
        lift (spawned henv (json_response libs 200 (Migrations_payload records))))
      else if meth = ''GET'' \<and> length tail = 2 \<and> hd tail = ''operations'' then
        (\<lambda>hw. (hw, and_then (OperationId_from_str (tail ! 1)) (\<lambda>i.
           and_then (Registry_operation (hw_registry hw) name i) (\<lambda>op. json_response libs 200 (Operation_payload op)))))
      else if tail = [] then fail (http_method_not_allowed ''DELETE, GET'')
      else if length tail = 1 \<and> hd tail \<in> {''publish'', ''openapi'', ''migrations''} then
        fail (http_method_not_allowed (if hd tail = ''publish'' then ''POST'' else ''GET''))
      else if length tail = 2 \<and> hd tail = ''operations'' then fail (http_method_not_allowed ''GET'')
      else fail not_found)"

definition management_request ::
  "worker_fate \<Rightarrow> nat \<Rightarrow> http_libs \<Rightarrow> env \<Rightarrow> http_env \<Rightarrow> http_request
     \<Rightarrow> ((('s, 't, 'p) database, 's) http_world, http_response) action" where
  "management_request fate fuel libs env henv req =
     seq (lift (http_path (lib_percent_decode (hl_params libs)) (rq_path req))) (\<lambda>segments.
     if segments = [''databases''] then
       (if rq_method req \<noteq> ''GET'' then fail (http_method_not_allowed ''GET'')
        else if text_or_empty (rq_query req) \<noteq> [] then fail invalid_management_query
        else (\<lambda>hw. (hw, json_response libs 200 (Statuses_payload (Registry_statuses (hw_registry hw))))))
     else
       seq (lift (management_route segments)) (\<lambda>(name, tail).
       seq (lift (map_ok in_query (Input_from_http (hl_params libs) (text_or_empty (rq_query req)) []))) (\<lambda>query.
       if \<not> query_allowed tail query then fail invalid_management_query
       else management_call fate fuel libs env henv req name tail query)))"

definition management_handler ::
  "worker_fate \<Rightarrow> nat \<Rightarrow> http_libs \<Rightarrow> env \<Rightarrow> http_env \<Rightarrow> http_request
     \<Rightarrow> ((('s, 't, 'p) database, 's) http_world, http_response) action" where
  "management_handler fate fuel libs env henv req =
     attempt (management_request fate fuel libs env henv req) (\<lambda>r. lift (handled (hl_error libs) (rq_method req) r))"


section \<open>The server\<close>

text \<open>
  The end of \<open>serve\<close>: \<open>signalled\<close> says that the shutdown future won the \<open>select!\<close> and not a listener that
  ended; \<open>ended\<close> are the outcomes of the listeners joined afterwards, \<open>core\<close> is the outcome of the
  registry's shutdown.
\<close>

definition serve_end :: "bool \<Rightarrow> bool list \<Rightarrow> unit result \<Rightarrow> 'r registry \<Rightarrow> 'r registry \<times> unit result" where
  "serve_end signalled ended core reg =
     (let failure = (if signalled then None else Some server_failed);
          reg = fst (start_shutdown reg);
          http = (if list_all id ended then Ok () else Err server_failed) in
      (reg, and_then core (\<lambda>_. and_then http (\<lambda>_. case failure of None \<Rightarrow> Ok () | Some e \<Rightarrow> Err e))))"

section \<open>Paths\<close>

lemma path_segments_fold:
  "try_fold (path_segment decode) raw acc = Ok segs \<longleftrightarrow>
     (\<exists>ds. segs = acc @ ds \<and> list_all2 (\<lambda>s d. percent_ok s \<and> decode s = Some d \<and> CHR ''/'' \<notin> set d) raw ds)"
proof (induction raw arbitrary: acc)
  case (Cons s raw)
  have "try_fold (path_segment decode) (s # raw) acc = Ok segs \<longleftrightarrow>
      (\<exists>d. percent_ok s \<and> decode s = Some d \<and> CHR ''/'' \<notin> set d \<and> try_fold (path_segment decode) raw (acc @ [d]) = Ok segs)"
    by (auto simp: path_segment_def outcome_simps)
  then show ?case using Cons by (auto simp: list_all2_Cons1)
qed auto

text \<open>A path is accepted exactly when it starts with a slash and each of its segments is well-formed percent
  encoding of UTF-8 without a slash; the routed segments are the decoded ones, one for one, except that the
  empty third segment of a database's root is dropped. So an encoded slash never makes a segment boundary, and
  both spellings of a database's root are the same request.\<close>

theorem http_path_exact:
  "http_path decode p = Ok segs \<longleftrightarrow>
     (\<exists>raw ds. p = ''/'' @ join ''/'' raw \<and> raw \<noteq> [] \<and> list_all (\<lambda>s. CHR ''/'' \<notin> set s) raw
        \<and> list_all2 (\<lambda>s d. percent_ok s \<and> decode s = Some d \<and> CHR ''/'' \<notin> set d) raw ds
        \<and> segs = (if length ds = 3 \<and> ds ! 2 = [] then butlast ds else ds))"
  (is "_ \<longleftrightarrow> (\<exists>raw ds. ?P raw ds)")
proof
  assume "http_path decode p = Ok segs"
  then obtain raw ds where "p = ''/'' @ raw" "try_fold (path_segment decode) (split_on CHR ''/'' raw) [] = Ok ds"
      "segs = (if length ds = 3 \<and> ds ! 2 = [] then butlast ds else ds)"
    by (auto simp: http_path_def outcome_simps strip_prefix_iff)
  then have "?P (split_on CHR ''/'' raw) ds"
    using split_on_no_sep[of _ "CHR ''/''" raw] by (auto simp: path_segments_fold list_all_iff)
  then show "\<exists>raw ds. ?P raw ds" by blast
next
  assume "\<exists>raw ds. ?P raw ds"
  then obtain raw ds where p: "?P raw ds" by blast
  then have "split_on CHR ''/'' (join ''/'' raw) = raw" by (intro split_on_join) (auto simp: list_all_iff)
  moreover have "try_fold (path_segment decode) raw [] = Ok ds" using p by (simp add: path_segments_fold)
  ultimately show "http_path decode p = Ok segs"
    using p by (simp add: http_path_def strip_prefix_def starts_with_def)
qed

section \<open>Data requests\<close>

lemma on_exec_simp: "on_exec f hw = (hw\<lparr>hw_exec := fst (f (hw_exec hw))\<rparr>, snd (f (hw_exec hw)))"
  by (simp add: on_exec_def split: prod.split)

lemma dropping_release:
  assumes "f hw = (hw1, r)" and "Registry_release name (hw_registry hw1) = Ok reg"
  shows "dropping name f hw = (hw1\<lparr>hw_registry := reg\<rparr>, r)"
  using assms by (simp add: dropping_def attempt_def on_registry_def lift_def)

text \<open>Work between an admission and the drop of its lifetime: refused with nothing changed, or done.\<close>

lemma admitted_work:
  assumes wf: "bt_wf (rs_entries (hw_registry hw))"
    and run: "seq (on_registry (Registry_admit name meth segs)) (\<lambda>ad. dropping name (on_exec (work ad))) hw = (hw', r)"
  obtains (refused) "hw' = hw" "\<not> is_ok r"
  | (admitted) reg ad where "Registry_admit name meth segs (hw_registry hw) = (reg, Ok ad)"
      "hw_registry hw' = hw_registry hw" "work ad (hw_exec hw) = (hw_exec hw', r)"
proof -
  obtain reg x where a: "Registry_admit name meth segs (hw_registry hw) = (reg, x)" by force
  note rel = admission_released[OF wf a]
  show ?thesis
  proof (cases x)
    case (Ok ad)
    let ?hw = "hw\<lparr>hw_registry := reg\<rparr>"
    obtain w' r' where w: "work ad (hw_exec hw) = (w', r')" by force
    have "on_exec (work ad) ?hw = (?hw\<lparr>hw_exec := w'\<rparr>, r')" using w by (simp add: on_exec_simp)
    from dropping_release[where f = "on_exec (work ad)" and hw = ?hw, OF this, of name "hw_registry hw"]
    have "(hw', r) = (?hw\<lparr>hw_exec := w', hw_registry := hw_registry hw\<rparr>, r')"
      using run a Ok rel by (simp add: seq_def on_registry_def)
    then show ?thesis using admitted a Ok w by simp
  qed (use refused run a rel in \<open>auto simp: seq_def on_registry_def\<close>)
qed

text \<open>A data request is refused before admission with nothing changed, or works between an admission and its release.\<close>

lemma data_request_stages:
  assumes "bt_wf (rs_entries (hw_registry hw))" and "data_request fate fuel plibs libs env henv req hw = (hw', r)"
  obtains (refused) "hw' = hw" "\<not> is_ok r"
  | (admitted) name route reg ad where "Registry_admit name (rq_method req) route (hw_registry hw) = (reg, Ok ad)"
      "hw_registry hw' = hw_registry hw" "data_work fate fuel plibs libs env henv req ad (hw_exec hw) = (hw_exec hw', r)"
proof (cases "and_then (http_path (lib_percent_decode plibs) (rq_path req)) data_route")
  case (Ok nr)
  then obtain segs name route where segs: "http_path (lib_percent_decode plibs) (rq_path req) = Ok segs" "data_route segs = Ok (name, route)"
    by (cases nr) (auto simp: outcome_simps)
  then have "seq (on_registry (Registry_admit name (rq_method req) route)) (\<lambda>ad.
        dropping name (on_exec (data_work fate fuel plibs libs env henv req ad))) hw = (hw', r)"
    using assms(2) by (simp add: data_request_def seq_def[of "lift _"] lift_def)
  from assms(1) this show ?thesis by (cases rule: admitted_work) (auto intro: refused admitted)
next
  case (Err e)
  then show ?thesis using refused assms(2) by (auto simp: data_request_def seq_def lift_def outcome_simps split: outcome.splits)
next
  case Panic
  then show ?thesis using refused assms(2) by (auto simp: data_request_def seq_def lift_def outcome_simps split: outcome.splits)
qed

text \<open>The work of an admitted request: the executor runs once, or the database is not reached.\<close>

lemma data_work_stages:
  assumes "data_work fate fuel plibs libs env henv req ad w = (w', r)"
  obtains (unreached) "w_db w' = w_db w" "\<not> is_ok r"
  | (executed) i budget w1 x where "w_db w1 = w_db w"
      "data_input henv plibs req = Ok i" "admitted_execute fate fuel plibs libs env ad i (Some budget) w1 = (w', x)"
      "r = map_ok (bytes_response 200) x"
proof -
  let ?dl = "env_now env (w_seen w) + lim_timeout (ad_limits ad)" and ?t = "env_now env (Suc (w_seen w))"
  show ?thesis
  proof (cases "env_limit env < ?dl \<or> \<not> is_ok (data_input henv plibs req) \<or> \<not> ?t < ?dl")
    case True
    then show ?thesis using assms unreached
      by (cases "data_input henv plibs req")
        (auto simp: data_work_def seq_def now_def lift_def fail_def Let_def split: if_splits)
  next
    case False
    then obtain i where i: "data_input henv plibs req = Ok i" by (cases "data_input henv plibs req") auto
    let ?w1 = "w\<lparr>w_seen := Suc (Suc (w_seen w))\<rparr>"
    obtain w2 x where x: "admitted_execute fate fuel plibs libs env ad i (Some (?dl - ?t)) ?w1 = (w2, x)" by force
    have "(w', r) = (w2, map_ok (bytes_response 200) x)"
      using assms False i x by (cases x) (auto simp: data_work_def seq_def now_def lift_def ret_def Let_def)
    then show ?thesis using executed[of ?w1 i "?dl - ?t" x] i x by simp
  qed
qed


lemma resolve_endpoint: "resolve s meth segs = Ok m \<Longrightarrow> me_endpoint m \<in> set (sn_endpoints s)"
  by (auto simp: resolve_def outcome_simps find_Some_iff)

text \<open>Every registered executor keeps the driver's promises, and the statements of every snapshot are plain.\<close>

definition lawful_registry ::
  "('s, 't, 'p) database registry \<Rightarrow> ('s \<Rightarrow> 'd) \<Rightarrow> ('s \<Rightarrow> 'd) \<Rightarrow> (string \<Rightarrow> bool) \<Rightarrow> bool" where
  "lawful_registry reg durable staged plain \<longleftrightarrow>
     (\<forall>name st. map_of (rs_entries reg) name = Some st \<longrightarrow>
        (\<forall>db. st_resources st = Some db \<longrightarrow> lawful_database db durable staged plain) \<and>
        (\<forall>s. st_snapshot st = Some s \<longrightarrow> (\<forall>e \<in> set (sn_endpoints s). \<forall>q \<in> set (e_statements e). plain (s_sql q))))"

lemma admitted_lawful:
  assumes "lawful_registry reg durable staged plain" and "Registry_admit name meth segs reg = (reg', Ok ad)"
  shows "lawful_database (ad_executor ad) durable staged plain"
    and "\<forall>q \<in> set (e_statements (me_endpoint (ad_matched ad))). plain (s_sql q)"
proof -
  obtain st sn where s: "map_of (rs_entries reg) name = Some st" "st_snapshot st = Some sn"
      "resolve sn meth segs = Ok (ad_matched ad)" "st_resources st = Some (ad_executor ad)"
    by (rule Registry_admit_Ok[OF assms(2)])
  show "lawful_database (ad_executor ad) durable staged plain"
    using assms(1) s by (simp add: lawful_registry_def)
  show "\<forall>q \<in> set (e_statements (me_endpoint (ad_matched ad))). plain (s_sql q)"
    using assms(1) s resolve_endpoint[OF s(3)] by (simp add: lawful_registry_def)
qed

text \<open> C1: A data request is atomic from its URL to its response. The registry is as before once it is over: an admitted
  request gives back its lifetime on every path. A 200 response carries the bytes that the statements of the
  resolved endpoint produced, run in order on the values read from this request, and what they staged is durable;
  after an error the database is unchanged, unless the error says that the outcome is unknown.\<close>

theorem data_request_atomic:
  assumes wf: "bt_wf (rs_entries (hw_registry hw))" and law: "lawful_registry (hw_registry hw) durable staged plain"
  shows "case data_request fate fuel plibs libs env henv req hw of (hw', r) \<Rightarrow>
     hw_registry hw' = hw_registry hw \<and>
     (case r of
        Ok resp \<Rightarrow> hr_status resp = 200 \<and> (\<exists>name route reg ad i dl prep w0 w1 rows.
            Registry_admit name (rq_method req) route (hw_registry hw) = (reg, Ok ad)
          \<and> data_input henv plibs req = Ok i
          \<and> list_all2 (\<lambda>s vs. list_all2 (reads_as plibs (i\<lparr>in_path := me_path_parameters (ad_matched ad)\<rparr>)) (s_parameters s) vs)
              (e_statements (me_endpoint (ad_matched ad))) prep
          \<and> database_body (ad_executor ad) fuel libs env dl rows (me_endpoint (ad_matched ad)) prep w0 = (w1, Ok (hr_body resp))
          \<and> durable (w_db w0) = durable (w_db (hw_exec hw)) \<and> durable (w_db (hw_exec hw')) = staged (w_db w1))
      | Err x \<Rightarrow> durable (w_db (hw_exec hw')) = durable (w_db (hw_exec hw))
          \<or> err_code x \<in> {''commit_outcome_unknown'', ''execution_task_failed''}
      | Panic \<Rightarrow> durable (w_db (hw_exec hw')) = durable (w_db (hw_exec hw)))"
proof -
  obtain hw' r where r: "data_request fate fuel plibs libs env henv req hw = (hw', r)" by force
  from wf r show ?thesis
  proof (cases rule: data_request_stages)
    case refused
    then show ?thesis using r by (cases r) simp_all
  next
    case (admitted name route reg ad)
    note ad = admitted_lawful[OF law admitted(1)]
    from admitted(3) show ?thesis
    proof (cases rule: data_work_stages)
      case unreached
      then show ?thesis using r admitted(2) by (cases r) simp_all
    next
      case (executed i budget w1 x)
      note e = execute_tracked_atomic[OF ad, where fate = fate and fuel = fuel and plibs = plibs and libs = libs and env = env
          and i = "i\<lparr>in_path := me_path_parameters (ad_matched ad)\<rparr>" and lim = "capped (Some budget) (ad_limits ad)" and w = w1,
          unfolded executed(3)[unfolded admitted_execute_def] prod.case executed(1)]
      show ?thesis
      proof (cases x)
        case (Ok bytes)
        then show ?thesis using e r admitted(1,2) executed
          by (simp add: bytes_response_def) blast
      next
        case (Err y)
        then show ?thesis using e r admitted(2) executed(4) by simp
      next
        case Panic
        then show ?thesis using e by simp
      qed
    qed
  qed
qed


text \<open>
  The same for \<open>Registry::execute\<close>: the lifetime is given back, and the transaction has taken effect when bytes
  are returned, and not when an error is, unless it says that the outcome is unknown.
\<close>

lemma registry_execute_atomic:
  assumes wf: "bt_wf (rs_entries (hw_registry hw))" and law: "lawful_registry (hw_registry hw) durable staged plain"
    and run: "Registry_execute fate fuel plibs libs env name meth segs i hw = (hw', r)"
  shows "hw_registry hw' = hw_registry hw
    \<and> (case r of
        Ok bytes \<Rightarrow> \<exists>reg ad dl prep w0 w1 rows. Registry_admit name meth segs (hw_registry hw) = (reg, Ok ad)
          \<and> database_body (ad_executor ad) fuel libs env dl rows (me_endpoint (ad_matched ad)) prep w0 = (w1, Ok bytes)
          \<and> durable (w_db w0) = durable (w_db (hw_exec hw)) \<and> durable (w_db (hw_exec hw')) = staged (w_db w1)
      | Err x \<Rightarrow> durable (w_db (hw_exec hw')) = durable (w_db (hw_exec hw))
          \<or> err_code x \<in> {''commit_outcome_unknown'', ''execution_task_failed''}
      | Panic \<Rightarrow> durable (w_db (hw_exec hw')) = durable (w_db (hw_exec hw)))"
  using wf run[unfolded Registry_execute_def]
proof (cases rule: admitted_work)
  case refused
  then show ?thesis by (cases r) simp_all
next
  case (admitted reg ad)
  note ad = admitted_lawful[OF law admitted(1)]
  note e = execute_tracked_atomic[OF ad, where fate = fate and fuel = fuel and plibs = plibs and libs = libs and env = env
      and i = "i\<lparr>in_path := me_path_parameters (ad_matched ad)\<rparr>" and lim = "capped None (ad_limits ad)" and w = "hw_exec hw",
      unfolded admitted(3)[unfolded admitted_execute_def] prod.case]
  show ?thesis
  proof (cases r)
    case (Ok bytes)
    then show ?thesis using e admitted(1,2) by simp blast
  next
    case (Err y)
    then show ?thesis using e admitted(2) by simp
  next
    case Panic
    then show ?thesis using e by simp
  qed
qed


section \<open>Management requests\<close>

text \<open>The methods of a management resource, by the part of its path after the database.\<close>

definition management_methods :: "string list \<Rightarrow> string list option" where
  "management_methods tail =
     (case tail of
        [] \<Rightarrow> Some [''DELETE'', ''GET'']
      | [r] \<Rightarrow> if r = ''publish'' then Some [''POST''] else if r = ''openapi'' \<or> r = ''migrations'' then Some [''GET''] else None
      | [r, i] \<Rightarrow> if r = ''operations'' then Some [''GET''] else None
      | _ \<Rightarrow> None)"

text \<open>A management path that names no resource is a 404, and a method the resource does not have is a 405 whose
  \<open>Allow\<close> header lists exactly the methods of the resource; both change nothing.\<close>

theorem management_refusals:
  "case management_methods tail of
     None \<Rightarrow> management_call fate fuel libs env henv req name tail query hw = (hw, Err not_found)
   | Some ms \<Rightarrow> rq_method req \<in> set ms \<or>
       management_call fate fuel libs env henv req name tail query hw = (hw, Err (http_method_not_allowed (join '', '' ms)))"
proof (cases tail)
  case Nil
  then show ?thesis by (simp add: management_methods_def management_call_def Let_def fail_def)
next
  case (Cons r rest)
  then show ?thesis
    by (cases rest; cases "tl rest") (auto simp: management_methods_def management_call_def Let_def fail_def)
qed

section \<open>The end of the server\<close>

lemma closed_call: "on_database name f (reg\<lparr>rs_closed := True\<rparr>) = (reg\<lparr>rs_closed := True\<rparr>, Err shutting_down)"
  by (simp add: on_database_def check_open_def)

text \<open>When the server ends the registry is closed, so every later publication, unregistration, export and data
  request is refused without a change; the server reports success exactly when it was asked to stop, both
  listeners ended well and the registry drained.\<close>

theorem serve_end_closes:
  "case serve_end signalled ended core reg of (reg', r) \<Rightarrow>
     rs_entries reg' = rs_entries reg
   \<and> Registry_admit name meth segs reg' = (reg', Err shutting_down)
   \<and> Registry_export name reg' = (reg', Err shutting_down)
   \<and> Registry_unregister v name reg' = (reg', Err shutting_down)
   \<and> fst (Registry_publish libs v name req reg') = reg' \<and> \<not> is_ok (snd (Registry_publish libs v name req reg'))
   \<and> (r = Ok () \<longleftrightarrow> signalled \<and> list_all id ended \<and> core = Ok ())"
proof -
  let ?reg = "reg\<lparr>rs_closed := True\<rparr>"
  have "\<not> is_ok (and_then (validate_name name) (\<lambda>_. and_then (PublishRequest_validate libs req) (\<lambda>_. check_open True)))"
    by (cases "validate_name name"; cases "PublishRequest_validate libs req") (simp_all add: check_open_def)
  then have p: "fst (Registry_publish libs v name req ?reg) = ?reg \<and> \<not> is_ok (snd (Registry_publish libs v name req ?reg))"
    by (auto simp: Registry_publish_def split: outcome.split)
  then show ?thesis
    by (cases core) (auto simp: closed_call serve_end_def start_shutdown_def Registry_admit_def Registry_export_def Registry_unregister_def)
qed


section \<open>Witnesses\<close>

text \<open>A counter behind one POST route.\<close>

type_synonym counter_database = "(counter, unit, string) database"

definition web_state :: "counter_database db_state" where
  "web_state = Database_new\<lparr>st_phase := Ready, st_resources := Some (Postgres_database pg_counter),
     st_config := Some \<lparr>cf_target = Postgres_target [], cf_interfaces = [], cf_migrations = [],
       cf_limits = \<lparr>lim_timeout = 7, lim_max_rows = 5\<rparr>\<rparr>,
     st_snapshot := Some \<lparr>sn_endpoints = [pg_endpoint], sn_openapi = JNull, sn_version = ''v''\<rparr>\<rparr>"

definition web_start :: "(counter_database, counter) http_world" where
  "web_start = \<lparr>hw_registry = \<lparr>rs_entries = [(''app'', web_state)], rs_closed = False\<rparr>, hw_exec = pg_start\<rparr>"

definition web_request :: http_request where
  "web_request = \<lparr>rq_method = ''POST'', rq_path = ''/db/app/'', rq_query = None, rq_content_type = None, rq_body = Some []\<rparr>"

definition web_env :: http_env where
  "web_env = \<lparr>he_body = Completed, he_parse = Completed, he_joined = True, he_fresh = 7\<rparr>"

lemma web_path: "http_path Some ''/db/app/'' = Ok [''db'', ''app'']"
  by (simp add: http_path_def strip_prefix_def starts_with_def path_segment_def)

lemma web_admit: "Registry_admit ''app'' ''POST'' [] (hw_registry web_start)
    = (\<lparr>rs_entries = [(''app'', web_state\<lparr>st_active := 1\<rparr>)], rs_closed = False\<rparr>,
       Ok \<lparr>ad_executor = Postgres_database pg_counter, ad_matched = \<lparr>me_endpoint = pg_endpoint, me_path_parameters = []\<rparr>,
         ad_limits = \<lparr>lim_timeout = 7, lim_max_rows = 5\<rparr>\<rparr>)"
proof -
  have "eq_ignore_ascii_case ''post'' ''POST''" by code_simp
  then show ?thesis
    by (simp add: Registry_admit_def on_database_def web_start_def registry_database_def check_open_def admit_def web_state_def
        Database_new_def resolve_def captures_def pg_endpoint_def counter_endpoint_def set_database_def)
qed

lemma web_input: "data_input web_env counter_params_libs web_request = Ok \<lparr>in_path = [], in_query = [], in_body = JObject []\<rparr>"
  by (simp add: data_input_def web_env_def web_request_def selected_def read_body_def spawned_def Input_from_http_def
      counter_params_libs_def text_or_empty_def)

definition web_admitted :: "counter_database admitted" where
  "web_admitted = \<lparr>ad_executor = Postgres_database pg_counter, ad_matched = \<lparr>me_endpoint = pg_endpoint, me_path_parameters = []\<rparr>,
     ad_limits = \<lparr>lim_timeout = 7, lim_max_rows = 5\<rparr>\<rparr>"

abbreviation web_work :: "counter world \<times> http_response result" where
  "web_work \<equiv> data_work Queued (Suc 0) counter_params_libs counter_libs still_env web_env web_request web_admitted pg_start"

lemma web_work_result: "snd web_work = Ok (bytes_response 200 ''{}'') \<and> w_db (fst web_work) = (4, 4, False)"
  by (simp add: data_work_def web_input web_admitted_def admitted_execute_def capped_def execute_tracked_def run_database_def
      prepare_def prepare_statement_def pg_run FIVE_SECONDS_def)

lemma web_response:
  "data_request Queued (Suc 0) counter_params_libs counter_libs still_env web_env web_request web_start
     = (web_start\<lparr>hw_exec := fst web_work\<rparr>, Ok (bytes_response 200 ''{}''))"
proof -
  have d: "lib_percent_decode counter_params_libs = Some" by (simp add: counter_params_libs_def)
  have a: "on_registry (Registry_admit ''app'' ''POST'' []) web_start
      = (web_start\<lparr>hw_registry := \<lparr>rs_entries = [(''app'', web_state\<lparr>st_active := 1\<rparr>)], rs_closed = False\<rparr>\<rparr>, Ok web_admitted)"
    by (simp add: on_registry_def web_admit web_admitted_def)
  have "Registry_release ''app'' \<lparr>rs_entries = [(''app'', web_state\<lparr>st_active := 1\<rparr>)], rs_closed = False\<rparr> = Ok (hw_registry web_start)"
    by (simp add: Registry_release_def unwrap_def release_def set_database_def web_start_def web_state_def Database_new_def)
  then have w: "dropping ''app'' (on_exec (data_work Queued (Suc 0) counter_params_libs counter_libs still_env web_env web_request web_admitted))
      (web_start\<lparr>hw_registry := \<lparr>rs_entries = [(''app'', web_state\<lparr>st_active := 1\<rparr>)], rs_closed = False\<rparr>\<rparr>)
      = (web_start\<lparr>hw_exec := fst web_work\<rparr>, Ok (bytes_response 200 ''{}''))"
    using web_work_result by (simp add: dropping_def attempt_def on_exec_simp on_registry_def lift_def web_start_def)
  have r: "rq_path web_request = ''/db/app/''" "rq_method web_request = ''POST''" by (simp_all add: web_request_def)
  show ?thesis using w
    by (simp add: data_request_def seq_def lift_def d r web_path data_route_def valid_name_def ascii_defs a)
qed

lemma web_lawful: "lawful_registry (hw_registry web_start) fst (\<lambda>s. fst (snd s)) (\<lambda>q. q = ''ADD'')"
proof -
  have "lawful_database (Postgres_database pg_counter :: counter_database) fst (\<lambda>s. fst (snd s)) (\<lambda>q. q = ''ADD'')"
    unfolding lawful_database_def database.case using pg_counter_law by blast
  then show ?thesis
    by (simp add: lawful_registry_def web_start_def web_state_def pg_endpoint_def counter_endpoint_def)
qed

theorem data_request_atomic_witness:
  "case data_request Queued (Suc 0) counter_params_libs counter_libs still_env web_env web_request web_start of (hw', r) \<Rightarrow>
     hw_registry hw' = hw_registry web_start \<and> r = Ok (bytes_response 200 ''{}'') \<and> fst (w_db (hw_exec hw')) = 4"
proof -
  have "bt_wf (rs_entries (hw_registry web_start))" by (simp add: web_start_def)
  from data_request_atomic[OF this web_lawful, where fate = Queued and fuel = "Suc 0" and plibs = counter_params_libs
      and libs = counter_libs and env = still_env and henv = web_env and req = web_request]
  show ?thesis using web_work_result unfolding web_response by simp
qed

end
