(* ===== verification/Server.thy ===== *)
theory Server
  imports Http
begin

text \<open>
  The server of \<^verbatim>\<open>src/http.rs\<close> and the shutdown of the registry it serves: binding the listeners,
  and \<open>Server::serve\<close> as a transition system of the databases of the registry, the shutdown worker, the
  two HTTP tasks and the future of \<open>serve\<close> itself, which may be dropped at any await.
\<close>

section \<open>Binding\<close>

text \<open>\<open>TcpListener::bind\<close> and \<open>local_addr\<close> are parameters.\<close>

record ('l, 'a) listeners =
  li_data :: 'l
  li_management :: 'l
  li_data_address :: 'a
  li_management_address :: 'a

definition listen_failed :: "string \<Rightarrow> sqlrest_error" where
  "listen_failed text = new_error 500 ''listen_failed'' text"

definition from_listeners :: "('l \<Rightarrow> 'a option) \<Rightarrow> 'l \<Rightarrow> 'l \<Rightarrow> ('l, 'a) listeners result" where
  "from_listeners local data management =
     and_then (ok_or server_failed (local data)) (\<lambda>data_address.
     map_ok (\<lambda>management_address. \<lparr>li_data = data, li_management = management, li_data_address = data_address,
         li_management_address = management_address\<rparr>)
       (ok_or server_failed (local management)))"

definition bind :: "('a \<Rightarrow> 'l option) \<Rightarrow> ('l \<Rightarrow> 'a option) \<Rightarrow> 'a \<Rightarrow> 'a \<Rightarrow> ('l, 'a) listeners result" where
  "bind listen local data management =
     and_then (ok_or (listen_failed ''Cannot bind data listener'') (listen data)) (\<lambda>data.
     and_then (ok_or (listen_failed ''Cannot bind management listener'') (listen management)) (\<lambda>management.
     from_listeners local data management))"


section \<open>The state of a server\<close>

text \<open>
  The shutdown worker: it waits for the first database that is left, retires it, and ends with the
  result that \<open>Registry::shutdown\<close> returns.
\<close>

datatype drain = Not_closed | Draining "string list" | Retiring string "string list" | Drained "unit result"

datatype serve_label = Waiting | Joining | Returned "unit result" | Dropped

text \<open>
  \<open>sv_servers\<close> is the \<open>JoinSet\<close>: a task runs (\<open>None\<close>) or has ended, well or not; \<open>sv_ended\<close> are the
  outcomes that the last loop of \<open>serve\<close> has joined, \<open>sv_signalled\<close> whether the shutdown future ended first.
\<close>

record 'r server =
  sv_systems :: "(string \<times> 'r system) list"
  sv_closed :: bool
  sv_stop :: bool
  sv_drain :: drain
  sv_servers :: "bool option list"
  sv_at :: serve_label
  sv_signalled :: bool
  sv_ended :: "bool list"

definition registry_of :: "'r server \<Rightarrow> 'r registry" where
  "registry_of sv = \<lparr>rs_entries = map (\<lambda>(n, s). (n, sy_db s)) (sv_systems sv), rs_closed = sv_closed sv\<rparr>"

definition named :: "registry_libs \<Rightarrow> string \<Rightarrow> registry_libs" where
  "named libs n = libs\<lparr>rg_name := n\<rparr>"

definition set_system :: "string \<Rightarrow> 'r system \<Rightarrow> 'r server \<Rightarrow> 'r server" where
  "set_system n s sv = sv\<lparr>sv_systems := bt_insert n s (sv_systems sv)\<rparr>"

text \<open>The first publication of a name makes its entry.\<close>

definition entered :: "publish_request \<Rightarrow> 'r db_state \<Rightarrow> 'r system" where
  "entered req st = \<lparr>sy_db = st, sy_closed = False, sy_disk = {None}, sy_job = Starting req, sy_lifetimes = 0\<rparr>"


section \<open>The steps of the shutdown and of \<open>serve\<close>\<close>

text \<open>\<open>start_shutdown\<close>: the flag is swapped under the lock of the map, so the worker is spawned once.\<close>

definition begin_shutdown :: "'r server \<Rightarrow> 'r server" where
  "begin_shutdown sv =
     (if sv_closed sv then sv
      else sv\<lparr>sv_closed := True, sv_systems := map (\<lambda>(n, s). (n, s\<lparr>sy_closed := True\<rparr>)) (sv_systems sv),
              sv_drain := Draining (map fst (sv_systems sv))\<rparr>)"

text \<open>
  One step of the worker; \<open>None\<close> when it waits. Looking at a database and retiring it take its lock
  twice. \<open>dropped\<close> is the outcome of dropping its resources.
\<close>

definition drain_step :: "unit result \<Rightarrow> 'r server \<Rightarrow> 'r server option" where
  "drain_step dropped sv =
     (case sv_drain sv of
        Draining [] \<Rightarrow> Some (sv\<lparr>sv_drain := Drained (Ok ())\<rparr>)
      | Draining (n # ns) \<Rightarrow>
          (case map_of (sv_systems sv) n of
             None \<Rightarrow> None
           | Some s \<Rightarrow> if is_idle (sy_db s) then Some (sv\<lparr>sv_drain := Retiring n ns\<rparr>) else None)
      | Retiring n ns \<Rightarrow>
          (case map_of (sv_systems sv) n of
             None \<Rightarrow> None
           | Some s \<Rightarrow> Some ((set_system n (s\<lparr>sy_db := retire_at_shutdown (sy_db s)\<rparr>) sv)
               \<lparr>sv_drain := (case task dropped of Ok _ \<Rightarrow> Draining ns | r \<Rightarrow> Drained r)\<rparr>))
      | _ \<Rightarrow> None)"

text \<open>One look of \<open>Registry::shutdown\<close> at the result.\<close>

definition shutdown_result :: "'r server \<Rightarrow> unit result option" where
  "shutdown_result sv = (case sv_drain sv of Drained r \<Rightarrow> Some r | _ \<Rightarrow> None)"

definition serve_start :: "(string \<times> 'r system) list \<Rightarrow> 'r server" where
  "serve_start systems = \<lparr>sv_systems = systems, sv_closed = False, sv_stop = False, sv_drain = Not_closed,
     sv_servers = [None, None], sv_at = Waiting, sv_signalled = False, sv_ended = []\<rparr>"

definition remove_nth :: "nat \<Rightarrow> 'a list \<Rightarrow> 'a list" where
  "remove_nth i xs = take i xs @ drop (Suc i) xs"

text \<open>After the first \<open>select!\<close>: admission is closed before the listeners stop.\<close>

definition stopping :: "bool \<Rightarrow> 'r server \<Rightarrow> 'r server" where
  "stopping signalled sv = (begin_shutdown sv)\<lparr>sv_stop := True, sv_at := Joining, sv_signalled := signalled\<rparr>"

definition signal_step :: "'r server \<Rightarrow> 'r server option" where
  "signal_step sv = (if sv_at sv = Waiting then Some (stopping True sv) else None)"

text \<open>\<open>join_next\<close> yields any task that has ended.\<close>

definition join_step :: "nat \<Rightarrow> 'r server \<Rightarrow> 'r server option" where
  "join_step i sv =
     (if length (sv_servers sv) \<le> i then None
      else case (sv_servers sv ! i, sv_at sv) of
        (Some _, Waiting) \<Rightarrow> Some (stopping False (sv\<lparr>sv_servers := remove_nth i (sv_servers sv)\<rparr>))
      | (Some ok, Joining) \<Rightarrow>
          Some (sv\<lparr>sv_servers := remove_nth i (sv_servers sv), sv_ended := sv_ended sv @ [ok]\<rparr>)
      | _ \<Rightarrow> None)"

definition return_step :: "'r server \<Rightarrow> 'r server option" where
  "return_step sv =
     (case (sv_at sv, sv_servers sv, shutdown_result sv) of
        (Joining, [], Some core) \<Rightarrow>
          Some (sv\<lparr>sv_at := Returned (snd (serve_end (sv_signalled sv) (sv_ended sv) core (registry_of sv)))\<rparr>)
      | _ \<Rightarrow> None)"

text \<open>Dropping the future drops its \<open>ServerLifetime\<close> and aborts the tasks of the \<open>JoinSet\<close>.\<close>

definition drop_step :: "'r server \<Rightarrow> 'r server option" where
  "drop_step sv =
     (if sv_at sv = Waiting \<or> sv_at sv = Joining
      then Some ((begin_shutdown sv)\<lparr>sv_stop := True, sv_servers := [], sv_at := Dropped\<rparr>) else None)"

text \<open>
  The server between a start and the end of its process: any step of a database or of its worker, the
  first publication of a name, a shutdown that another owner of the registry starts, the shutdown
  worker, the end of an HTTP task, and the steps of \<open>serve\<close>.
\<close>

inductive server_step :: "registry_libs \<Rightarrow> 'r server \<Rightarrow> 'r server \<Rightarrow> bool" for libs where
  database: "map_of (sv_systems sv) n = Some s \<Longrightarrow> db_step (named libs n) s s' \<Longrightarrow>
     server_step libs sv (set_system n s' sv)"
| entry: "map_of (sv_systems sv) n = None \<Longrightarrow>
     accept_publish (rg_workspace libs) (sv_closed sv) v n req None = Ok st \<Longrightarrow>
     server_step libs sv (set_system n (entered req st) sv)"
| other_owner: "server_step libs sv (begin_shutdown sv)"
| drained: "drain_step dropped sv = Some sv' \<Longrightarrow> server_step libs sv sv'"
| task_ends: "i < length (sv_servers sv) \<Longrightarrow> sv_servers sv ! i = None \<Longrightarrow>
     server_step libs sv (sv\<lparr>sv_servers := (sv_servers sv)[i := Some ok]\<rparr>)"
| signal: "signal_step sv = Some sv' \<Longrightarrow> server_step libs sv sv'"
| joined: "join_step i sv = Some sv' \<Longrightarrow> server_step libs sv sv'"
| returned: "return_step sv = Some sv' \<Longrightarrow> server_step libs sv sv'"
| dropped: "drop_step sv = Some sv' \<Longrightarrow> server_step libs sv sv'"

definition server_initial :: "registry_libs \<Rightarrow> 'r server \<Rightarrow> bool" where
  "server_initial libs sv \<longleftrightarrow>
     (\<exists>systems. sv = serve_start systems \<and> bt_wf systems \<and> list_all (\<lambda>(n, s). initial (named libs n) s) systems)"

section \<open>The shutdown worker refines its rounds\<close>

text \<open>The worker's two steps on the server are one round on the registry, as \<open>Registry_Api\<close> has it.\<close>

lemma registry_of_begin:
  "registry_of (begin_shutdown sv) = fst (start_shutdown (registry_of sv))"
  "sv_drain (begin_shutdown sv) = (case snd (start_shutdown (registry_of sv)) of None \<Rightarrow> sv_drain sv | Some ns \<Rightarrow> Draining ns)"
  by (auto simp: registry_of_def begin_shutdown_def start_shutdown_def case_prod_unfold)

lemma map_of_registry: "map_of (rs_entries (registry_of sv)) n = map_option sy_db (map_of (sv_systems sv) n)"
  unfolding registry_of_def by (simp add: map_of_map)

lemma bt_insert_map:
  "map (\<lambda>(n, s). (n, f s)) (bt_insert n s m) = bt_insert n (f s) (map (\<lambda>(n, s). (n, f s)) m)"
  by (induction n s m rule: bt_insert.induct) auto

lemma registry_of_set: "registry_of (set_system n s sv) = set_database n (sy_db s) (registry_of sv)"
  by (simp add: registry_of_def set_system_def set_database_def bt_insert_map)

lemma drain_round:
  assumes "sv_drain sv = Draining names"
  shows "shutdown_round dropped names (registry_of sv) =
     (case drain_step dropped sv of
        None \<Rightarrow> None
      | Some sv' \<Rightarrow>
          (case sv_drain sv' of
             Drained r \<Rightarrow> Some (registry_of sv', Inl r)
           | _ \<Rightarrow> map_option (\<lambda>sv''. (registry_of sv'', case sv_drain sv'' of Draining ns \<Rightarrow> Inr ns | Drained r \<Rightarrow> Inl r))
               (drain_step dropped sv')))"
proof (cases names)
  case Nil
  then show ?thesis using assms by (simp add: shutdown_round_def drain_step_def registry_of_def)
next
  case (Cons n ns)
  have r: "registry_of (x\<lparr>sv_drain := d\<rparr>) = registry_of x" for x :: "'a server" and d by (simp add: registry_of_def)
  show ?thesis
  proof (cases "map_of (sv_systems sv) n")
    case (Some s)
    then show ?thesis using assms Cons
      by (cases "task dropped") (auto simp: shutdown_round_def drain_step_def map_of_registry r registry_of_set)
  qed (use assms Cons in \<open>simp add: shutdown_round_def drain_step_def map_of_registry\<close>)
qed


section \<open>The invariant\<close>

definition retired :: "'r system \<Rightarrow> bool" where
  "retired s \<longleftrightarrow> is_idle (sy_db s) \<and> st_phase (sy_db s) = Unregistered \<and> st_resources (sy_db s) = None \<and> st_snapshot (sy_db s) = None"

text \<open>The databases that the worker has not retired yet, and the one it is about to retire.\<close>

definition pending :: "'r server \<Rightarrow> string set" where
  "pending sv = (case sv_drain sv of
      Not_closed \<Rightarrow> fst ` set (sv_systems sv)
    | Draining ns \<Rightarrow> set ns
    | Retiring n ns \<Rightarrow> insert n (set ns)
    | Drained r \<Rightarrow> if r = Ok () then {} else fst ` set (sv_systems sv))"

definition drain_inv :: "'r server \<Rightarrow> bool" where
  "drain_inv sv \<longleftrightarrow>
     (sv_closed sv \<longleftrightarrow> sv_drain sv \<noteq> Not_closed) \<and>
     pending sv \<subseteq> fst ` set (sv_systems sv) \<and>
     (\<forall>n s. map_of (sv_systems sv) n = Some s \<longrightarrow>
        (n \<notin> pending sv \<longrightarrow> retired s) \<and> (\<forall>ns. sv_drain sv = Retiring n ns \<longrightarrow> is_idle (sy_db s)))"

definition label_inv :: "'r server \<Rightarrow> bool" where
  "label_inv sv \<longleftrightarrow>
     (case sv_at sv of
        Waiting \<Rightarrow> sv_ended sv = [] \<and> length (sv_servers sv) = 2
      | Joining \<Rightarrow> sv_closed sv \<and> sv_stop sv
          \<and> length (sv_servers sv) + length (sv_ended sv) = (if sv_signalled sv then 2 else 1)
      | Returned r \<Rightarrow> sv_closed sv \<and> sv_stop sv \<and> sv_servers sv = []
          \<and> length (sv_ended sv) = (if sv_signalled sv then 2 else 1)
          \<and> (\<exists>core. sv_drain sv = Drained core \<and> (r = Ok () \<longleftrightarrow> sv_signalled sv \<and> list_all id (sv_ended sv) \<and> core = Ok ()))
      | Dropped \<Rightarrow> sv_closed sv \<and> sv_stop sv \<and> sv_servers sv = [])"

definition systems_inv :: "registry_libs \<Rightarrow> 'r server \<Rightarrow> bool" where
  "systems_inv libs sv \<longleftrightarrow> bt_wf (sv_systems sv) \<and>
     (\<forall>n s. map_of (sv_systems sv) n = Some s \<longrightarrow> reachable (named libs n) s \<and> sy_closed s = sv_closed sv)"

definition server_inv :: "registry_libs \<Rightarrow> 'r server \<Rightarrow> bool" where
  "server_inv libs sv \<longleftrightarrow> systems_inv libs sv \<and> drain_inv sv \<and> label_inv sv"

lemma initial_reachable: "initial libs s \<Longrightarrow> reachable libs s"
  unfolding reachable_def by blast

lemma server_initial_inv:
  assumes "server_initial libs sv"
  shows "server_inv libs sv"
proof -
  obtain systems where sv: "sv = serve_start systems" and wf: "bt_wf systems"
    and all: "list_all (\<lambda>(n, s). initial (named libs n) s) systems"
    using assms by (auto simp: server_initial_def)
  have i: "initial (named libs n) s" if "map_of systems n = Some s" for n s
    using all map_of_SomeD[OF that] by (auto simp: list_all_iff)
  have "reachable (named libs n) s \<and> \<not> sy_closed s \<and> n \<in> fst ` set systems" if "map_of systems n = Some s" for n s
    using initial_reachable[OF i[OF that]] i[OF that] map_of_SomeD[OF that] by (force simp: initial_def started_def)
  then show ?thesis
    using wf by (auto simp: server_inv_def systems_inv_def drain_inv_def label_inv_def sv serve_start_def pending_def)
qed

lemma map_of_dom: "map_of m n = Some s \<Longrightarrow> n \<in> fst ` set m"
  by (force dest: map_of_SomeD)

text \<open>A change of one database.\<close>

lemma set_system_simps [simp]:
  "sv_systems (set_system n s sv) = bt_insert n s (sv_systems sv)" "sv_closed (set_system n s sv) = sv_closed sv"
  "sv_stop (set_system n s sv) = sv_stop sv" "sv_drain (set_system n s sv) = sv_drain sv"
  "sv_servers (set_system n s sv) = sv_servers sv" "sv_at (set_system n s sv) = sv_at sv"
  "sv_signalled (set_system n s sv) = sv_signalled sv" "sv_ended (set_system n s sv) = sv_ended sv"
  by (simp_all add: set_system_def)

lemma set_system_inv:
  assumes "server_inv libs sv" and "reachable (named libs n) s'" and "sy_closed s' = sv_closed sv"
    and "n \<notin> pending (set_system n s' sv) \<Longrightarrow> retired s'" and "\<And>ns. sv_drain sv = Retiring n ns \<Longrightarrow> is_idle (sy_db s')"
  shows "server_inv libs (set_system n s' sv)"
proof -
  have p: "m \<noteq> n \<Longrightarrow> m \<in> pending (set_system n s' sv) \<longleftrightarrow> m \<in> pending sv" for m
    by (simp add: pending_def split: drain.split)
  have q: "pending (set_system n s' sv) \<subseteq> fst ` set (bt_insert n s' (sv_systems sv))"
    using assms(1) by (auto simp: pending_def server_inv_def drain_inv_def split: drain.splits if_splits)
  have wf: "bt_wf (sv_systems sv)" using assms(1) by (simp add: server_inv_def systems_inv_def)
  have "systems_inv libs (set_system n s' sv)"
    using assms(1-3) wf by (auto simp: server_inv_def systems_inv_def)
  moreover have "drain_inv (set_system n s' sv)"
    using assms(1,4,5) wf p q by (auto simp: drain_inv_def server_inv_def)
  moreover have "label_inv (set_system n s' sv)"
    using assms(1) by (simp add: server_inv_def label_inv_def cong: serve_label.case_cong)
  ultimately show ?thesis by (simp add: server_inv_def)
qed

text \<open>A worker does not touch the flag of the registry.\<close>

lemma stop_closed [simp]: "sy_closed (stop r s) = sy_closed s" "sy_closed (goto l pb s) = sy_closed s"
  by (simp_all add: stop_def goto_def)

lemma use_closed: "(\<And>x s. sy_closed (k x s) = sy_closed s) \<Longrightarrow> sy_closed (use r k s) = sy_closed s"
  by (simp add: use_def split: outcome.split)

lemma locked_closed: "(\<And>s. sy_closed (k s) = sy_closed s) \<Longrightarrow> sy_closed (locked f k s) = sy_closed s"
  unfolding locked_def by (rule use_closed) simp

lemma persisting_closed:
  "(\<And>s. sy_closed (k s) = sy_closed s) \<Longrightarrow> (\<And>e s. sy_closed (fails e s) = sy_closed s) \<Longrightarrow>
     sy_closed (persisting r rec k fails s) = sy_closed s"
  by (simp add: persisting_def Let_def split: outcome.split)

lemma closing_closed: "sy_closed (closing l pb s) = sy_closed s"
  unfolding closing_def by (rule use_closed) (simp split: prod.split)

lemma reopen_closed: "sy_closed (reopen pb e s) = sy_closed s"
  by (simp add: reopen_def)

lemma fail_migration_closed: "sy_closed (fail_migration v e s) = sy_closed s"
  unfolding fail_migration_def by (rule locked_closed) simp

lemma publish_step_closed: "publish_step libs ef l pb s = Some s' \<Longrightarrow> sy_closed s' = sy_closed s"
  by (cases l)
    (auto simp: publish_step_def closing_closed reopen_closed fail_migration_closed
      intro!: use_closed locked_closed persisting_closed split: outcome.splits list.splits if_splits)

lemma job_step_closed: "job_step libs ef s = Some s' \<Longrightarrow> sy_closed s' = sy_closed s"
  by (cases "sy_job s")
    (auto simp: job_step_def unregister_step_def start_publish_def Let_def publish_step_closed
      intro!: use_closed split: outcome.splits unregister_label.splits if_splits)

lemma db_step_closed: "db_step libs s s' \<Longrightarrow> sy_closed s' = sy_closed s"
  by (induction rule: db_step.induct) (simp_all add: job_step_closed)

lemma database_inv:
  assumes "server_inv libs sv" and "map_of (sv_systems sv) n = Some s" and "db_step (named libs n) s s'"
  shows "server_inv libs (set_system n s' sv)"
proof (rule set_system_inv[OF assms(1)])
  have s: "reachable (named libs n) s" "sy_closed s = sv_closed sv"
    using assms(1,2) by (auto simp: server_inv_def systems_inv_def)
  note inv = reachable_system_inv[OF s(1)]
  show "reachable (named libs n) s'" by (rule reachable_step[OF s(1) system_step.db[OF assms(3)]])
  show "sy_closed s' = sv_closed sv" using db_step_closed[OF assms(3)] s(2) by simp
  have busy: "\<not> (sv_closed sv \<and> is_idle (sy_db s))" using closed_idle_no_step[OF assms(3) inv] s(2) by blast
  have d: "sv_closed sv \<longleftrightarrow> sv_drain sv \<noteq> Not_closed" "n \<notin> pending sv \<Longrightarrow> retired s"
    "\<And>ns. sv_drain sv = Retiring n ns \<Longrightarrow> is_idle (sy_db s)"
    using assms(1,2) by (auto simp: server_inv_def drain_inv_def)
  show "is_idle (sy_db s')" if "sv_drain sv = Retiring n ns" for ns using that d busy by auto
  show "retired s'" if "n \<notin> pending (set_system n s' sv)"
  proof -
    have "n \<notin> pending sv \<and> sv_drain sv \<noteq> Not_closed" using that
      by (auto simp: pending_def split: drain.splits if_splits)
    then show ?thesis using d(1,2) busy by (auto simp: retired_def)
  qed
qed

lemma entry_inv:
  assumes "server_inv libs sv" and "map_of (sv_systems sv) n = None"
    and "accept_publish (rg_workspace libs) (sv_closed sv) v n req None = Ok st"
  shows "server_inv libs (set_system n (entered req st) sv)"
proof (rule set_system_inv[OF assms(1)])
  have ready: "\<not> sv_closed sv" and a: "accept_publish (rg_workspace libs) False v n req (Some Database_new) = Ok st"
    using assms(3) by (auto simp: accept_publish_def check_open_def outcome_simps split: if_splits)
  let ?calls = "\<lparr>rc_read = Panic, rc_layout = Panic, rc_data = Panic, rc_resources = Panic, rc_snapshot = Panic\<rparr> :: 'a restore_calls"
  let ?s = "started (named libs n) ?calls None"
  have "initial (named libs n) ?s"
    unfolding initial_def by (intro exI[of _ ?calls] exI[of _ None]) (simp add: reading_def)
  then have "reachable (named libs n) ?s" by (rule initial_reachable)
  moreover have "db_step (named libs n) ?s (?s\<lparr>sy_db := st, sy_job := Starting req\<rparr>)"
    by (rule db_step.publish) (use a in \<open>simp add: started_def named_def\<close>)
  ultimately show "reachable (named libs n) (entered req st)"
    using reachable_step[OF _ system_step.db] by (simp add: started_def entered_def)
  show "sy_closed (entered req st) = sv_closed sv" using ready by (simp add: entered_def)
  have d: "sv_drain sv = Not_closed" using ready assms(1) by (simp add: server_inv_def drain_inv_def)
  show "retired (entered req st)" if "n \<notin> pending (set_system n (entered req st) sv)"
    using that d by (simp add: pending_def)
  show "is_idle (sy_db (entered req st))" if "sv_drain sv = Retiring n ns" for ns using that d by simp
qed

lemma begin_shutdown_inv:
  assumes "systems_inv libs sv" and "drain_inv sv"
  shows "systems_inv libs (begin_shutdown sv) \<and> drain_inv (begin_shutdown sv) \<and> sv_closed (begin_shutdown sv)"
proof (cases "sv_closed sv")
  case False
  have "map fst (map (\<lambda>(n, s). (n, f s)) m) = map fst m" for f :: "'a system \<Rightarrow> 'a system" and m :: "(string \<times> 'a system) list"
    by (simp add: comp_def case_prod_unfold)
  moreover have "map_of (sv_systems (begin_shutdown sv)) n = map_option (\<lambda>s. s\<lparr>sy_closed := True\<rparr>) (map_of (sv_systems sv) n)" for n
    using False by (simp add: begin_shutdown_def map_of_map)
  ultimately show ?thesis using assms False
    by (auto simp: systems_inv_def drain_inv_def bt_wf_def begin_shutdown_def pending_def image_image case_prod_unfold comp_def
        dest: map_of_dom intro: reachable_step[OF _ system_step.close])
qed (use assms in \<open>simp add: begin_shutdown_def\<close>)


text \<open>The fields of \<open>serve\<close> itself do not matter to the databases and the shutdown worker.\<close>

lemma frame:
  assumes "sv_systems sv' = sv_systems sv" "sv_closed sv' = sv_closed sv" "sv_drain sv' = sv_drain sv"
  shows "systems_inv libs sv' = systems_inv libs sv" "drain_inv sv' = drain_inv sv"
  by (simp_all only: systems_inv_def drain_inv_def pending_def assms)

lemma begin_shutdown_simps [simp]:
  "sv_servers (begin_shutdown sv) = sv_servers sv" "sv_ended (begin_shutdown sv) = sv_ended sv"
  "sv_at (begin_shutdown sv) = sv_at sv" "sv_signalled (begin_shutdown sv) = sv_signalled sv"
  "sv_closed (begin_shutdown sv)" "sv_closed sv \<Longrightarrow> begin_shutdown sv = sv"
  by (simp_all add: begin_shutdown_def)

lemma length_remove_nth [simp]: "i < length xs \<Longrightarrow> length (remove_nth i xs) = length xs - 1"
  by (simp add: remove_nth_def)

lemma drain_step_inv:
  assumes "server_inv libs sv" and "drain_step dropped sv = Some sv'"
  shows "server_inv libs sv'"
proof -
  have d: "\<And>n s. map_of (sv_systems sv) n = Some s \<Longrightarrow> n \<notin> pending sv \<Longrightarrow> retired s"
    and sub: "pending sv \<subseteq> fst ` set (sv_systems sv)" and c: "sv_closed sv \<longleftrightarrow> sv_drain sv \<noteq> Not_closed"
    and sys: "systems_inv libs sv" and lab: "label_inv sv" and wf: "bt_wf (sv_systems sv)"
    using assms(1) by (auto simp: server_inv_def drain_inv_def systems_inv_def)
  have l: "label_inv (sv\<lparr>sv_drain := x\<rparr>)" if "\<And>r. sv_drain sv \<noteq> Drained r" for x
    using lab that by (auto simp: label_inv_def split: serve_label.splits)
  consider (finish) "sv_drain sv = Draining []" "sv' = sv\<lparr>sv_drain := Drained (Ok ())\<rparr>"
    | (look) n ns s where "sv_drain sv = Draining (n # ns)" "map_of (sv_systems sv) n = Some s" "is_idle (sy_db s)"
        "sv' = sv\<lparr>sv_drain := Retiring n ns\<rparr>"
    | (retire) n ns s where "sv_drain sv = Retiring n ns" "map_of (sv_systems sv) n = Some s"
        "sv' = (set_system n (s\<lparr>sy_db := retire_at_shutdown (sy_db s)\<rparr>) sv)
          \<lparr>sv_drain := (case task dropped of Ok _ \<Rightarrow> Draining ns | r \<Rightarrow> Drained r)\<rparr>"
    using assms(2) by (auto simp: drain_step_def split: drain.splits list.splits option.splits if_splits)
  then show ?thesis
  proof cases
    case finish
    then show ?thesis using d sub c sys l
      by (auto simp: server_inv_def drain_inv_def systems_inv_def pending_def)
  next
    case look
    then show ?thesis using d sub c sys l
      by (auto simp: server_inv_def drain_inv_def systems_inv_def pending_def)
  next
    case retire
    let ?s = "s\<lparr>sy_db := retire_at_shutdown (sy_db s)\<rparr>"
    have s: "reachable (named libs n) s" "sy_closed s = sv_closed sv" "is_idle (sy_db s)"
      using sys retire(1,2) assms(1) by (auto simp: systems_inv_def server_inv_def drain_inv_def)
    have r: "retired ?s" using s(3) by (simp add: retired_def retire_at_shutdown_def is_idle_def)
    have "system_step (named libs n) s ?s"
      by (rule system_step.retire) (use s c retire(1) in \<open>simp_all add: is_idle_def\<close>)
    then have "server_inv libs (set_system n ?s sv)"
      using s r by (intro set_system_inv[OF assms(1)]) (auto intro: reachable_step simp: retired_def)
    then have "systems_inv libs sv'" "label_inv sv'" and sub': "pending (set_system n ?s sv) \<subseteq> fst ` set (sv_systems sv')"
      and d': "\<And>m t. map_of (sv_systems sv') m = Some t \<Longrightarrow> m \<notin> pending (set_system n ?s sv) \<Longrightarrow> retired t"
      unfolding retire(3) using retire(1)
      by (auto simp: server_inv_def systems_inv_def label_inv_def drain_inv_def split: serve_label.splits)
    moreover have "drain_inv sv'"
    proof -
      have "pending (set_system n ?s sv) = insert n (set ns)" using retire(1) by (simp add: pending_def)
      then have "retired t" if "map_of (sv_systems sv') m = Some t" "m \<notin> set ns" for m t
        using that d' r wf retire(3) by (cases "m = n") auto
      then show ?thesis using retire(1) sub' c
        by (cases "task dropped") (auto simp: drain_inv_def pending_def retire(3) task_def map_of_dom split: outcome.splits)
    qed
    ultimately show ?thesis by (simp add: server_inv_def)
  qed
qed

lemma stopping_inv:
  assumes "systems_inv libs sv" and "drain_inv sv" and "sv_ended sv = []" and "length (sv_servers sv) = (if signalled then 2 else 1)"
  shows "server_inv libs (stopping signalled sv)"
proof -
  note f = frame[of "stopping signalled sv" "begin_shutdown sv"]
  have "systems_inv libs (stopping signalled sv)" "drain_inv (stopping signalled sv)"
    using begin_shutdown_inv[OF assms(1,2)] f by (simp_all add: stopping_def)
  then show ?thesis using assms(3,4) by (simp add: server_inv_def label_inv_def stopping_def)
qed

lemma serve_end_Ok:
  "snd (serve_end signalled ended core reg) = Ok () \<longleftrightarrow> signalled \<and> list_all id ended \<and> core = Ok ()"
  by (cases core) (auto simp: serve_end_def)

lemma server_step_inv: "server_step libs sv sv' \<Longrightarrow> server_inv libs sv \<Longrightarrow> server_inv libs sv'"
proof (induction rule: server_step.induct)
  case (database sv n s s')
  then show ?case by (blast intro: database_inv)
next
  case (entry sv n v req st)
  then show ?case by (blast intro: entry_inv)
next
  case (other_owner sv)
  then have "label_inv (begin_shutdown sv)"
    by (cases "sv_closed sv") (simp_all add: server_inv_def label_inv_def split: serve_label.splits)
  then show ?case using other_owner begin_shutdown_inv by (auto simp: server_inv_def)
next
  case (drained dropped sv sv')
  then show ?case by (blast intro: drain_step_inv)
next
  case (task_ends i sv ok)
  then show ?case using frame[of "sv\<lparr>sv_servers := (sv_servers sv)[i := Some ok]\<rparr>" sv]
    by (auto simp: server_inv_def label_inv_def split: serve_label.splits)
next
  case (signal sv sv')
  then show ?case using stopping_inv[of libs sv True]
    by (auto simp: signal_step_def server_inv_def label_inv_def split: if_splits)
next
  case (joined i sv sv')
  then consider "sv_at sv = Waiting" "sv' = stopping False (sv\<lparr>sv_servers := remove_nth i (sv_servers sv)\<rparr>)" "i < length (sv_servers sv)"
    | ok where "sv_at sv = Joining" "i < length (sv_servers sv)"
        "sv' = sv\<lparr>sv_servers := remove_nth i (sv_servers sv), sv_ended := sv_ended sv @ [ok]\<rparr>"
    by (auto simp: join_step_def split: if_splits option.splits serve_label.splits)
  then show ?case
  proof cases
    case 1
    then show ?thesis
      using joined.prems stopping_inv[of libs "sv\<lparr>sv_servers := remove_nth i (sv_servers sv)\<rparr>" False]
        frame[of "sv\<lparr>sv_servers := remove_nth i (sv_servers sv)\<rparr>" sv]
      by (simp add: server_inv_def label_inv_def)
  next
    case 2
    then show ?thesis using joined.prems frame[of sv' sv] by (auto simp: server_inv_def label_inv_def)
  qed
next
  case (returned sv sv')
  then obtain core where core: "sv_at sv = Joining" "sv_servers sv = []" "sv_drain sv = Drained core"
    "sv' = sv\<lparr>sv_at := Returned (snd (serve_end (sv_signalled sv) (sv_ended sv) core (registry_of sv)))\<rparr>"
    by (auto simp: return_step_def shutdown_result_def split: serve_label.splits list.splits drain.splits)
  have "systems_inv libs sv' \<and> drain_inv sv'"
    using returned.prems frame[of sv' sv] core(4) by (simp add: server_inv_def)
  moreover have "label_inv sv'"
    using returned.prems core serve_end_Ok[of "sv_signalled sv" "sv_ended sv" core "registry_of sv"]
    by (auto simp: server_inv_def label_inv_def)
  ultimately show ?case by (simp add: server_inv_def)
next
  case (dropped sv sv')
  then have "sv' = (begin_shutdown sv)\<lparr>sv_stop := True, sv_servers := [], sv_at := Dropped\<rparr>"
    by (simp add: drop_step_def split: if_splits)
  then show ?case using dropped.prems frame[of sv' "begin_shutdown sv"] begin_shutdown_inv[of libs sv]
    by (simp add: server_inv_def label_inv_def)
qed

interpretation server_system: invariant_system "server_initial libs" "server_step libs" "server_inv libs" for libs
  by unfold_locales (auto intro: server_initial_inv server_step_inv)


section \<open>Progress\<close>

definition server_reachable :: "registry_libs \<Rightarrow> 'r server \<Rightarrow> bool" where
  "server_reachable libs sv \<longleftrightarrow> (\<exists>sv0. server_initial libs sv0 \<and> (server_step libs)\<^sup>*\<^sup>* sv0 sv)"

lemma server_reachable_inv: "server_reachable libs sv \<Longrightarrow> server_inv libs sv"
  unfolding server_reachable_def using server_system.reachable_inv by blast

text \<open>The steps that \<open>serve\<close> and the shutdown worker take on their own, and a bound on those left.\<close>

definition own_step :: "'r server \<Rightarrow> 'r server \<Rightarrow> bool" where
  "own_step sv sv' \<longleftrightarrow> (\<exists>dropped. drain_step dropped sv = Some sv') \<or> (\<exists>i. join_step i sv = Some sv') \<or> return_step sv = Some sv'"

definition drain_weight :: "drain \<Rightarrow> nat" where
  "drain_weight d = (case d of Not_closed \<Rightarrow> 0 | Draining ns \<Rightarrow> 2 * length ns + 1 | Retiring n ns \<Rightarrow> 2 * length ns + 2 | Drained r \<Rightarrow> 0)"

definition serve_weight :: "'r server \<Rightarrow> nat" where
  "serve_weight sv = drain_weight (sv_drain sv) + length (sv_servers sv) + (if sv_at sv = Joining then 1 else 0)"

lemma drain_step_weight: "drain_step dropped sv = Some sv' \<Longrightarrow> serve_weight sv' < serve_weight sv"
  by (auto simp: drain_step_def serve_weight_def drain_weight_def split: drain.splits list.splits option.splits if_splits outcome.splits)

lemma join_step_weight: "join_step i sv = Some sv' \<Longrightarrow> sv_at sv = Joining \<Longrightarrow> serve_weight sv' < serve_weight sv"
  by (auto simp: join_step_def serve_weight_def split: option.splits if_splits)

lemma return_step_weight: "return_step sv = Some sv' \<Longrightarrow> serve_weight sv' < serve_weight sv"
  by (auto simp: return_step_def serve_weight_def split: serve_label.splits list.splits option.splits)

lemma server_step_weight:
  "server_step libs sv sv' \<Longrightarrow> sv_at sv = Joining \<Longrightarrow> sv_closed sv \<Longrightarrow> serve_weight sv' \<le> serve_weight sv"
proof (induction rule: server_step.induct)
  case (drained dropped sv sv')
  then show ?case using drain_step_weight less_imp_le by blast
next
  case (joined i sv sv')
  then show ?case using join_step_weight less_imp_le by blast
next
  case (returned sv sv')
  then show ?case using return_step_weight less_imp_le by blast
next
  case (signal sv sv')
  then show ?case by (simp add: signal_step_def)
next
  case (dropped sv sv')
  then show ?case by (auto simp: drop_step_def serve_weight_def)
qed (simp_all add: serve_weight_def)

lemma no_own_step:
  assumes "server_inv libs sv" and "sv_at sv = Joining" and "\<nexists>sv'. own_step sv sv'"
  shows "None \<in> set (sv_servers sv) \<or> list_ex (\<lambda>(n, s). \<not> is_idle (sy_db s)) (sv_systems sv)"
proof (rule ccontr)
  assume "\<not> ?thesis"
  then have tasks: "None \<notin> set (sv_servers sv)" and idle: "map_of (sv_systems sv) n = Some s \<Longrightarrow> is_idle (sy_db s)" for n s
    by (auto simp: list_ex_iff dest: map_of_SomeD)
  have closed: "sv_closed sv" using assms(1,2) by (simp add: server_inv_def label_inv_def)
  have no: "drain_step (Ok ()) sv = None" "join_step 0 sv = None" "return_step sv = None"
    using assms(3) unfolding own_step_def by (metis option.exhaust)+
  have empty: "sv_servers sv = []"
    using no(2) tasks assms(2) by (cases "sv_servers sv") (auto simp: join_step_def split: option.splits)
  have d: "sv_drain sv \<noteq> Not_closed" "pending sv \<subseteq> fst ` set (sv_systems sv)"
    using assms(1) closed by (auto simp: server_inv_def drain_inv_def)
  have known: "n \<in> pending sv \<Longrightarrow> \<exists>s. map_of (sv_systems sv) n = Some s" for n
    using d(2) weak_map_of_SomeI by force
  show False
  proof (cases "sv_drain sv")
    case (Draining ns)
    then show False using no(1) known[of "hd ns"] idle by (cases ns) (auto simp: drain_step_def pending_def split: option.splits if_splits)
  next
    case (Retiring n ns)
    then show False using no(1) known[of n] by (auto simp: drain_step_def pending_def split: option.splits)
  next
    case (Drained r)
    then show False using no(3) assms(2) empty by (simp add: return_step_def shutdown_result_def)
  qed (use d in simp)
qed


lemma returned_drained:
  assumes "server_reachable libs sv" and "sv_at sv = Returned (Ok ())" and "map_of (sv_systems sv) n = Some s"
  shows "sv_signalled sv \<and> sv_ended sv = [True, True] \<and> sy_job s = Idle \<and> st_current (sy_db s) = None
    \<and> sy_lifetimes s = 0 \<and> st_phase (sy_db s) = Unregistered \<and> st_resources (sy_db s) = None
    \<and> (\<nexists>s'. db_step (named libs n) s s')"
proof -
  note inv = server_reachable_inv[OF assms(1), unfolded server_inv_def]
  have label: "sv_closed sv" "sv_drain sv = Drained (Ok ())" "sv_signalled sv" "list_all id (sv_ended sv)" "length (sv_ended sv) = 2"
    using inv assms(2) by (auto simp: label_inv_def split: if_splits)
  then have r: "retired s" using inv assms(3) by (auto simp: drain_inv_def pending_def)
  have s: "reachable (named libs n) s" "sy_closed s" using inv assms(3) label(1) by (auto simp: systems_inv_def)
  note si = reachable_system_inv[OF s(1)]
  have "sv_ended sv = [True, True]"
    using label(4,5) by (auto simp: length_Suc_conv numeral_2_eq_2)
  moreover have "sy_lifetimes s = 0" using r system_active[OF si] by (simp add: retired_def is_idle_def)
  moreover have "\<nexists>s'. db_step (named libs n) s s'"
    using closed_idle_no_step[OF _ si s(2)] r by (auto simp: retired_def)
  ultimately show ?thesis using label r idle_iff[OF si] by (simp add: retired_def is_idle_def)
qed


section \<open>Properties\<close>

text \<open> C11: When \<open>serve\<close> returns without an error, the shutdown was asked for and both HTTP tasks ended well,
  and every database of the registry has drained: no operation, no request, no worker is left, its
  resources are dropped, and nothing can happen to it any more, whatever clients and workers did in between.\<close>

theorem serve_returns_drained:
  assumes "server_reachable libs sv" and "sv_at sv = Returned (Ok ())" and "map_of (sv_systems sv) n = Some s"
  shows "sv_signalled sv \<and> sv_ended sv = [True, True] \<and> sy_job s = Idle \<and> st_current (sy_db s) = None
    \<and> sy_lifetimes s = 0 \<and> st_phase (sy_db s) = Unregistered \<and> st_resources (sy_db s) = None
    \<and> (\<nexists>s'. db_step (named libs n) s s')"
  using assms by (rule returned_drained)


text \<open> C12: The shutdown of a server makes progress: once \<open>serve\<close> has stopped waiting, no step of anybody adds to
  the work that is left, each step of its own takes some away, and as long as it has not returned it can
  go on, unless an HTTP task still runs or some database still has an operation or a request.\<close>

theorem serve_progress:
  assumes "server_reachable libs sv" and "sv_at sv = Joining"
  shows "(server_step libs sv sv' \<longrightarrow> serve_weight sv' \<le> serve_weight sv)
    \<and> (own_step sv sv' \<longrightarrow> server_step libs sv sv' \<and> serve_weight sv' < serve_weight sv)
    \<and> ((\<exists>sv''. own_step sv sv'') \<or> None \<in> set (sv_servers sv)
       \<or> list_ex (\<lambda>(n, s). \<not> is_idle (sy_db s)) (sv_systems sv))"
proof (intro conjI impI)
  note inv = server_reachable_inv[OF assms(1)]
  show "serve_weight sv' \<le> serve_weight sv" if "server_step libs sv sv'"
    using server_step_weight[OF that assms(2)] inv assms(2) by (simp add: server_inv_def label_inv_def)
  show "server_step libs sv sv'" "serve_weight sv' < serve_weight sv" if "own_step sv sv'"
    using that assms(2) unfolding own_step_def
    by (blast intro: server_step.drained server_step.joined server_step.returned
        drain_step_weight join_step_weight return_step_weight)+
  show "(\<exists>sv''. own_step sv sv'') \<or> None \<in> set (sv_servers sv) \<or> list_ex (\<lambda>(n, s). \<not> is_idle (sy_db s)) (sv_systems sv)"
    using no_own_step[OF inv assms(2)] by blast
qed


section \<open>Witnesses\<close>

text \<open>
  A server without databases; \<open>app\<close> is published and served; then the shutdown is asked for, both HTTP
  tasks end and the database drains.
\<close>

abbreviation run_serving :: "unit server" where
  "run_serving \<equiv> serve_start [(''app'', pub_at 26)]"

abbreviation run_stopping :: "unit server" where
  "run_stopping \<equiv> stopping True run_serving"

definition run_closed :: "unit system" where
  "run_closed = (pub_at 26)\<lparr>sy_closed := True\<rparr>"

definition run_retired :: "unit system" where
  "run_retired = run_closed\<lparr>sy_db := retire_at_shutdown (sy_db run_closed)\<rparr>"

definition run_at :: "unit system \<Rightarrow> drain \<Rightarrow> bool option list \<Rightarrow> bool list \<Rightarrow> serve_label \<Rightarrow> unit server" where
  "run_at s d tasks ended l = \<lparr>sv_systems = [(''app'', s)], sv_closed = True, sv_stop = True, sv_drain = d,
     sv_servers = tasks, sv_at = l, sv_signalled = True, sv_ended = ended\<rparr>"

abbreviation run_end :: "unit server" where
  "run_end \<equiv> run_at run_retired (Drained (Ok ())) [] [True, True] (Returned (Ok ()))"

lemma server_reachable_step: "server_reachable libs sv \<Longrightarrow> server_step libs sv sv' \<Longrightarrow> server_reachable libs sv'"
  unfolding server_reachable_def by (meson rtranclp.rtrancl_into_rtrancl)

text \<open>The worker of one database, seen from the server.\<close>

lemma server_reachable_work:
  assumes "server_reachable libs (serve_start [(n, s)])"
  shows "server_reachable libs (serve_start [(n, work_alone (named libs n) k efs s)])"
  using assms
proof (induction k arbitrary: s efs)
  case (Suc k)
  show ?case
  proof (cases "job_step (named libs n) (efs 0) s")
    case None
    then show ?thesis using Suc.prems by simp
  next
    case (Some s')
    have "server_step libs (serve_start [(n, s)]) (set_system n s' (serve_start [(n, s)]))"
      by (rule server_step.database[OF _ db_step.work[OF Some]]) (simp add: serve_start_def)
    then have "server_reachable libs (serve_start [(n, s')])"
      using server_reachable_step[OF Suc.prems] by (simp add: set_system_def serve_start_def)
    then show ?thesis using Some Suc.IH by simp
  qed
qed simp

lemma run_serving_reachable: "server_reachable pub_libs run_serving"
proof -
  have n: "named pub_libs ''app'' = pub_libs" by (simp add: named_def pub_libs_def)
  have "server_initial pub_libs (serve_start [] :: unit server)"
    unfolding server_initial_def by (intro exI[of _ "[]"]) simp
  then have i: "server_reachable pub_libs (serve_start [] :: unit server)" unfolding server_reachable_def by blast
  have "accept_publish (rg_workspace pub_libs) False 7 ''app'' pub_request (None :: unit db_state option)
      = Ok (begin_operation 7 Publish Database_new)"
    by (simp add: accept_publish_def accept_state_def check_open_def pub_libs_def Database_new_def validate_name_def
        migration_name_char_def ascii_defs PublishRequest_validate_def pub_request_def pub_limits validate_database_def)
  then have "server_step pub_libs (serve_start []) (set_system ''app'' (entered pub_request (begin_operation 7 Publish Database_new))
      (serve_start [] :: unit server))"
    by (intro server_step.entry) (simp_all add: serve_start_def)
  then have "server_reachable pub_libs (serve_start [(''app'', pub_accepted)])"
    using server_reachable_step[OF i]
    by (simp add: set_system_def serve_start_def entered_def pub_accepted_def pub_new_def)
  from server_reachable_work[OF this, of 26 "\<lambda>_. pub_effects"] show ?thesis by (simp only: n)
qed

lemma run_stopping_at: "run_stopping = run_at run_closed (Draining [''app'']) [None, None] [] Joining"
  by (simp add: stopping_def begin_shutdown_def serve_start_def run_at_def run_closed_def)

lemma run_stopping_reachable: "server_reachable pub_libs run_stopping"
  by (rule server_reachable_step[OF run_serving_reachable server_step.signal]) (simp add: signal_step_def serve_start_def)

lemma run_idle: "is_idle (sy_db run_closed)"
  using pub_served system_active[OF reachable_system_inv[OF pub_at_reachable, of 26]]
  by (simp add: is_idle_def run_closed_def)

lemma run_drains: "drain_step (Ok ()) (run_at run_closed (Draining [''app'']) tasks ended l) = Some (run_at run_closed (Retiring ''app'' []) tasks ended l)"
  "drain_step (Ok ()) (run_at run_closed (Retiring ''app'' []) tasks ended l) = Some (run_at run_retired (Draining []) tasks ended l)"
  "drain_step (Ok ()) (run_at run_retired (Draining []) tasks ended l) = Some (run_at run_retired (Drained (Ok ())) tasks ended l)"
  by (simp_all add: drain_step_def run_at_def run_idle set_system_def task_def run_retired_def)

lemma run_joins: "server_reachable pub_libs (run_at s d (None # tasks) ended Joining) \<Longrightarrow>
    server_reachable pub_libs (run_at s d tasks (ended @ [True]) Joining)"
proof -
  assume r: "server_reachable pub_libs (run_at s d (None # tasks) ended Joining)"
  have "server_step pub_libs (run_at s d (None # tasks) ended Joining) (run_at s d (Some True # tasks) ended Joining)"
    using server_step.task_ends[of 0 "run_at s d (None # tasks) ended Joining" pub_libs True] by (simp add: run_at_def)
  moreover have "server_step pub_libs (run_at s d (Some True # tasks) ended Joining) (run_at s d tasks (ended @ [True]) Joining)"
    by (rule server_step.joined[of 0]) (simp add: join_step_def run_at_def remove_nth_def)
  ultimately show ?thesis using r server_reachable_step by blast
qed

lemma run_end_reachable: "server_reachable pub_libs run_end"
proof -
  note s = server_reachable_step[OF _ server_step.drained[OF run_drains(1)]]
    server_reachable_step[OF _ server_step.drained[OF run_drains(2)]]
    server_reachable_step[OF _ server_step.drained[OF run_drains(3)]]
  have "server_reachable pub_libs (run_at run_retired (Drained (Ok ())) [] [True, True] Joining)"
    using run_joins[OF run_joins[OF s(3)[OF s(2)[OF s(1)[OF run_stopping_reachable[unfolded run_stopping_at]]]]]] by simp
  then show ?thesis
    by (rule server_reachable_step[OF _ server_step.returned])
      (simp add: return_step_def run_at_def shutdown_result_def serve_end_Ok serve_end_def)
qed

theorem serve_returns_drained_witness: "sv_ended run_end = [True, True] \<and> st_phase (sy_db run_retired) = Unregistered"
  using serve_returns_drained[OF run_end_reachable, of "''app''" run_retired] by (simp add: run_at_def)


theorem serve_progress_witness:
  "serve_weight (run_at run_closed (Retiring ''app'' []) [None, None] [] Joining) < serve_weight run_stopping"
proof -
  have "own_step run_stopping (run_at run_closed (Retiring ''app'' []) [None, None] [] Joining)"
    unfolding own_step_def run_stopping_at using run_drains(1) by blast
  then show ?thesis using serve_progress[OF run_stopping_reachable] by (simp add: run_stopping_at run_at_def)
qed

end
