(* ===== verification/Publication_Contract.thy ===== *)
theory Publication_Contract
  imports Publication_Safety
begin

text \<open>
  The failure contract of publication (\<^verbatim>\<open>docs/migrations.md\<close>, \<^verbatim>\<open>docs/registry.md\<close>) for the transition
  system of \<open>Publication\<close>: what is served changes when a publication completes and at no other time, a
  publication that fails before it has closed the database leaves it alone, and one that has applied a
  migration serves again when it is complete or not at all.
\<close>

section \<open>What a publication leaves alone\<close>

text \<open>What a request is answered with: the interfaces, and the limits of the configuration.\<close>

definition served :: "'r system \<Rightarrow> snapshot option \<times> configuration option" where
  "served s = (st_snapshot (sy_db s), st_config (sy_db s))"

text \<open>The database serves, or its worker would reopen it if the next call failed.\<close>

definition may_serve :: "'r system \<Rightarrow> bool" where
  "may_serve s \<longleftrightarrow> st_phase (sy_db s) = Ready \<or>
     (\<exists>l pb. sy_job s = Publishing_at l pb \<and> l \<in> restoring_labels \<and> pb_previous pb = Ready)"

text \<open>A step at whose end nothing is served that was not before.\<close>

definition keeps :: "'r system \<Rightarrow> 'r system \<Rightarrow> bool" where
  "keeps s s' \<longleftrightarrow> (may_serve s' \<longrightarrow> may_serve s \<and> served s' = served s)"

lemma keeps_stop: "st_phase (sy_db t) = st_phase (sy_db s) \<Longrightarrow> served t = served s \<Longrightarrow> keeps s (stop r t)"
  by (auto simp: keeps_def may_serve_def served_def stop_def)

lemma keeps_goto:
  "st_phase (sy_db t) = st_phase (sy_db s) \<Longrightarrow> served t = served s \<Longrightarrow>
     (l \<in> restoring_labels \<Longrightarrow> pb_previous pb = Ready \<Longrightarrow> may_serve s) \<Longrightarrow> keeps s (goto l pb t)"
  by (auto simp: keeps_def may_serve_def served_def goto_def)

lemma keeps_use:
  "st_phase (sy_db t) = st_phase (sy_db s) \<Longrightarrow> served t = served s \<Longrightarrow> (\<And>x. r = Ok x \<Longrightarrow> keeps s (k x t)) \<Longrightarrow> keeps s (use r k t)"
  by (auto simp: use_def intro: keeps_stop split: outcome.split)

lemma update_progress_same:
  "update_progress f st = Ok st' \<Longrightarrow> st_phase st' = st_phase st \<and> st_snapshot st' = st_snapshot st \<and> st_config st' = st_config st"
  by (auto simp: update_progress_def outcome_simps)

lemma keeps_locked:
  assumes "st_phase (sy_db t) = st_phase (sy_db s)" "served t = served s"
    and "\<And>st. st_phase st = st_phase (sy_db s) \<Longrightarrow> served (t\<lparr>sy_db := st\<rparr>) = served s \<Longrightarrow> keeps s (k (t\<lparr>sy_db := st\<rparr>))"
  shows "keeps s (locked (update_progress f) k t)"
  unfolding locked_def
proof (rule keeps_use[OF assms(1,2)])
  fix st assume "update_progress f (sy_db t) = Ok st"
  note same = update_progress_same[OF this]
  show "keeps s (k (t\<lparr>sy_db := st\<rparr>))" by (rule assms(3)) (use same assms(1,2) in \<open>simp_all add: served_def\<close>)
qed

text \<open>Persisting: a definite failure changes nothing, an uncertain one closes the database.\<close>

lemma keeps_lost: "st_phase (sy_db t) = Recovery_required \<Longrightarrow> (\<And>l pb. sy_job t \<noteq> Publishing_at l pb) \<Longrightarrow> keeps s t"
  by (auto simp: keeps_def may_serve_def)

lemma keeps_persisting:
  assumes "st_phase (sy_db t) = st_phase (sy_db s)" "served t = served s"
    and "\<And>D. keeps s (k (t\<lparr>sy_disk := D\<rparr>))"
    and "\<And>e D st. st_phase st = st_phase (sy_db s) \<and> served (t\<lparr>sy_db := st\<rparr>) = served s \<or> st_phase st = Recovery_required \<Longrightarrow>
      keeps s (fails e (t\<lparr>sy_disk := D, sy_db := st\<rparr>))"
  shows "keeps s (persisting r rec k fails t)"
proof (cases r)
  case (Ok u)
  then show ?thesis using assms(3) by (simp add: persisting_def Let_def task_def note_persist_def commit_uncertain_def)
next
  case (Err e)
  have "st_phase (note_persist r (sy_db t)) = st_phase (sy_db s) \<and> served (t\<lparr>sy_db := note_persist r (sy_db t)\<rparr>) = served s
      \<or> st_phase (note_persist r (sy_db t)) = Recovery_required"
    using assms(1,2) by (simp add: note_persist_def served_def)
  from assms(4)[OF this] show ?thesis using Err by (simp add: persisting_def Let_def task_def)
next
  case Panic
  have "note_persist (Err worker_failed) (sy_db t) = sy_db t"
    by (simp add: note_persist_def commit_uncertain_def worker_failed_def)
  then show ?thesis using assms(1,2) Panic assms(4)[of "sy_db t"] by (simp add: persisting_def Let_def task_def)
qed

lemma keeps_reopen:
  assumes "st_phase (sy_db t) = st_phase (sy_db s) \<and> served t = served s \<or> st_phase (sy_db t) = Recovery_required"
    and "pb_previous pb = Ready \<Longrightarrow> may_serve s"
  shows "keeps s (reopen pb e t)"
  using assms
  by (auto simp: reopen_def restore_admission_def keeps_def may_serve_def served_def stop_def split: if_splits)

lemma keeps_closing:
  assumes "st_phase (sy_db t) = st_phase (sy_db s)" "served t = served s"
  shows "keeps s (closing l pb t)"
  unfolding closing_def
proof (rule keeps_use[OF assms], clarify)
  fix p st assume "close_admission (sy_db t) = Ok (p, st)"
  then have "p = st_phase (sy_db s) \<and> st_phase st = Publishing \<and> st_snapshot st = st_snapshot (sy_db t) \<and> st_config st = st_config (sy_db t)"
    using assms(1) update_progress_same[of _ "(sy_db t)\<lparr>st_phase := Publishing\<rparr>" st] by (auto simp: close_admission_def outcome_simps)
  then show "keeps s (goto l (pb\<lparr>pb_previous := p\<rparr>) (t\<lparr>sy_db := st\<rparr>))"
    using assms(2) by (auto simp: keeps_def may_serve_def served_def goto_def)
qed

lemma keeps_fail_migration:
  "st_phase (sy_db t) = st_phase (sy_db s) \<Longrightarrow> served t = served s \<Longrightarrow> keeps s (fail_migration v e t)"
  unfolding fail_migration_def by (rule keeps_locked) (auto intro: keeps_stop)

lemmas keeps_intros = keeps_stop keeps_goto keeps_use keeps_locked keeps_persisting keeps_reopen keeps_closing keeps_fail_migration

lemma publish_step_keeps:
  assumes inv: "system_inv s" and job: "sy_job s = Publishing_at l pb" and l: "l \<noteq> At_complete"
    and step: "publish_step libs ef l pb s = Some s'"
  shows "keeps s s'"
proof -
  have m: "l \<in> restoring_labels \<Longrightarrow> pb_previous pb = Ready \<Longrightarrow> may_serve s" using job by (auto simp: may_serve_def)
  have r: "reservation l pb s" using inv job by (simp add: system_inv_def)
  show ?thesis
  proof (cases "l \<in> {At_adopt, At_block, At_unblock, At_persist, At_apply, At_applying, At_final}")
    case False
    then show ?thesis using step l m
      by (cases l) (auto simp: publish_step_def served_def label_sets intro!: keeps_intros split: if_splits option.splits outcome.splits)
  next
    case True
    have lost: "keeps s (stop (Err e) t)"
      if "st_phase (sy_db t) = st_phase (sy_db s) \<and> served t = served s \<or> st_phase (sy_db t) = Recovery_required" for e t
      using that by (auto simp: keeps_def may_serve_def served_def stop_def)
    have "keeps s (goto At_drop pb (s\<lparr>sy_db := adopt c x y (sy_db s)\<rparr>))" if "l = At_adopt" for c x y
      using that r by (auto simp: keeps_def may_serve_def goto_def adopt_def restoring_labels_def reservation_def closed_labels_def)
    then have adopt: "keeps s s'" if "l = At_adopt"
      using that step by (cases "pb_resources pb") (auto simp: publish_step_def use_def intro: keeps_stop)
    have "keeps s s'" if "l \<noteq> At_adopt" using step l m True that
      by (cases l) (auto simp: publish_step_def served_def label_sets
          intro!: keeps_use keeps_locked keeps_persisting keeps_goto keeps_stop keeps_reopen lost keeps_fail_migration
          split: if_splits option.splits outcome.splits list.splits)
    then show ?thesis using adopt by blast
  qed
qed


lemma start_publish_keeps: "sy_job s = Starting req \<Longrightarrow> keeps s (start_publish libs req s)"
  unfolding start_publish_def Let_def
  by (intro keeps_use keeps_goto) (auto simp: restoring_labels_def)

text \<open>The worker's last step before a database serves new interfaces.\<close>

definition completes :: "'r system \<Rightarrow> 'r system \<Rightarrow> bool" where
  "completes s s' \<longleftrightarrow> (\<exists>pb. sy_job s = Publishing_at At_complete pb) \<and> sy_job s' \<noteq> sy_job s"

lemma publish_step_leaves: "publish_step libs ef At_complete pb s = Some s' \<Longrightarrow> sy_job s' \<noteq> Publishing_at At_complete pb"
  by (auto simp: publish_step_def use_def locked_def stop_def goto_def split: outcome.splits)

lemma job_step_keeps:
  assumes "system_inv s" and step: "job_step libs ef s = Some s'" and "\<not> completes s s'"
  shows "keeps s s'"
proof (cases "sy_job s")
  case (Starting req)
  then show ?thesis using step start_publish_keeps[OF Starting, of libs] by (auto simp: job_step_def)
next
  case (Publishing_at l pb)
  then have p: "publish_step libs ef l pb s = Some s'" using step by (simp add: job_step_def)
  then have "l \<noteq> At_complete" using assms(3) Publishing_at publish_step_leaves[of libs ef pb s s'] by (auto simp: completes_def)
  then show ?thesis using publish_step_keeps[OF assms(1) Publishing_at _ p] by blast
next
  case (Publish_done r)
  then show ?thesis using step
    by (auto simp: job_step_def end_publish_def finish_operation_def keeps_def may_serve_def served_def outcome_simps Let_def split: outcome.splits if_splits)
next
  case (Unregistering_at u)
  then have "st_phase (sy_db s) \<noteq> Ready" using assms(1) by (simp add: system_inv_def)
  then show ?thesis using step Unregistering_at
    by (cases u) (auto simp: job_step_def unregister_step_def keeps_def may_serve_def retire_registration_def split: outcome.splits if_splits)
next
  case (Unregister_done r)
  then show ?thesis using step
    by (auto simp: job_step_def end_unregister_def finish_operation_def keeps_def may_serve_def outcome_simps Let_def split: outcome.splits if_splits)
qed (use step in \<open>simp add: job_step_def\<close>)

lemma db_step_keeps: "db_step libs s s' \<Longrightarrow> system_inv s \<Longrightarrow> \<not> completes s s' \<Longrightarrow> keeps s s'"
proof (induction rule: db_step.induct)
  case (work ef s s')
  then show ?case by (blast intro: job_step_keeps)
qed (auto simp: admit_Ok begin_export_Ok release_def accept_publish_Ok accept_unregister_Ok begin_operation_def
    keeps_def may_serve_def served_def split: if_splits)

lemma keeps_trans: "keeps s t \<Longrightarrow> keeps t u \<Longrightarrow> keeps s u"
  by (auto simp: keeps_def)


section \<open>Once a migration was applied\<close>

text \<open>The progress of the current publication.\<close>

definition current_progress :: "'r db_state \<Rightarrow> publish_progress option" where
  "current_progress st = Option.bind (st_current st) op_publish"

definition late_labels :: "label set" where
  "late_labels = {At_apply, At_applying, At_unblock, At_load, At_loading, At_final, At_complete}"

text \<open>
  Once it has applied a file, a publication has closed the database for good: it serves again when it
  is complete, or not at all.
\<close>

definition applied_inv :: "'r system \<Rightarrow> bool" where
  "applied_inv s \<longleftrightarrow> (case current_progress (sy_db s) of
      None \<Rightarrow> True
    | Some p \<Rightarrow> pp_applied_versions p = [] \<or>
        (st_phase (sy_db s) \<in> {Publishing, Recovery_required} \<and>
          (case sy_job s of Publishing_at l pb \<Rightarrow> l \<in> late_labels | Publish_done r \<Rightarrow> \<not> is_ok r | _ \<Rightarrow> False)) \<or>
        (pp_step p = Complete \<and>
          (case sy_job s of Publishing_at l pb \<Rightarrow> l = At_retire | Publish_done r \<Rightarrow> True | _ \<Rightarrow> False)))"

text \<open>Nothing was applied.\<close>

definition fresh :: "'r db_state \<Rightarrow> bool" where
  "fresh st \<longleftrightarrow> (\<forall>p. current_progress st = Some p \<longrightarrow> pp_applied_versions p = [])"

lemma fresh_inv: "fresh (sy_db s) \<Longrightarrow> applied_inv s"
  by (simp add: fresh_def applied_inv_def split: option.split)

lemma fresh_simps [simp]:
  "fresh (st\<lparr>st_phase := p\<rparr>) = fresh st" "fresh (st\<lparr>st_invalid_record := b\<rparr>) = fresh st"
  "fresh (st\<lparr>st_config := c\<rparr>) = fresh st" "fresh (st\<lparr>st_record := x\<rparr>) = fresh st"
  "fresh (st\<lparr>st_resources := y\<rparr>) = fresh st" "fresh (st\<lparr>st_snapshot := sn\<rparr>) = fresh st"
  "fresh (st\<lparr>st_active := n\<rparr>) = fresh st" "fresh (st\<lparr>st_error := e\<rparr>) = fresh st"
  by (simp_all add: fresh_def current_progress_def)

lemma fresh_calls [simp]:
  "fresh (note_persist r st) = fresh st" "fresh (restore_admission p st) = fresh st" "fresh (adopt c x y st) = fresh st"
  by (simp_all add: note_persist_def restore_admission_def adopt_def)

lemma fresh_progress:
  assumes "update_progress f st = Ok st'" and "fresh st" and "\<And>p. pp_applied_versions (f p) = pp_applied_versions p"
  shows "fresh st'"
  using assms by (auto simp: update_progress_def fresh_def current_progress_def outcome_simps)

lemma fresh_stop: "fresh (sy_db s) \<Longrightarrow> fresh (sy_db (stop r s))" "fresh (sy_db s) \<Longrightarrow> fresh (sy_db (goto l pb s))"
  by (simp_all add: stop_def goto_def)

lemma fresh_use: "fresh (sy_db s) \<Longrightarrow> (\<And>x. r = Ok x \<Longrightarrow> fresh (sy_db (k x s))) \<Longrightarrow> fresh (sy_db (use r k s))"
  by (auto simp: use_def intro: fresh_stop split: outcome.split)

lemma fresh_locked:
  assumes "fresh (sy_db s)" and "\<And>p. pp_applied_versions (f p) = pp_applied_versions p"
    and "\<And>st. fresh st \<Longrightarrow> fresh (sy_db (k (s\<lparr>sy_db := st\<rparr>)))"
  shows "fresh (sy_db (locked (update_progress f) k s))"
  using assms fresh_progress[OF _ assms(1,2)] by (auto simp: locked_def use_def intro: fresh_stop split: outcome.split)

lemma fresh_persisting:
  assumes "fresh (sy_db s)" and "\<And>D st. fresh st \<Longrightarrow> fresh (sy_db (k (s\<lparr>sy_disk := D, sy_db := st\<rparr>)))"
    and "\<And>e D st. fresh st \<Longrightarrow> fresh (sy_db (fails e (s\<lparr>sy_disk := D, sy_db := st\<rparr>)))"
  shows "fresh (sy_db (persisting r rec k fails s))"
  using assms by (auto simp: persisting_def Let_def intro: fresh_stop split: outcome.split)

lemma fresh_reopen: "fresh (sy_db s) \<Longrightarrow> fresh (sy_db (reopen pb e s))"
  unfolding reopen_def by (rule fresh_stop) simp

lemma fresh_closing: "fresh (sy_db s) \<Longrightarrow> fresh (sy_db (closing l pb s))"
  unfolding closing_def
proof (rule fresh_use, assumption, clarify)
  fix p st assume f: "fresh (sy_db s)" and c: "close_admission (sy_db s) = Ok (p, st)"
  have "update_progress (\<lambda>p. p\<lparr>pp_step := Draining\<rparr>) ((sy_db s)\<lparr>st_phase := Publishing\<rparr>) = Ok st"
    using c by (auto simp: close_admission_def outcome_simps)
  then have "fresh st" by (rule fresh_progress) (use f in simp_all)
  then show "fresh (sy_db (goto l (pb\<lparr>pb_previous := p\<rparr>) (s\<lparr>sy_db := st\<rparr>)))" by (intro fresh_stop) simp
qed

lemma fresh_fail_migration: "fresh (sy_db s) \<Longrightarrow> fresh (sy_db (fail_migration v e s))"
  unfolding fail_migration_def by (rule fresh_locked) (auto intro: fresh_stop)

lemmas fresh_intros = fresh_stop fresh_use fresh_locked fresh_persisting fresh_reopen fresh_closing fresh_fail_migration

lemma publish_step_fresh:
  assumes "fresh (sy_db s)" and "l \<notin> {At_applying, At_complete}" and "publish_step libs ef l pb s = Some s'"
  shows "fresh (sy_db s')"
  using assms
  by (cases l) (auto simp: publish_step_def intro!: fresh_intros split: if_splits option.splits outcome.splits list.splits)


abbreviation closed_phase :: "'r db_state \<Rightarrow> bool" where
  "closed_phase st \<equiv> st_phase st \<in> {Publishing, Recovery_required}"

definition late :: "'r system \<Rightarrow> bool" where
  "late s \<longleftrightarrow> closed_phase (sy_db s) \<and>
     (case sy_job s of Publishing_at l pb \<Rightarrow> l \<in> late_labels | Publish_done r \<Rightarrow> \<not> is_ok r | _ \<Rightarrow> False)"

lemma late_inv: "late s \<Longrightarrow> applied_inv s"
  by (simp add: late_def applied_inv_def split: option.split)

lemma late_stop: "closed_phase (sy_db s) \<Longrightarrow> \<not> is_ok r \<Longrightarrow> late (stop r s)"
  by (cases r) (simp_all add: late_def stop_def task_def)

lemma late_goto: "closed_phase (sy_db s) \<Longrightarrow> l \<in> late_labels \<Longrightarrow> late (goto l pb s)"
  by (simp add: late_def goto_def)

lemma late_use: "closed_phase (sy_db s) \<Longrightarrow> (\<And>x. r = Ok x \<Longrightarrow> late (k x s)) \<Longrightarrow> late (use r k s)"
  by (auto simp: use_def intro: late_stop split: outcome.split)

lemma late_locked:
  assumes "closed_phase (sy_db s)" and "\<And>st. closed_phase st \<Longrightarrow> late (k (s\<lparr>sy_db := st\<rparr>))"
  shows "late (locked (update_progress f) k s)"
  unfolding locked_def
proof (rule late_use[OF assms(1)])
  fix st assume "update_progress f (sy_db s) = Ok st"
  from update_progress_same[OF this] have "closed_phase st" using assms(1) by simp
  then show "late (k (s\<lparr>sy_db := st\<rparr>))" by (rule assms(2))
qed

lemma late_persisting:
  assumes "closed_phase (sy_db s)" and "\<And>D st. closed_phase st \<Longrightarrow> late (k (s\<lparr>sy_disk := D, sy_db := st\<rparr>))"
    and "\<And>e D st. closed_phase st \<Longrightarrow> late (fails e (s\<lparr>sy_disk := D, sy_db := st\<rparr>))"
  shows "late (persisting r rec k fails s)"
proof -
  have "closed_phase (note_persist x (sy_db s))" for x using assms(1) by (simp add: note_persist_def)
  then show ?thesis using assms(2,3)
    by (cases r) (simp_all add: persisting_def Let_def task_def)
qed

lemma late_fail_migration: "closed_phase (sy_db s) \<Longrightarrow> late (fail_migration v e s)"
  unfolding fail_migration_def by (rule late_locked) (auto intro: late_stop)

lemmas late_intros = late_stop late_goto late_use late_locked late_persisting late_fail_migration

lemma complete_step_inv:
  assumes inv: "system_inv s" and job: "sy_job s = Publishing_at At_complete pb" and step: "publish_step libs ef At_complete pb s = Some s'"
  shows "\<exists>p sn r. sy_job s' = Publishing_at At_retire pb \<and> st_phase (sy_db s') = Ready \<and> current_progress (sy_db s') = Some p \<and> pp_step p = Complete
    \<and> pb_snapshot pb = Some sn \<and> pb_resources pb = Some r \<and> st_snapshot (sy_db s') = Some sn \<and> st_resources (sy_db s') = Some r
    \<and> st_config (sy_db s') = Some (pb_config pb) \<and> st_record (sy_db s') = Some (pb_candidate pb)"
proof -
  obtain r sn where rs: "pb_resources pb = Some r" "pb_snapshot pb = Some sn" and p: "publish_op (sy_db s)"
    using inv job by (auto simp: system_inv_def records_def)
  then obtain op p where op: "st_current (sy_db s) = Some op" "op_publish op = Some p" by (auto simp: publish_op_def)
  show ?thesis using step rs op
    by (auto simp: publish_step_def use_def locked_def complete_publish_def update_progress_def unwrap_def goto_def current_progress_def)
qed

lemma publish_step_applied:
  assumes inv: "system_inv s" and ai: "applied_inv s" and job: "sy_job s = Publishing_at l pb" and step: "publish_step libs ef l pb s = Some s'"
  shows "applied_inv s'"
proof (cases "l = At_complete")
  case True
  obtain p where "sy_job s' = Publishing_at At_retire pb" "current_progress (sy_db s') = Some p" "pp_step p = Complete"
    using complete_step_inv[OF inv job[unfolded True] step[unfolded True]] by blast
  then show ?thesis by (simp add: applied_inv_def)
next
  case nc: False
  show ?thesis
  proof (cases "fresh (sy_db s) \<and> l \<noteq> At_applying")
    case True
    then show ?thesis using publish_step_fresh[OF _ _ step] nc by (intro fresh_inv) blast
  next
    case False
    then consider "l = At_applying" | "l \<in> late_labels" "closed_phase (sy_db s)"
      | p where "current_progress (sy_db s) = Some p" "pp_step p = Complete" "l = At_retire"
      using ai job by (auto simp: fresh_def applied_inv_def)
    then show ?thesis
    proof cases
      case 3
      then have "sy_db s' = sy_db s \<and> (\<exists>r. sy_job s' = Publish_done r)" using step by (auto simp: publish_step_def stop_def)
      then show ?thesis using 3 by (auto simp: applied_inv_def)
    next
      case 1
      have "closed_phase (sy_db s)" using blocked_state(2)[OF inv job] 1 by (simp add: blocked_labels_def)
      then have "late s'" using step 1
        by (auto simp: publish_step_def late_labels_def intro!: late_intros split: list.splits outcome.splits)
      then show ?thesis by (rule late_inv)
    next
      case 2
      then have "late s'" using step nc
        by (cases l) (auto simp: publish_step_def late_labels_def intro!: late_intros split: list.splits outcome.splits)
      then show ?thesis by (rule late_inv)
    qed
  qed
qed

lemma job_step_applied:
  assumes inv: "system_inv s" and ai: "applied_inv s" and step: "job_step libs ef s = Some s'"
  shows "applied_inv s'"
proof (cases "sy_job s")
  case (Publishing_at l pb)
  then show ?thesis using publish_step_applied[OF inv ai Publishing_at] step by (simp add: job_step_def)
next
  case (Starting req)
  have "fresh (sy_db s)" using ai Starting by (auto simp: applied_inv_def fresh_def split: option.splits)
  then have "fresh (sy_db (start_publish libs req s))"
    unfolding start_publish_def Let_def by (intro fresh_use fresh_stop)
  then show ?thesis using step Starting by (auto simp: job_step_def intro: fresh_inv)
next
  case (Publish_done r)
  then have "st_current (sy_db s') = None" using step
    by (auto simp: job_step_def end_publish_def finish_operation_def outcome_simps Let_def split: outcome.splits)
  then show ?thesis by (simp add: applied_inv_def current_progress_def)
next
  case (Unregister_done r)
  then have "st_current (sy_db s') = None" using step
    by (auto simp: job_step_def end_unregister_def finish_operation_def outcome_simps Let_def split: outcome.splits)
  then show ?thesis by (simp add: applied_inv_def current_progress_def)
next
  case (Unregistering_at u)
  have "fresh (sy_db s)" using ai Unregistering_at by (auto simp: applied_inv_def fresh_def split: option.splits)
  then have "fresh (sy_db s')" using step Unregistering_at
    by (cases u) (auto simp: job_step_def unregister_step_def retire_registration_def fresh_def current_progress_def split: outcome.splits if_splits)
  then show ?thesis by (rule fresh_inv)
qed (use step in \<open>simp add: job_step_def\<close>)

lemma applied_inv_cong:
  "current_progress (sy_db s') = current_progress (sy_db s) \<Longrightarrow> st_phase (sy_db s') = st_phase (sy_db s) \<Longrightarrow> sy_job s' = sy_job s \<Longrightarrow>
     applied_inv s' = applied_inv s"
  by (simp only: applied_inv_def)

lemma system_step_applied: "system_step libs s s' \<Longrightarrow> system_inv s \<Longrightarrow> applied_inv s \<Longrightarrow> applied_inv s'"
proof (induction rule: system_step.induct)
  case (db s s')
  then show ?case
  proof (induction rule: db_step.induct)
    case (work ef s s')
    then show ?case by (blast intro: job_step_applied)
  next
    case (publish s v req st)
    then show ?case by (intro fresh_inv) (auto simp: accept_publish_Ok begin_operation_def fresh_def current_progress_def)
  next
    case (unregister s v st)
    then show ?case by (intro fresh_inv) (auto simp: accept_unregister_Ok begin_operation_def fresh_def current_progress_def)
  next
    case (release_request s st)
    then show ?case
      by (subst applied_inv_cong[of _ s]) (auto simp: release_def current_progress_def split: if_splits)
  qed (subst applied_inv_cong; auto simp: admit_Ok begin_export_Ok current_progress_def)+
next
  case (retire s)
  then show ?case by (simp add: applied_inv_def current_progress_def retire_at_shutdown_def)
next
  case (restart d s calls)
  have "st_current (sy_db (started libs calls d)) = None"
    using idle_iff[OF start_open[OF restart(2)], of libs] by (simp add: started_def)
  then show ?case by (simp add: applied_inv_def current_progress_def)
qed (simp add: applied_inv_cong[of "s\<lparr>sy_closed := True\<rparr>" s for s])


interpretation applied_system:
  invariant_system "initial libs" "system_step libs" "\<lambda>s. system_inv s \<and> applied_inv s" for libs
proof unfold_locales
  show "system_inv s \<and> applied_inv s" if i: "initial libs s" for s :: "'a system"
  proof -
    have "sy_job s = Idle" using i by (auto simp: initial_def started_def)
    then have "st_current (sy_db s) = None" using idle_iff[OF initial_inv[OF i]] by simp
    then show ?thesis using initial_inv[OF i] by (simp add: applied_inv_def current_progress_def)
  qed
qed (blast intro: system_step_inv system_step_applied)

lemma reachable_applied_inv: "reachable libs s \<Longrightarrow> applied_inv s"
  unfolding reachable_def using applied_system.reachable_inv by blast


text \<open>A step that ends a publication while the database is open leaves it as it was.\<close>

lemma use_done:
  "sy_job (use r k s) = Publish_done (Err e) \<Longrightarrow> (\<And>x. r = Ok x \<Longrightarrow> sy_job (k x s) = Publish_done (Err e) \<Longrightarrow> sy_db (k x s) = sy_db s) \<Longrightarrow>
     sy_db (use r k s) = sy_db s"
  by (auto simp: use_def stop_def split: outcome.splits)

lemma goto_not_done [simp]: "sy_job (goto l pb s) \<noteq> Publish_done r" "sy_job (closing l pb s) = Publish_done r \<Longrightarrow> sy_db (closing l pb s) = sy_db s"
  by (auto simp: goto_def closing_def use_def stop_def split: outcome.splits prod.splits)

lemma locked_goto_done: "sy_job (locked f (goto l pb) s) = Publish_done r \<Longrightarrow> sy_db (locked f (goto l pb) s) = sy_db s"
  by (auto simp: locked_def use_def stop_def goto_def split: outcome.splits)

lemma stop_db [simp]: "sy_db (stop r s) = sy_db s"
  by (simp add: stop_def)

lemma final_done:
  assumes "sy_job (persisting r rec (goto l pb) (\<lambda>e. stop (Err e)) s) = Publish_done (Err e)" and "\<not> commit_uncertain (Err e)"
  shows "sy_db (persisting r rec (goto l pb) (\<lambda>e. stop (Err e)) s) = sy_db s"
  using assms by (cases r) (auto simp: persisting_def Let_def task_def note_persist_def stop_def)

lemma stopping_same:
  assumes "l \<notin> closed_labels" and "publish_step libs ef l pb s = Some s'" and "sy_job s' = Publish_done (Err e)"
    and "\<not> commit_uncertain (Err e)"
  shows "sy_db s' = sy_db s"
  using assms
  by (cases l) (auto simp: publish_step_def label_sets split: if_splits option.splits intro!: locked_goto_done final_done use_done)


section \<open>Properties\<close>

text \<open> C17: Whatever clients, the worker and failing calls do: as long as no publication completes, a database that
  is ready again serves the interfaces and limits it served before. New interfaces come from a completed
  publication only.\<close>

theorem served_until_completed:
  assumes "reachable libs s" and "st_phase (sy_db s) = Ready"
    and "(\<lambda>s s'. db_step libs s s' \<and> \<not> completes s s')\<^sup>*\<^sup>* s s'" and "st_phase (sy_db s') = Ready"
  shows "st_snapshot (sy_db s') = st_snapshot (sy_db s) \<and> st_config (sy_db s') = st_config (sy_db s)"
proof -
  have "keeps s s' \<and> reachable libs s'" using assms(3)
  proof induction
    case base
    then show ?case using assms(1) by (simp add: keeps_def)
  next
    case (step t u)
    then show ?case using keeps_trans db_step_keeps[OF _ reachable_system_inv] reachable_step[OF _ system_step.db] by blast
  qed
  then show ?thesis using assms(2,4) by (simp add: keeps_def may_serve_def served_def)
qed

text \<open> C16: A publication that fails while the database is still ready leaves the database exactly as it was, unless
  it was the final replacement of the record whose durability is unknown; and when its worker has ended, the
  database is ready with the same interfaces, limits and resources, and its operation is recorded as failed.\<close>

theorem failed_publication_keeps_serving:
  assumes "reachable libs s" and "st_phase (sy_db s) = Ready" and "sy_job s = Publishing_at l pb"
    and "job_step libs ef s = Some s'" and "sy_job s' = Publish_done (Err e)" and "err_code e \<noteq> ''workspace_commit_uncertain''"
  shows "sy_db s' = sy_db s
    \<and> (\<exists>s'' op. job_step libs ef' s' = Some s'' \<and> sy_job s'' = Idle \<and> st_phase (sy_db s'') = Ready
        \<and> st_last (sy_db s'') = Some op \<and> op_outcome op = Failed \<and> op_error op = Some e
        \<and> st_snapshot (sy_db s'') = st_snapshot (sy_db s) \<and> st_config (sy_db s'') = st_config (sy_db s)
        \<and> st_resources (sy_db s'') = st_resources (sy_db s))"
proof -
  note inv = reachable_system_inv[OF assms(1)]
  have "l \<notin> closed_labels" using inv assms(2,3) by (auto simp: system_inv_def reservation_def)
  moreover have "publish_step libs ef l pb s = Some s'" using assms(3,4) by (simp add: job_step_def)
  moreover have "\<not> commit_uncertain (Err e)" using assms(6) by (simp add: commit_uncertain_def)
  ultimately have same: "sy_db s' = sy_db s" using assms(5) by (intro stopping_same)
  moreover obtain op where "st_current (sy_db s) = Some op" using inv assms(3) by (auto simp: system_inv_def publish_op_def)
  ultimately show ?thesis using assms(2,5)
    by (simp add: job_step_def end_publish_def finish_operation_def unwrap_def Let_def result_error_def)
qed

text \<open> C15: Once a publication has applied a migration, the database does not serve until that publication is
  complete: everything else it can end in is a database that asks for recovery.\<close>

theorem applied_serves_when_complete:
  assumes "reachable libs s" and "current_progress (sy_db s) = Some p" and "pp_applied_versions p \<noteq> []" and "pp_step p \<noteq> Complete"
  shows "admit closed (sy_db s) meth segs = Err (if closed then shutting_down else unavailable)
    \<and> (sy_job s = Publish_done r \<longrightarrow> job_step libs ef s = Some s' \<longrightarrow> st_phase (sy_db s') = Recovery_required)"
proof (intro conjI impI)
  have i: "closed_phase (sy_db s)" "case sy_job s of Publishing_at l pb \<Rightarrow> l \<in> late_labels | Publish_done r \<Rightarrow> \<not> is_ok r | _ \<Rightarrow> False"
    using reachable_applied_inv[OF assms(1)] assms(2-4) by (auto simp: applied_inv_def)
  then show "admit closed (sy_db s) meth segs = Err (if closed then shutting_down else unavailable)"
    by (intro admit_closed_phase) auto
  show "st_phase (sy_db s') = Recovery_required" if "sy_job s = Publish_done r" "job_step libs ef s = Some s'"
    using that i by (auto simp: job_step_def end_publish_def finish_operation_def outcome_simps Let_def split: outcome.splits if_splits)
qed


section \<open>Witnesses\<close>

text \<open>A second publication of the served database, whose first call fails.\<close>

definition pub_again :: "unit system" where
  "pub_again = (pub_at 26)\<lparr>sy_db := begin_operation 9 Publish (sy_db (pub_at 26)), sy_job := Starting pub_request\<rparr>"

lemma pub_again_step: "db_step pub_libs (pub_at 26) pub_again"
proof -
  have "\<not> st_invalid_record (sy_db (pub_at 26))"
    by (simp add: work_alone_numeral pub_run pub_values end_publish_def finish_operation_def)
  then have "accept_publish (rg_workspace pub_libs) (sy_closed (pub_at 26)) 9 (rg_name pub_libs) pub_request (Some (sy_db (pub_at 26)))
      = Ok (begin_operation 9 Publish (sy_db (pub_at 26)))"
    using pub_served
    by (simp add: accept_publish_Ok pub_libs_def validate_name_def migration_name_char_def ascii_defs
        PublishRequest_validate_def pub_request_def pub_limits validate_database_def)
  then show ?thesis unfolding pub_again_def by (rule db_step.publish)
qed

lemma pub_again_ready: "st_phase (sy_db pub_again) = Ready" "sy_job pub_again = Starting pub_request"
  using pub_served by (simp_all add: pub_again_def begin_operation_def)

lemma pub_again_started:
  obtains pb where "job_step pub_libs pub_effects pub_again = Some (goto At_prepare pb pub_again)"
  by (simp add: job_step_def pub_again_ready start_publish_def use_def Let_def pub_request_def pub_libs_def
      Configuration_from_record_def pub_limits)

theorem served_until_completed_witness:
  "st_snapshot (sy_db pub_again) = st_snapshot (sy_db (pub_at 26)) \<and> st_phase (sy_db pub_again) = Ready"
proof -
  have "\<not> completes (pub_at 26) pub_again" using pub_served by (simp add: completes_def)
  then have "(\<lambda>s s'. db_step pub_libs s s' \<and> \<not> completes s s')\<^sup>*\<^sup>* (pub_at 26) pub_again"
    using pub_again_step by (intro r_into_rtranclp) simp
  from served_until_completed[OF pub_at_reachable _ this] show ?thesis using pub_served pub_again_ready by simp
qed

theorem failed_publication_keeps_serving_witness:
  "\<exists>pb (s :: unit system) (s'' :: unit system). reachable pub_libs s \<and> sy_job s = Publishing_at At_prepare pb \<and> sy_job s'' = Idle \<and> st_phase (sy_db s'') = Ready
     \<and> st_snapshot (sy_db s'') = st_snapshot (sy_db s)"
proof -
  obtain pb where "job_step pub_libs pub_effects pub_again = Some (goto At_prepare pb pub_again)" by (rule pub_again_started)
  then have r: "reachable pub_libs (goto At_prepare pb pub_again)"
    using reachable_step[OF reachable_step[OF pub_at_reachable system_step.db[OF pub_again_step]]] system_db_steps(6) by blast
  have "st_phase (sy_db (goto At_prepare pb pub_again)) = Ready" "sy_job (goto At_prepare pb pub_again) = Publishing_at At_prepare pb"
    "job_step pub_libs (pub_effects\<lparr>ef_call := Err busy\<rparr>) (goto At_prepare pb pub_again) = Some (stop (Err busy) (goto At_prepare pb pub_again))"
    "sy_job (stop (Err busy) (goto At_prepare pb pub_again)) = Publish_done (Err busy)" "err_code busy \<noteq> ''workspace_commit_uncertain''"
    using pub_again_ready by (simp_all add: goto_def job_step_def publish_step_def pub_effects_def use_def stop_def task_def busy_def)
  from failed_publication_keeps_serving[OF r this, where ef' = pub_effects] r this(2) show ?thesis by blast
qed

theorem applied_serves_when_complete_witness:
  "admit False (sy_db (pub_at 18)) ''GET'' [] = Err unavailable"
proof -
  have "\<exists>p. current_progress (sy_db (pub_at 18)) = Some p \<and> pp_applied_versions p \<noteq> [] \<and> pp_step p \<noteq> Complete"
    by (simp add: work_alone_numeral pub_run pub_values current_progress_def)
  then obtain p where "current_progress (sy_db (pub_at 18)) = Some p" "pp_applied_versions p \<noteq> []" "pp_step p \<noteq> Complete" by blast
  from applied_serves_when_complete[OF pub_at_reachable this] show ?thesis by simp
qed

end
