(* ===== verification/Durability.thy ===== *)
theory Durability
  imports Publication_Contract
begin

text \<open>
  The transition system of \<open>Publication\<close> on a file system: the worker's calls of \<open>persist\<close> and
  \<open>remove\<close> are those of \<open>Workspace\<close>, run on a file system that may fail at any call, and a crash may
  leave the file \<^verbatim>\<open>database.toml\<close> in any state the file system allows. The set of records that
  \<open>Publication\<close> keeps covers what is really there, so what was proved of it holds of the files.
\<close>

section \<open>The file of a database\<close>

definition file_of :: "registry_libs \<Rightarrow> path" where
  "file_of libs = config_path (rg_root libs) (rg_name libs)"

definition dir_of :: "registry_libs \<Rightarrow> path" where
  "dir_of libs = ws_directory (rg_root libs) (rg_name libs)"

text \<open>
  A node of the file stands for a record: whenever it is read successfully, the result is the record.
  A file that was not synced stands for nothing.
\<close>

definition stands_for :: "registry_libs \<Rightarrow> fnode option \<Rightarrow> ws_record option \<Rightarrow> bool" where
  "stands_for libs n d \<longleftrightarrow>
     (case n of
        None \<Rightarrow> d = None
      | Some (FFile c synced) \<Rightarrow> synced \<and> d \<noteq> None \<and> (\<forall>rec. wl_from_toml (rg_workspace libs) c = Inr rec \<longrightarrow> d = Some rec)
      | Some _ \<Rightarrow> d \<noteq> None)"

definition nodes :: "registry_libs \<Rightarrow> filesystem \<Rightarrow> fnode option set" where
  "nodes libs fs = insert (fs_now fs (file_of libs)) (fs_possible fs (file_of libs))"

definition covers :: "registry_libs \<Rightarrow> filesystem \<Rightarrow> ws_record option set \<Rightarrow> bool" where
  "covers libs fs D \<longleftrightarrow> (\<forall>n \<in> nodes libs fs. \<exists>d \<in> D. stands_for libs n d)"

text \<open>The TOML codec reads what it has written.\<close>

definition toml_law :: "workspace_libs \<Rightarrow> bool" where
  "toml_law ws \<longleftrightarrow> (\<forall>rec bytes. wl_to_toml ws rec = Some bytes \<longrightarrow> wl_from_toml ws bytes = Inr rec)"


section \<open>The machine\<close>

record 'r machine =
  ma_system :: "'r system"
  ma_files :: filesystem

text \<open>The record that the worker persists at a label.\<close>

definition persisted :: "'r job \<Rightarrow> ws_record option" where
  "persisted job =
     (case job of
        Publishing_at l pb \<Rightarrow>
          if l = At_persist \<or> l = At_final then Some (pb_candidate pb)
          else if l = At_block \<or> l = At_unblock then pb_blocked pb
          else None
      | _ \<Rightarrow> None)"

text \<open>The closure at \<open>At_prepare\<close>.\<close>

definition prepare_call :: "registry_libs \<Rightarrow> 'r pub \<Rightarrow> (filesystem, unit) action" where
  "prepare_call libs pb =
     seq (if pb_must_exist pb then require_data (rg_root libs) (rg_name libs) else ret ())
       (\<lambda>_. ws_prepare (rg_root libs) (rg_name libs))"

definition plain :: "'r job \<Rightarrow> bool" where
  "plain job \<longleftrightarrow> persisted job = None \<and> job \<noteq> Unregistering_at U_remove \<and> (\<forall>pb. job \<noteq> Publishing_at At_prepare pb)"

text \<open>
  What others do to the file system between two steps: anything but touching the file and its
  directory. Entries may become durable at any time, and the calls to come may fail in any pattern.
\<close>

definition outside :: "registry_libs \<Rightarrow> filesystem \<Rightarrow> filesystem \<Rightarrow> bool" where
  "outside libs fs fs' \<longleftrightarrow> nodes libs fs' \<subseteq> nodes libs fs \<and> fs_now fs' (file_of libs) = fs_now fs (file_of libs)
     \<and> fs_now fs' (dir_of libs) = fs_now fs (dir_of libs)"

text \<open>A crash leaves one of the nodes; a directory may be lost when it was not durable.\<close>

definition crash :: "registry_libs \<Rightarrow> filesystem \<Rightarrow> filesystem \<Rightarrow> bool" where
  "crash libs fs fs' \<longleftrightarrow> fs_now fs' (file_of libs) \<in> nodes libs fs \<and> nodes libs fs' = {fs_now fs' (file_of libs)}
     \<and> fs_now fs' (dir_of libs) \<in> {None, Some FDir}"

inductive machine_step :: "registry_libs \<Rightarrow> 'r machine \<Rightarrow> 'r machine \<Rightarrow> bool" for libs where
  plain_step: "db_step libs s s' \<Longrightarrow> plain (sy_job s) \<or> sy_job s' = sy_job s \<Longrightarrow>
     machine_step libs \<lparr>ma_system = s, ma_files = fs\<rparr> \<lparr>ma_system = s', ma_files = fs\<rparr>"
| prepares: "sy_job s = Publishing_at At_prepare pb \<Longrightarrow> prepare_call libs pb fs = (fs', r) \<Longrightarrow>
     job_step libs (ef\<lparr>ef_call := r\<rparr>) s = Some s' \<Longrightarrow>
     machine_step libs \<lparr>ma_system = s, ma_files = fs\<rparr> \<lparr>ma_system = s', ma_files = fs'\<rparr>"
| persists: "persisted (sy_job s) = Some rec \<Longrightarrow>
     persist (rg_workspace libs) uuid (rg_root libs) (rg_name libs) rec fs = (fs', r) \<Longrightarrow>
     job_step libs (ef\<lparr>ef_persist := r\<rparr>) s = Some s' \<Longrightarrow>
     machine_step libs \<lparr>ma_system = s, ma_files = fs\<rparr> \<lparr>ma_system = s', ma_files = fs'\<rparr>"
| removes: "sy_job s = Unregistering_at U_remove \<Longrightarrow> ws_remove (rg_root libs) (rg_name libs) fs = (fs', r) \<Longrightarrow>
     job_step libs (ef\<lparr>ef_call := r, ef_removed := (fs_now fs' (file_of libs) = None)\<rparr>) s = Some s' \<Longrightarrow>
     machine_step libs \<lparr>ma_system = s, ma_files = fs\<rparr> \<lparr>ma_system = s', ma_files = fs'\<rparr>"
| closes: "machine_step libs \<lparr>ma_system = s, ma_files = fs\<rparr> \<lparr>ma_system = s\<lparr>sy_closed := True\<rparr>, ma_files = fs\<rparr>"
| retires: "sy_closed s \<Longrightarrow> st_current (sy_db s) = None \<Longrightarrow> st_active (sy_db s) = 0 \<Longrightarrow>
     machine_step libs \<lparr>ma_system = s, ma_files = fs\<rparr> \<lparr>ma_system = s\<lparr>sy_db := retire_at_shutdown (sy_db s)\<rparr>, ma_files = fs\<rparr>"
| others: "outside libs fs fs' \<Longrightarrow>
     machine_step libs \<lparr>ma_system = s, ma_files = fs\<rparr> \<lparr>ma_system = s, ma_files = fs'\<rparr>"
| crashes: "crash libs fs fs' \<Longrightarrow> ws_read (rg_workspace libs) (rg_root libs) (rg_name libs) fs' = (fs'', rc_read calls) \<Longrightarrow>
     d \<in> sy_disk s \<Longrightarrow> stands_for libs (fs_now fs' (file_of libs)) d \<Longrightarrow>
     machine_step libs \<lparr>ma_system = s, ma_files = fs\<rparr> \<lparr>ma_system = started libs calls d, ma_files = fs''\<rparr>"

text \<open>The start: a file in any durable state, and a registry that has read it.\<close>

definition machine_initial :: "registry_libs \<Rightarrow> 'r machine \<Rightarrow> bool" where
  "machine_initial libs m \<longleftrightarrow>
     (\<exists>fs fs' calls d. ws_read (rg_workspace libs) (rg_root libs) (rg_name libs) fs = (fs', rc_read calls)
        \<and> nodes libs fs = {fs_now fs (file_of libs)} \<and> stands_for libs (fs_now fs (file_of libs)) d
        \<and> fs_now fs (dir_of libs) \<in> {None, Some FDir}
        \<and> m = \<lparr>ma_system = started libs calls d, ma_files = fs'\<rparr>)"

section \<open>How a worker changes the records on disk\<close>

lemma stop_disk [simp]: "sy_disk (stop r s) = sy_disk s" "sy_disk (goto l pb s) = sy_disk s" "sy_disk (reopen pb e s) = sy_disk s"
  by (simp_all add: stop_def goto_def reopen_def)

lemma use_disk: "(\<And>x s. sy_disk (k x s) = sy_disk s) \<Longrightarrow> sy_disk (use r k s) = sy_disk s"
  by (simp add: use_def split: outcome.split)

lemma locked_disk: "(\<And>s. sy_disk (k s) = sy_disk s) \<Longrightarrow> sy_disk (locked f k s) = sy_disk s"
  unfolding locked_def by (rule use_disk) simp

lemma closing_disk: "sy_disk (closing l pb s) = sy_disk s"
  unfolding closing_def by (rule use_disk) (simp split: prod.split)

lemma fail_migration_disk: "sy_disk (fail_migration v e s) = sy_disk s"
  unfolding fail_migration_def by (rule locked_disk) simp

lemma persisting_disk:
  "(\<And>s. sy_disk (k s) = sy_disk s) \<Longrightarrow> (\<And>e s. sy_disk (fails e s) = sy_disk s) \<Longrightarrow>
     sy_disk (persisting r rec k fails s) = disk_after (task r) rec (sy_disk s)"
  by (simp add: persisting_def Let_def split: outcome.split)

lemma job_step_disk:
  assumes "job_step libs ef s = Some s'" and "persisted (sy_job s) = None" and "sy_job s \<noteq> Unregistering_at U_remove"
  shows "sy_disk s' = sy_disk s"
proof (cases "sy_job s")
  case (Publishing_at l pb)
  then have "publish_step libs ef l pb s = Some s'" using assms(1) by (simp add: job_step_def)
  moreover have "l \<notin> {At_persist, At_final}" "l \<in> {At_block, At_unblock} \<Longrightarrow> pb_blocked pb = None"
    using assms(2) Publishing_at by (auto simp: persisted_def split: if_splits)
  ultimately show ?thesis
  proof (cases "l \<in> {At_block, At_unblock}")
    case False
    with \<open>publish_step libs ef l pb s = Some s'\<close> \<open>l \<notin> {At_persist, At_final}\<close> show ?thesis
      by (cases l) (auto simp: publish_step_def closing_disk fail_migration_disk intro!: use_disk locked_disk
          split: if_splits option.splits outcome.splits list.splits)
  qed (auto simp: publish_step_def use_def)
next
  case (Unregistering_at u)
  then show ?thesis using assms(1,3) by (cases u) (auto simp: job_step_def unregister_step_def split: if_splits)
next
  case (Starting req)
  then show ?thesis using assms(1) by (auto simp: job_step_def start_publish_def Let_def intro!: use_disk)
next
  case (Publish_done r)
  then show ?thesis using assms(1) by (auto simp: job_step_def split: outcome.splits)
next
  case (Unregister_done r)
  then show ?thesis using assms(1) by (auto simp: job_step_def split: outcome.splits)
qed (use assms(1) in \<open>simp add: job_step_def\<close>)

lemma job_step_persist:
  assumes "persisted (sy_job s) = Some rec" and "job_step libs (ef\<lparr>ef_persist := r\<rparr>) s = Some s'"
  shows "sy_disk s' = disk_after (task r) rec (sy_disk s)"
proof -
  obtain l pb where job: "sy_job s = Publishing_at l pb" using assms(1) by (auto simp: persisted_def split: job.splits)
  then have step: "publish_step libs (ef\<lparr>ef_persist := r\<rparr>) l pb s = Some s'" using assms(2) by (simp add: job_step_def)
  consider "l = At_persist \<or> l = At_final" "rec = pb_candidate pb" | "l = At_block \<or> l = At_unblock" "pb_blocked pb = Some rec"
    using assms(1) job by (auto simp: persisted_def split: if_splits)
  then show ?thesis
  proof cases
    case 1
    then show ?thesis using step by (auto simp: publish_step_def persisting_disk)
  next
    case 2
    then show ?thesis using step by (auto simp: publish_step_def use_def unwrap_def persisting_disk)
  qed
qed

lemma job_step_remove:
  assumes "sy_job s = Unregistering_at U_remove" and "job_step libs ef s = Some s'"
  shows "sy_disk s' = (case task (ef_call ef) of Ok _ \<Rightarrow> {None} | _ \<Rightarrow> if ef_removed ef then insert None (sy_disk s) else sy_disk s)"
  using assms by (auto simp: job_step_def unregister_step_def split: outcome.splits)

text \<open>Where a worker can come from.\<close>

lemma start_publish_job: "sy_job (start_publish libs req s) = Publishing_at l pb \<Longrightarrow> l = At_prepare"
  by (auto simp: start_publish_def Let_def use_def stop_def goto_def split: outcome.splits)

lemma db_step_label:
  assumes "db_step libs s s'" and "sy_job s' = Publishing_at l pb" and "l \<noteq> At_prepare"
  shows "\<exists>l pb. sy_job s = Publishing_at l pb"
  using assms
proof (induction rule: db_step.induct)
  case (work ef s s')
  show ?case
  proof (cases "sy_job s")
    case (Unregistering_at u)
    then show ?thesis using work by (cases u) (auto simp: job_step_def unregister_step_def split: if_splits outcome.splits)
  qed (use work in \<open>auto simp: job_step_def split: outcome.splits dest: start_publish_job\<close>)
qed auto

text \<open>A worker that persists or removes moves on.\<close>

lemma job_step_moves:
  assumes "job_step libs ef s = Some s'" and "persisted (sy_job s) \<noteq> None \<or> sy_job s = Unregistering_at U_remove"
  shows "sy_job s' \<noteq> sy_job s"
proof (cases "sy_job s = Unregistering_at U_remove")
  case True
  then show ?thesis using assms(1) by (auto simp: job_step_def unregister_step_def split: outcome.splits)
next
  case False
  then obtain l pb where job: "sy_job s = Publishing_at l pb" "l \<in> {At_persist, At_final, At_block, At_unblock}"
    using assms(2) by (auto simp: persisted_def split: job.splits if_splits)
  have step: "publish_step libs ef l pb s = Some s'" using assms(1) job(1) by (simp add: job_step_def)
  from job(2) show ?thesis
    by (elim insertE emptyE; use step job(1) in
      \<open>auto simp: publish_step_def persisting_def Let_def stop_def goto_def reopen_def use_def split: outcome.splits\<close>)
qed

lemma plain_disk:
  assumes "db_step libs s s'" and "plain (sy_job s) \<or> sy_job s' = sy_job s"
  shows "sy_disk s' = sy_disk s"
  using assms
proof (induction rule: db_step.induct)
  case (work ef s s')
  show ?case
  proof (rule job_step_disk[OF work(1)])
    show "persisted (sy_job s) = None" "sy_job s \<noteq> Unregistering_at U_remove"
      using work(2) job_step_moves[OF work(1)] unfolding plain_def by (metis option.distinct(1))+
  qed
qed simp_all


section \<open>The calls on the file\<close>

text \<open>A directory stays where it is.\<close>

abbreviation still :: "path \<Rightarrow> fnode option \<Rightarrow> filesystem \<Rightarrow> bool" where
  "still q n fs \<equiv> fs_now fs q = n"

lemma still_reject: "triple (still q n) (reject_symlink p) (\<lambda>_. still q n) (still q n)"
  by (rule triple_reject_symlink) simp_all

lemma still_sync_directory: "triple (still q n) (sync_directory p) (\<lambda>_. still q n) (still q n)"
  unfolding sync_directory_def by (rule triple_io_call) (auto simp: op_sync_directory_def split: option.splits fnode.splits)

lemma still_replace:
  assumes "q \<noteq> t" "q \<noteq> p"
  shows "triple (still q n) (replace_steps t p bytes) (\<lambda>_. still q n) (still q n)"
proof (rule tripleI)
  fix fs fs' assume fs: "fs_now fs q = n"
  have k: "kept q n (fs_possible fs q) fs" using fs by (simp add: kept_def)
  note frame = triple_replace_steps_frame[OF assms, of n "fs_possible fs q" bytes]
  show "fs_now fs' q = n" if "replace_steps t p bytes fs = (fs', Ok x)" for x
    using tripleD_Ok[OF frame k that] by (simp add: kept_def)
  show "fs_now fs' q = n" if "replace_steps t p bytes fs = (fs', Err e)" for e
    using tripleD_Err[OF frame k that] by (simp add: kept_def)
  show "fs_now fs' q = n" if "replace_steps t p bytes fs = (fs', Panic)"
    using tripleD_Panic[OF frame k that] by (simp add: kept_def)
qed

lemma still_replace_config:
  assumes "q \<noteq> t" "q \<noteq> p"
  shows "triple (still q n) (replace_config ws d t p bytes) (\<lambda>_. still q n) (still q n)"
  unfolding replace_config_alt
  by (rule keep_seq[OF still_replace[OF assms]], rule triple_attempt[OF still_sync_directory])
    (auto intro: triple_lift triple_fail)

lemma still_persist:
  assumes "q \<noteq> temporary_path root name uuid" "q \<noteq> config_path root name"
  shows "triple (still q n) (persist ws uuid root name rec) (\<lambda>_. still q n) (still q n)"
proof -
  have c: "triple (still q n) (attempt (replace_config ws d (temporary_path root name uuid) (config_path root name) bytes) (\<lambda>result fs.
       (if is_ok result then fs else fst (fs_call (op_remove_file (temporary_path root name uuid)) fs), result)))
     (\<lambda>_. still q n) (still q n)" for d bytes
  proof -
    have k: "triple (still q n) (\<lambda>fs. (if is_ok r then fs else fst (fs_call (op_remove_file (temporary_path root name uuid)) fs), r))
        (\<lambda>_. still q n) (still q n)" for r :: "unit result"
      using remove_temporary_keeps(1)[of "temporary_path root name uuid" q] assms(1)
      by (cases r) (auto simp: triple_def)
    show ?thesis by (rule triple_attempt[OF still_replace_config[OF assms] k k k])
  qed
  show ?thesis unfolding persist_def Let_def
    by (intro keep_seq[OF keep_lift] keep_seq[OF still_reject] c) simp_all
qed

lemma dir_not_file: "dir_of libs \<noteq> file_of libs" "dir_of libs \<noteq> temporary_path (rg_root libs) (rg_name libs) uuid"
  by (simp_all add: dir_of_def file_of_def config_path_def temporary_path_def)

lemma persist_still_dir:
  assumes "persist ws uuid (rg_root libs) (rg_name libs) rec fs = (fs', r)"
  shows "fs_now fs' (dir_of libs) = fs_now fs (dir_of libs)"
proof -
  have "dir_of libs \<noteq> config_path (rg_root libs) (rg_name libs)" using dir_not_file(1)[of libs] by (simp add: file_of_def)
  from triple_kept[OF still_persist[OF dir_not_file(2) this]] show ?thesis using assms by (metis fst_conv)
qed

text \<open>Replacing the file, as \<open>Publication\<close> has it.\<close>

lemma persist_covers:
  assumes law: "toml_law (rg_workspace libs)" and c: "covers libs fs D" and dir: "fs_now fs (dir_of libs) = Some FDir"
    and p: "persist (rg_workspace libs) uuid (rg_root libs) (rg_name libs) rec fs = (fs', r)"
  shows "covers libs fs' (disk_after (task r) rec D) \<and> r \<noteq> Panic"
proof -
  let ?p = "file_of libs"
  have new: "stands_for libs (Some (FFile bytes True)) (Some rec)" if "wl_to_toml (rg_workspace libs) rec = Some bytes" for bytes
    using law that by (simp add: stands_for_def toml_law_def)
  note out = persist_atomic_lemma[OF p dir[unfolded dir_of_def], folded file_of_def]
  show ?thesis
  proof (cases r)
    case (Ok u)
    then obtain bytes where "wl_to_toml (rg_workspace libs) rec = Some bytes" "nodes libs fs' = {Some (FFile bytes True)}"
      using out by (auto simp: nodes_def)
    then show ?thesis using new Ok by (simp add: covers_def task_def disk_after_def)
  next
    case (Err e)
    show ?thesis
    proof (cases "err_code e = ''workspace_commit_uncertain''")
      case True
      then obtain bytes where "wl_to_toml (rg_workspace libs) rec = Some bytes"
          "nodes libs fs' \<subseteq> insert (Some (FFile bytes True)) (nodes libs fs)"
        using out Err by (auto simp: nodes_def)
      then show ?thesis using new c Err True by (auto simp: covers_def task_def disk_after_def commit_uncertain_def)
    next
      case False
      then have "nodes libs fs' = nodes libs fs" using out Err by (simp add: nodes_def)
      then show ?thesis using c Err False by (simp add: covers_def task_def disk_after_def commit_uncertain_def)
    qed
  qed (use out in simp)
qed

text \<open>Removing the file.\<close>

lemma reject_symlink_same:
  assumes "reject_symlink p fs = (fs', r)"
  shows "fs_now fs' = fs_now fs \<and> fs_possible fs' = fs_possible fs \<and> r \<noteq> Panic"
  using assms
  by (auto simp: reject_symlink_def fs_call_def op_symlink_metadata_def Let_def split: option.splits fnode.splits prod.splits)

lemma remove_covers:
  assumes c: "covers libs fs D" and dir: "fs_now fs (dir_of libs) \<in> {None, Some FDir}"
    and p: "ws_remove (rg_root libs) (rg_name libs) fs = (fs', r)"
  shows "covers libs fs' (case task r of Ok _ \<Rightarrow> {None}
      | _ \<Rightarrow> if fs_now fs' (file_of libs) = None then insert None D else D)
    \<and> fs_now fs' (dir_of libs) = fs_now fs (dir_of libs) \<and> r \<noteq> Panic"
proof -
  let ?p = "file_of libs" and ?d = "dir_of libs"
  obtain remove where remove: "remove = (\<lambda>fs. case fs_call (op_remove_file ?p) fs of
      (fs', Err NotFound) \<Rightarrow> (fs', Ok ()) | (fs', r) \<Rightarrow> (fs', map_err io_error r))" by blast
  have def: "ws_remove (rg_root libs) (rg_name libs) = seq (reject_symlink ?d) (\<lambda>_. seq remove (\<lambda>_. sync_directory ?d))"
    by (simp add: ws_remove_def file_of_def dir_of_def remove)
  obtain f1 r1 where 1: "reject_symlink ?d fs = (f1, r1)" by force
  obtain f2 r2 where 2: "remove f1 = (f2, r2)" by force
  obtain f3 r3 where 3: "sync_directory ?d f2 = (f3, r3)" by force
  note same1 = reject_symlink_same[OF 1]
  have removed: "(fs_now f2 ?p = None \<and> fs_possible f2 ?p \<subseteq> insert None (nodes libs fs)
        \<or> fs_now f2 ?p = fs_now fs ?p \<and> fs_possible f2 ?p = fs_possible fs ?p \<and> r2 \<noteq> Ok ())
      \<and> fs_now f2 ?d = fs_now fs ?d \<and> r2 \<noteq> Panic"
    using 2 same1 dir_not_file(1)[of libs]
    by (auto simp: remove fs_call_def op_remove_file_def Let_def nodes_def split: option.splits fnode.splits prod.splits)
  have sync: "fs_now f3 = fs_now f2" "r3 = Ok () \<Longrightarrow> fs_now f2 ?d = Some FDir \<Longrightarrow> fs_possible f3 ?p = {fs_now f2 ?p}"
    "\<not> is_ok r3 \<Longrightarrow> fs_possible f3 = fs_possible f2" "r3 \<noteq> Panic" "fs_now f2 ?d = None \<Longrightarrow> r3 \<noteq> Ok ()"
    using sync_directory_outcome[OF 3] fails_with_sync_directory[of ?d, unfolded fails_with_def, rule_format, of f2] 3
    by (auto simp: file_of_def dir_of_def config_path_def sync_directory_def io_def fs_call_def op_sync_directory_def Let_def
        split: option.splits)
  have cover: "covers libs f D" if "nodes libs f \<subseteq> nodes libs fs" for f using c that by (auto simp: covers_def)
  have gone: "covers libs f (insert None D)" if "nodes libs f \<subseteq> insert None (nodes libs fs)" for f
    using c that by (auto simp: covers_def stands_for_def)
  show ?thesis
  proof (cases r1)
    case (Ok u1)
    show ?thesis
    proof (cases r2)
      case ok2: (Ok u2)
      have p3: "fs' = f3" "r = r3" using p 1 2 3 Ok ok2 by (simp_all add: def seq_def)
      have none: "fs_now f2 ?p = None" "fs_possible f2 ?p \<subseteq> insert None (nodes libs fs)" using removed ok2 by auto
      show ?thesis
      proof (cases r3)
        case ok3: (Ok u3)
        then have "fs_now f2 ?d = Some FDir" using sync(5) removed dir by auto
        then have "nodes libs f3 = {None}" using sync(1,2) none ok3 by (simp add: nodes_def)
        then show ?thesis using p3 ok3 sync(1) removed by (simp add: covers_def stands_for_def task_def)
      next
        case (Err e)
        then have "nodes libs f3 \<subseteq> insert None (nodes libs fs)" using none sync(1,3) by (simp add: nodes_def)
        then show ?thesis using p3 Err sync(1) none removed gone by (simp add: task_def)
      qed (use sync(4) in simp)
    next
      case (Err e)
      then have p2: "fs' = f2" "r = Err e" using p 1 2 Ok by (simp_all add: def seq_def)
      show ?thesis using removed p2 cover[of f2] gone[of f2] by (auto simp: task_def nodes_def)
    qed (use removed in simp)
  next
    case (Err e)
    then have "fs' = f1" "r = Err e" using p 1 by (simp_all add: def seq_def)
    then show ?thesis using cover[of f1] gone[of f1] same1 by (auto simp: task_def nodes_def)
  qed (use same1 in simp)
qed


text \<open>Preparing the layout makes the directory and leaves the file alone.\<close>

definition prepared :: "registry_libs \<Rightarrow> fnode option \<Rightarrow> fnode option set \<Rightarrow> filesystem \<Rightarrow> bool" where
  "prepared libs n P fs \<longleftrightarrow> fs_now fs (file_of libs) = n \<and> nodes libs fs \<subseteq> P \<and> fs_now fs (dir_of libs) \<in> {None, Some FDir}"

lemma prepared_calls: "prepared libs n P fs \<Longrightarrow> prepared libs n P (fs\<lparr>fs_calls := k\<rparr>)"
  by (auto simp: prepared_def nodes_def)

lemma prepared_reject: "triple (prepared libs n P) (reject_symlink p) (\<lambda>_. prepared libs n P) (prepared libs n P)"
  by (rule triple_reject_symlink) (auto intro: prepared_calls)

lemma prepared_sync: "triple (prepared libs n P) (sync_directory p) (\<lambda>_. prepared libs n P) (prepared libs n P)"
  unfolding sync_directory_def
  by (rule triple_io_call)
    (auto simp: op_sync_directory_def prepared_def nodes_def split: option.splits fnode.splits if_splits)

definition make_dirs :: "path list \<Rightarrow> filesystem \<Rightarrow> filesystem" where
  "make_dirs qs fs = fold (\<lambda>q fs. if fs_now fs q = None then set_entry q (Some FDir) fs else fs) qs fs"

lemma make_dirs_now: "fs_now (make_dirs qs fs) p = (if p \<in> set qs \<and> fs_now fs p = None then Some FDir else fs_now fs p)"
  by (induction qs arbitrary: fs) (auto simp: make_dirs_def)

lemma make_dirs_possible: "p \<notin> set qs \<Longrightarrow> fs_possible (make_dirs qs fs) p = fs_possible fs p"
  by (induction qs arbitrary: fs) (auto simp: make_dirs_def)

lemma op_create_dir_all_make:
  "op_create_dir_all q fs = (if list_ex (\<lambda>q. case fs_now fs q of Some (FFile _ _) \<Rightarrow> True | _ \<Rightarrow> False) (prefixes q)
     then (fs, Err (Other_io ''NotADirectory'')) else (make_dirs (prefixes q) fs, Ok ()))"
  by (simp add: op_create_dir_all_def make_dirs_def)

lemma make_dirs_prepared:
  assumes "prepared libs n P fs" and "file_of libs \<notin> set qs"
  shows "prepared libs n P (make_dirs qs fs)"
  using assms by (auto simp: prepared_def nodes_def make_dirs_now make_dirs_possible)

lemma prepared_make_directory:
  assumes "file_of libs \<notin> set (prefixes p)"
  shows "triple (prepared libs n P) (make_directory p)
    (\<lambda>_ fs. prepared libs n P fs \<and> (dir_of libs \<in> set (prefixes p) \<longrightarrow> fs_now fs (dir_of libs) = Some FDir)) (prepared libs n P)"
  unfolding make_directory_def
proof (rule triple_seq[OF prepared_reject], rule triple_io_call)
  fix fs fs' r assume fs: "prepared libs n P fs" and op: "op_create_dir_all p fs = (fs', r)"
  have "fs' = make_dirs (prefixes p) fs \<and> r = Ok () \<or> fs' = fs \<and> \<not> is_ok r"
    using op by (auto simp: op_create_dir_all_make split: if_splits)
  then show "(\<not> is_ok r \<longrightarrow> prepared libs n P fs') \<and> (\<forall>x. r = Ok x \<longrightarrow>
      prepared libs n P fs' \<and> (dir_of libs \<in> set (prefixes p) \<longrightarrow> fs_now fs' (dir_of libs) = Some FDir))"
    using fs make_dirs_prepared[OF fs assms] by (auto simp: make_dirs_now prepared_def)
qed (auto intro: prepared_calls)

lemma not_in_prefixes: "p \<notin> set (prefixes q)" if "length q < length p"
  using that by (auto dest: prefix_length_le)

lemma file_not_prefix:
  "file_of libs \<notin> set (prefixes (dir_of libs))" "file_of libs \<notin> set (prefixes (dir_of libs @ [''interfaces'']))"
  "file_of libs \<notin> set (prefixes (dir_of libs @ [''migrations'']))" "dir_of libs \<in> set (prefixes (dir_of libs))"
  by (auto simp: file_of_def dir_of_def config_path_def dest: prefix_length_le)

abbreviation prepared_dir :: "registry_libs \<Rightarrow> fnode option \<Rightarrow> fnode option set \<Rightarrow> filesystem \<Rightarrow> bool" where
  "prepared_dir libs n P fs \<equiv> prepared libs n P fs \<and> fs_now fs (dir_of libs) = Some FDir"

lemma with_dir:
  assumes "triple (prepared libs n P) f (\<lambda>_. prepared libs n P) (prepared libs n P)" and "triple (still (dir_of libs) (Some FDir)) f (\<lambda>_. still (dir_of libs) (Some FDir)) (\<lambda>_. True)"
  shows "triple (prepared_dir libs n P) f (\<lambda>_. prepared_dir libs n P) (prepared libs n P)"
  by (rule tripleI)
    (blast dest: tripleD_Ok[OF assms(1)] tripleD_Ok[OF assms(2)] tripleD_Err[OF assms(1)] tripleD_Panic[OF assms(1)])+

lemma prepares_dir:
  "triple (prepared libs n P) (ws_prepare (rg_root libs) (rg_name libs)) (\<lambda>_. prepared_dir libs n P) (prepared libs n P)"
proof -
  let ?R = "prepared libs n P" and ?S = "prepared_dir libs n P"
  have weak: "triple (still q m) f (\<lambda>_. still q m) (still q m) \<Longrightarrow> triple (still q m) f (\<lambda>_. still q m) (\<lambda>_. True)" for q m and f :: "(filesystem, unit) action"
    by (erule triple_weaken) auto
  have dir: "triple ?R (make_directory (dir_of libs)) (\<lambda>_. ?S) ?R"
    by (rule triple_weaken[OF prepared_make_directory[OF file_not_prefix(1)]]) (use file_not_prefix(4) in auto)
  have sub: "triple ?S (make_directory p) (\<lambda>_. ?S) ?R" if "p \<in> {dir_of libs @ [''interfaces''], dir_of libs @ [''migrations'']}" for p
  proof -
    have q: "file_of libs \<notin> set (prefixes p)" "dir_of libs \<in> set (prefixes p)" using that file_not_prefix by auto
    show ?thesis by (rule triple_weaken[OF prepared_make_directory[OF q(1)]]) (use q(2) in auto)
  qed
  have rej: "triple ?S (reject_symlink p) (\<lambda>_. ?S) ?R" for p by (rule with_dir[OF prepared_reject weak[OF still_reject]])
  have syn: "triple ?S (sync_directory p) (\<lambda>_. ?S) ?R" for p by (rule with_dir[OF prepared_sync weak[OF still_sync_directory]])
  show ?thesis unfolding ws_prepare_def Let_def dir_of_def[symmetric]
    by (intro triple_seq[OF keep_lift] triple_seq[OF dir] triple_seq[OF sub] triple_seq[OF rej] triple_seq[OF syn] syn) auto
qed

lemma prepare_call_prepares:
  assumes "prepare_call libs pb fs = (fs', r)" and "fs_now fs (dir_of libs) \<in> {None, Some FDir}"
  shows "prepared libs (fs_now fs (file_of libs)) (nodes libs fs) fs' \<and> (is_ok r \<longrightarrow> fs_now fs' (dir_of libs) = Some FDir)"
proof -
  let ?R = "prepared libs (fs_now fs (file_of libs)) (nodes libs fs)"
  have req: "triple ?R (require_data (rg_root libs) (rg_name libs)) (\<lambda>_. ?R) ?R"
  proof -
    have "triple ?R (\<lambda>fs. case fs_call (op_symlink_metadata q) fs of
         (fs', Ok (FFile _ _)) \<Rightarrow> (fs', Ok ())
       | (fs', Ok _) \<Rightarrow> (fs', Err (configuration_invalid ''data.db must be a regular file''))
       | (fs', Err e) \<Rightarrow> (fs', Err (data_missing e))
       | (fs', Panic) \<Rightarrow> (fs', Panic)) (\<lambda>_. ?R) ?R" for q
      by (auto simp: triple_def fs_call_def op_symlink_metadata_def Let_def intro: prepared_calls
          split: option.splits fnode.splits prod.splits)
    then show ?thesis unfolding require_data_def by (rule keep_seq[OF prepared_reject])
  qed
  have t: "triple ?R (prepare_call libs pb) (\<lambda>_. prepared_dir libs (fs_now fs (file_of libs)) (nodes libs fs)) ?R"
    unfolding prepare_call_def by (rule triple_seq[OF _ prepares_dir]) (auto intro: req keep_ret)
  have R: "?R fs" using assms(2) by (simp add: prepared_def)
  show ?thesis using tripleD_Ok[OF t R] tripleD_Err[OF t R] tripleD_Panic[OF t R] assms(1) by (cases r) auto
qed

text \<open>Reading the file changes nothing; what is read is what the file stands for.\<close>

lemma ws_read_same:
  assumes "ws_read ws root name fs = (fs', r)"
  shows "fs_now fs' = fs_now fs \<and> fs_possible fs' = fs_possible fs"
proof -
  let ?R = "\<lambda>f. fs_now f = fs_now fs \<and> fs_possible f = fs_possible fs"
  have rej: "triple ?R (reject_symlink p) (\<lambda>_. ?R) ?R" for p by (rule triple_reject_symlink) auto
  have rd: "triple ?R (io (fs_call (op_read p))) (\<lambda>_. ?R) ?R" for p
    by (rule triple_io_call) (auto simp: op_read_def)
  have "triple ?R (ws_read ws root name) (\<lambda>_. ?R) ?R" unfolding ws_read_def
    by (intro keep_seq[OF keep_lift] keep_seq[OF rej] keep_seq[OF rd] keep_ret) auto
  from triple_kept[OF this, of fs] show ?thesis using assms by simp
qed

lemma ws_read_stands_for:
  assumes "ws_read (rg_workspace libs) (rg_root libs) (rg_name libs) fs = (fs', Ok rec)"
    and "stands_for libs (fs_now fs (file_of libs)) d"
  shows "d = Some rec"
proof -
  have now: "\<And>p fs fs' r. reject_symlink p fs = (fs', r) \<Longrightarrow> fs_now fs' = fs_now fs"
    using reject_symlink_same by blast
  have read: "\<And>p fs fs' c. io (fs_call (op_read p)) fs = (fs', Ok c) \<Longrightarrow> \<exists>s. fs_now fs p = Some (FFile c s)"
    by (auto simp: io_def fs_call_def op_read_def Let_def split: option.splits fnode.splits)
  have toml: "\<And>c. (case wl_from_toml (rg_workspace libs) c of Inl e \<Rightarrow> Err (f e) | Inr r \<Rightarrow> Ok r) = Ok x \<longleftrightarrow> wl_from_toml (rg_workspace libs) c = Inr x" for f x
    by (simp split: sum.split)
  obtain f1 f2 f3 c where 1: "reject_symlink (dir_of libs) fs = (f1, Ok ())" and 2: "reject_symlink (file_of libs) f1 = (f2, Ok ())"
    and 3: "io (fs_call (op_read (file_of libs))) f2 = (f3, Ok c)" and 4: "wl_from_toml (rg_workspace libs) c = Inr rec"
    using assms(1) by (auto simp: ws_read_def seq_Ok lift_def ret_def file_of_def dir_of_def toml)
  then obtain s where "fs_now fs (file_of libs) = Some (FFile c s)" using now[OF 1] now[OF 2] read[OF 3] by auto
  then show ?thesis using assms(2) 4 by (simp add: stands_for_def)
qed


section \<open>The machine refines the transition system\<close>

text \<open>
  The records of the abstract state cover the file, and a worker that is past \<open>At_prepare\<close> has its
  directory.
\<close>

definition machine_inv :: "registry_libs \<Rightarrow> 'r machine \<Rightarrow> bool" where
  "machine_inv libs m \<longleftrightarrow> reachable libs (ma_system m) \<and> covers libs (ma_files m) (sy_disk (ma_system m))
     \<and> fs_now (ma_files m) (dir_of libs) \<in> {None, Some FDir}
     \<and> (\<forall>l pb. sy_job (ma_system m) = Publishing_at l pb \<longrightarrow> l \<noteq> At_prepare \<longrightarrow> fs_now (ma_files m) (dir_of libs) = Some FDir)"

lemma covers_mono: "covers libs fs D \<Longrightarrow> nodes libs fs' \<subseteq> nodes libs fs \<Longrightarrow> covers libs fs' D"
  by (auto simp: covers_def)

lemma started_inv:
  assumes "ws_read (rg_workspace libs) (rg_root libs) (rg_name libs) fs = (fs', rc_read calls)"
    and "nodes libs fs = {fs_now fs (file_of libs)}" and "stands_for libs (fs_now fs (file_of libs)) d"
    and "fs_now fs (dir_of libs) \<in> {None, Some FDir}" and "reachable libs (started libs calls d)"
  shows "machine_inv libs \<lparr>ma_system = started libs calls d, ma_files = fs'\<rparr>"
proof -
  have "nodes libs fs' = {fs_now fs (file_of libs)}" "fs_now fs' (dir_of libs) = fs_now fs (dir_of libs)"
    using ws_read_same[OF assms(1)] assms(2) by (simp_all add: nodes_def)
  then show ?thesis using assms by (simp add: machine_inv_def covers_def started_def)
qed

lemma read_reading:
  assumes "ws_read (rg_workspace libs) (rg_root libs) (rg_name libs) fs = (fs', rc_read calls)"
    and "stands_for libs (fs_now fs (file_of libs)) d"
  shows "reading calls d"
  using ws_read_stands_for[OF _ assms(2)] assms(1) by (simp add: reading_def split: outcome.split)

lemma machine_initial_inv: "machine_initial libs m \<Longrightarrow> machine_inv libs m"
  using read_reading started_inv unfolding machine_initial_def reachable_def initial_def by blast

text \<open>A step of the worker that leaves the directory where a step from its label needs it.\<close>

lemma worker_inv:
  assumes "db_step libs s s'" and "machine_inv libs \<lparr>ma_system = s, ma_files = fs\<rparr>"
    and "covers libs fs' (sy_disk s')" and "fs_now fs' (dir_of libs) \<in> {None, Some FDir}"
    and "\<And>l pb. sy_job s' = Publishing_at l pb \<Longrightarrow> l \<noteq> At_prepare \<Longrightarrow>
      fs_now fs (dir_of libs) = Some FDir \<or> (\<exists>pb. sy_job s = Publishing_at At_prepare pb) \<Longrightarrow> fs_now fs' (dir_of libs) = Some FDir"
  shows "machine_inv libs \<lparr>ma_system = s', ma_files = fs'\<rparr>"
proof -
  have "reachable libs s'" using reachable_step[OF _ system_step.db[OF assms(1)]] assms(2) by (simp add: machine_inv_def)
  moreover have "fs_now fs' (dir_of libs) = Some FDir" if job: "sy_job s' = Publishing_at l pb" "l \<noteq> At_prepare" for l pb
  proof -
    obtain l0 pb0 where l0: "sy_job s = Publishing_at l0 pb0" using db_step_label[OF assms(1) job] by blast
    then have "fs_now fs (dir_of libs) = Some FDir \<or> (\<exists>pb. sy_job s = Publishing_at At_prepare pb)"
      using assms(2) by (cases "l0 = At_prepare") (auto simp: machine_inv_def)
    then show ?thesis by (rule assms(5)[OF job])
  qed
  ultimately show ?thesis using assms(3,4) by (simp add: machine_inv_def)
qed

lemma machine_step_inv:
  assumes "machine_step libs m m'" and "toml_law (rg_workspace libs)" and "machine_inv libs m"
  shows "machine_inv libs m'"
  using assms
proof (induction rule: machine_step.induct)
  case (plain_step s s' fs)
  have "covers libs fs (sy_disk s')" using plain_disk[OF plain_step(1,2)] plain_step(4) by (simp add: machine_inv_def)
  moreover have "l = At_prepare" if "sy_job s = Publishing_at At_prepare pb" "sy_job s' = Publishing_at l pb'" for pb l pb'
    using plain_step(2) that by (auto simp: plain_def)
  ultimately show ?case using plain_step by (intro worker_inv[OF plain_step(1,4)]) (auto simp: machine_inv_def)
next
  case (prepares s pb fs fs' r ef s')
  have j: "db_step libs s s'" by (rule db_step.work[OF prepares(3)])
  have d: "fs_now fs (dir_of libs) \<in> {None, Some FDir}" using prepares(5) by (simp add: machine_inv_def)
  note p = prepare_call_prepares[OF prepares(2) d]
  have n: "nodes libs fs' \<subseteq> nodes libs fs" using p by (simp add: prepared_def)
  have "persisted (sy_job s) = None" using prepares(1) by (simp add: persisted_def)
  then have disk: "sy_disk s' = sy_disk s" using job_step_disk[OF prepares(3)] prepares(1) by simp
  have ok: "is_ok r" if "sy_job s' = Publishing_at l pb'" for l pb'
    using prepares(1,3) that by (cases r) (auto simp: job_step_def publish_step_def use_def stop_def task_def)
  show ?case
  proof (rule worker_inv[OF j prepares(5)])
    show "covers libs fs' (sy_disk s')" using covers_mono[OF _ n] prepares(5) disk by (simp add: machine_inv_def)
    show "fs_now fs' (dir_of libs) \<in> {None, Some FDir}" using p by (simp add: prepared_def)
    show "fs_now fs' (dir_of libs) = Some FDir" if "sy_job s' = Publishing_at l pb'" for l pb' using ok[OF that] p by blast
  qed
next
  case (persists s rec uuid fs fs' r ef s')
  obtain l pb where l: "sy_job s = Publishing_at l pb" "l \<noteq> At_prepare"
    using persists(1) by (auto simp: persisted_def split: job.splits if_splits)
  then have d: "fs_now fs (dir_of libs) = Some FDir" using persists(5) by (auto simp: machine_inv_def)
  have c: "covers libs fs (sy_disk s)" using persists(5) by (simp add: machine_inv_def)
  have "covers libs fs' (sy_disk s')" using persist_covers[OF persists(4) c d persists(2)] job_step_persist[OF persists(1,3)] by simp
  moreover have "fs_now fs' (dir_of libs) = Some FDir" using persist_still_dir[OF persists(2)] d by simp
  ultimately show ?case by (intro worker_inv[OF db_step.work[OF persists(3)] persists(5)]) simp_all
next
  case (removes s fs fs' r ef s')
  have c: "covers libs fs (sy_disk s)" and d: "fs_now fs (dir_of libs) \<in> {None, Some FDir}"
    using removes(5) by (simp_all add: machine_inv_def)
  note r = remove_covers[OF c d removes(2)]
  have "covers libs fs' (sy_disk s')" using r job_step_remove[OF removes(1,3)] by (cases "task r") auto
  then show ?case using r d removes(1) by (intro worker_inv[OF db_step.work[OF removes(3)] removes(5)]) simp_all
next
  case (closes s fs)
  then show ?case using reachable_step[OF _ system_step.close] by (auto simp: machine_inv_def)
next
  case (retires s fs)
  then show ?case using reachable_step[OF _ system_step.retire] by (auto simp: machine_inv_def)
next
  case (others fs fs' s)
  then show ?case using covers_mono[of libs fs _ fs'] by (auto simp: machine_inv_def outside_def)
next
  case (crashes fs fs' fs'' calls d s)
  have "reading calls d" by (rule read_reading[OF crashes(2,4)])
  then have "reachable libs (started libs calls d)" using reachable_step[OF _ system_step.restart] crashes(3,6) by (auto simp: machine_inv_def)
  then show ?case using crashes(1,4) by (intro started_inv[OF crashes(2)]) (simp_all add: crash_def)
qed

interpretation machines: invariant_system "\<lambda>m. toml_law (rg_workspace libs) \<and> machine_initial libs m"
    "machine_step libs" "\<lambda>m. toml_law (rg_workspace libs) \<and> machine_inv libs m" for libs
  by unfold_locales (blast intro: machine_initial_inv machine_step_inv)+

definition machine_reachable :: "registry_libs \<Rightarrow> 'r machine \<Rightarrow> bool" where
  "machine_reachable libs m \<longleftrightarrow> (\<exists>m0. machine_initial libs m0 \<and> (machine_step libs)\<^sup>*\<^sup>* m0 m)"

lemma machine_reachable_inv: "toml_law (rg_workspace libs) \<Longrightarrow> machine_reachable libs m \<Longrightarrow> machine_inv libs m"
  unfolding machine_reachable_def using machines.reachable_inv by blast

lemma crash_covered:
  assumes "machine_inv libs m" and "crash libs (ma_files m) fs'"
  obtains d where "d \<in> sy_disk (ma_system m)" "stands_for libs (fs_now fs' (file_of libs)) d"
  using assms by (auto simp: machine_inv_def covers_def crash_def)


lemma stands_for_present: "stands_for libs n (Some rec) \<Longrightarrow> n \<noteq> None"
  by (cases n) (auto simp: stands_for_def)

section \<open>Properties\<close>

text \<open> C18: The worker on the real file implements the transition system: every state it reaches is a state of
  the transition system, and whatever a crash leaves of the file stands for a record of that state's
  \<open>sy_disk\<close>, provided that the TOML codec reads what it writes.\<close>

theorem machine_refines:
  assumes "toml_law (rg_workspace libs)" and "machine_reachable libs m"
  shows "reachable libs (ma_system m)
    \<and> (crash libs (ma_files m) fs' \<longrightarrow> (\<exists>d \<in> sy_disk (ma_system m). stands_for libs (fs_now fs' (file_of libs)) d))"
  using machine_reachable_inv[OF assms] crash_covered by (metis machine_inv_def)

text \<open> C0: If the process dies while migrations are compared again, applied or unblocked, the file
  \<^verbatim>\<open>database.toml\<close> survives every crash; if it can be read it says that a migration was under way, and
  however reading it and the other calls end, the restarted registry does not serve the database.\<close>

theorem crash_leaves_blocker:
  assumes "toml_law (rg_workspace libs)" and "machine_reachable libs m"
    and "sy_job (ma_system m) = Publishing_at l pb" and "l \<in> {At_recheck, At_apply, At_applying, At_unblock}"
    and "crash libs (ma_files m) fs'" and "ws_read (rg_workspace libs) (rg_root libs) (rg_name libs) fs' = (fs'', rc_read calls)"
  shows "fs_now fs' (file_of libs) \<noteq> None \<and> (\<forall>rec. rc_read calls = Ok rec \<longrightarrow> wr_recovery rec = Migration_recovery)
    \<and> st_phase (open_database (rg_workspace libs) (rg_parse libs) (rg_root libs) (rg_name libs) calls) = Recovery_required"
proof -
  note inv = machine_reachable_inv[OF assms(1,2)]
  obtain d where d: "d \<in> sy_disk (ma_system m)" "stands_for libs (fs_now fs' (file_of libs)) d" by (rule crash_covered[OF inv assms(5)])
  have migrating: "migrating_record d"
    using blocked_state(3)[OF reachable_system_inv assms(3)] inv assms(4) d(1) by (auto simp: machine_inv_def blocked_labels_def)
  note reading = read_reading[OF assms(6) d(2)]
  obtain rec where rec: "d = Some rec" "wr_recovery rec = Migration_recovery" using migrating by (auto simp: migrating_record_iff)
  show ?thesis using restart_blocked[OF migrating reading] stands_for_present d(2) rec reading by (auto simp: reading_def)
qed

text \<open> C19: While a database is ready, whatever a crash leaves of its file is there and, if it can be read, asks for
  no recovery.\<close>

theorem ready_survives_crash:
  assumes "toml_law (rg_workspace libs)" and "machine_reachable libs m" and "st_phase (sy_db (ma_system m)) = Ready"
    and "crash libs (ma_files m) fs'" and "ws_read (rg_workspace libs) (rg_root libs) (rg_name libs) fs' = (fs'', r)"
  shows "fs_now fs' (file_of libs) \<noteq> None \<and> (\<forall>rec. r = Ok rec \<longrightarrow> wr_recovery rec = No_recovery \<and> Some rec \<in> sy_disk (ma_system m))"
proof -
  note inv = machine_reachable_inv[OF assms(1,2)]
  obtain d where d: "d \<in> sy_disk (ma_system m)" "stands_for libs (fs_now fs' (file_of libs)) d" by (rule crash_covered[OF inv assms(4)])
  have "common (ma_system m)" using reachable_system_inv inv by (auto simp: machine_inv_def system_inv_def)
  then obtain rec where "d = Some rec" "wr_recovery rec = No_recovery"
    using assms(3) d(1) by (auto simp: common_def serving_def ready_record_iff)
  then show ?thesis using d stands_for_present ws_read_stands_for[OF _ d(2)] assms(5) by auto
qed

section \<open>Witnesses\<close>

text \<open>A first publication on a file system without failures, up to its first migration.\<close>

lemma ws_toml_law: "toml_law ws_libs"
  unfolding toml_law_def
proof (intro allI impI)
  fix rec :: ws_record and bytes assume "wl_to_toml ws_libs rec = Some bytes"
  then show "wl_from_toml ws_libs bytes = Inr rec"
    by (cases rec) (auto simp: ws_libs_def toml_of_def of_toml_def split: if_splits recovery.splits)
qed

lemma toml_pub: "toml_law (rg_workspace pub_libs)"
  by (simp add: pub_libs_def ws_toml_law)


definition calm :: "filesystem \<Rightarrow> bool" where
  "calm fs \<longleftrightarrow> fs_fail fs = (\<lambda>_. None) \<and> fs_now fs [''databases'', ''app''] = Some FDir
     \<and> fs_now fs [''databases''] = Some FDir
     \<and> fs_now fs [''databases'', ''app'', ''.database-u.tmp''] = None
     \<and> (case fs_now fs [''databases'', ''app'', ''database.toml''] of None \<Rightarrow> True | Some (FFile c s) \<Rightarrow> True | _ \<Rightarrow> False)"

lemma calm_persist:
  assumes "calm fs" and "Record_validate ws_libs rec = Ok ()" and "wl_to_toml ws_libs rec = Some bytes"
  shows "snd (persist ws_libs ''u'' [] ''app'' rec fs) = Ok () \<and> calm (fst (persist ws_libs ''u'' [] ''app'' rec fs))
    \<and> fs_now (fst (persist ws_libs ''u'' [] ''app'' rec fs)) [''databases'', ''app'', ''database.toml''] = Some (FFile bytes True)"
  using assms
  by (auto simp: calm_def persist_def seq_def lift_def reject_symlink_ok fs_call_ok fs_call_def op_symlink_metadata_def
    replace_config_def op_create_new_def fs_write_all_def op_sync_file_def op_rename_def sync_directory_def op_sync_directory_def
    io_def attempt_def fail_def ws_directory_def config_path_def temporary_path_def databases_def Let_def
    split: option.splits fnode.splits)

text \<open>The machine of the registry that was started on an empty workspace.\<close>

definition fs0 :: filesystem where
  "fs0 = (ws_fs (\<lambda>_. None))\<lparr>fs_calls := 3\<rparr>"

definition pub_calls :: "unit restore_calls" where
  "pub_calls = \<lparr>rc_read = snd (ws_read ws_libs [] ''app'' (ws_fs (\<lambda>_. None))), rc_layout = Ok (), rc_data = Ok (), rc_resources = Ok (),
     rc_snapshot = Err busy\<rparr>"

lemma fs0_read: "ws_read ws_libs [] ''app'' (ws_fs (\<lambda>_. None)) = (fs0, rc_read pub_calls)"
  by (simp add: fs0_def pub_calls_def ws_read_def seq_def lift_def validate_name_def migration_name_char_def ascii_defs reject_symlink_def
      fs_call_def op_symlink_metadata_def io_def op_read_def ws_fs_def fs_now_def ws_directory_def config_path_def databases_def Let_def)

lemma pub_paths: "file_of pub_libs = [''databases'', ''app'', ''database.toml'']" "dir_of pub_libs = [''databases'', ''app'']"
  by (simp_all add: file_of_def dir_of_def pub_libs_def config_path_def ws_directory_def databases_def)

lemma pub_machine_initial: "machine_initial pub_libs \<lparr>ma_system = pub_new, ma_files = fs0\<rparr>"
  unfolding machine_initial_def
proof (intro exI conjI)
  show "ws_read (rg_workspace pub_libs) (rg_root pub_libs) (rg_name pub_libs) (ws_fs (\<lambda>_. None)) = (fs0, rc_read pub_calls)"
    using fs0_read by (simp add: pub_libs_def)
  show "\<lparr>ma_system = pub_new, ma_files = fs0\<rparr> = \<lparr>ma_system = started pub_libs pub_calls None, ma_files = fs0\<rparr>"
    by (simp add: pub_new_def started_def)
qed (simp_all add: pub_paths nodes_def stands_for_def ws_fs_def fs_now_def)

lemma pub_prepared:
  assumes "\<not> pb_must_exist pb"
  shows "snd (prepare_call pub_libs pb fs0) = Ok () \<and> calm (fst (prepare_call pub_libs pb fs0))"
  using assms
  by (simp add: prepare_call_def ws_prepare_def make_directory_def seq_def lift_def ret_def validate_name_def migration_name_char_def ascii_defs
      reject_symlink_def fs_call_def op_symlink_metadata_def op_create_dir_all_def io_def ws_fs_def fs0_def fs_now_def set_entry_def
      ws_directory_def config_path_def databases_def sync_directory_def op_sync_directory_def calm_def pub_libs_def Let_def)


text \<open>Its run to the first migration.\<close>

abbreviation machine_at :: "nat \<Rightarrow> filesystem \<Rightarrow> bool" where
  "machine_at n fs \<equiv> machine_reachable pub_libs \<lparr>ma_system = pub_at n, ma_files = fs\<rparr>"

lemma machine_reachable_step: "machine_reachable libs m \<Longrightarrow> machine_step libs m m' \<Longrightarrow> machine_reachable libs m'"
  unfolding machine_reachable_def by (meson rtranclp.rtrancl_into_rtrancl)

lemma work_alone_stuck: "job_step libs ef s = None \<Longrightarrow> work_alone libs n (\<lambda>_. ef) s = s"
  by (cases n) simp_all

lemma work_alone_last:
  "work_alone libs (Suc n) (\<lambda>_. ef) s =
     (case job_step libs ef (work_alone libs n (\<lambda>_. ef) s) of None \<Rightarrow> work_alone libs n (\<lambda>_. ef) s | Some s' \<Rightarrow> s')"
proof (induction n arbitrary: s)
  case (Suc n)
  show ?case
  proof (cases "job_step libs ef s")
    case (Some s')
    then have "work_alone libs (Suc k) (\<lambda>_. ef) s = work_alone libs k (\<lambda>_. ef) s'" for k by simp
    then show ?thesis using Suc[of s'] by (simp only:)
  qed (simp add: work_alone_stuck)
qed (simp split: option.split)

lemma at_step:
  assumes "machine_at n fs" and "\<And>s'. job_step pub_libs pub_effects (pub_at n) = Some s' \<Longrightarrow>
      machine_step pub_libs \<lparr>ma_system = pub_at n, ma_files = fs\<rparr> \<lparr>ma_system = s', ma_files = fs'\<rparr>"
    and "job_step pub_libs pub_effects (pub_at n) \<noteq> None"
  shows "machine_at (Suc n) fs'"
  using assms machine_reachable_step[OF assms(1)] by (auto simp only: work_alone_last split: option.split)

lemma at_plain: "machine_at n fs \<Longrightarrow> plain (sy_job (pub_at n)) \<Longrightarrow> machine_at (Suc n) fs"
  by (cases "job_step pub_libs pub_effects (pub_at n)")
    (simp add: work_alone_last del: work_alone.simps, blast intro: at_step machine_step.plain_step db_step.work)

lemma at_plains: "machine_at n fs \<Longrightarrow> list_all (\<lambda>k. plain (sy_job (pub_at (n + k)))) [0..<k] \<Longrightarrow> machine_at (n + k) fs"
proof (induction k)
  case (Suc k)
  then show ?case using at_plain[of "n + k" fs] by simp
qed simp

lemma pub_persistable:
  "Record_validate ws_libs \<lparr>wr_database = Turso_config, wr_recovery = r, wr_limits = RequestLimits_default\<rparr> = Ok ()"
  using ws_valid by (simp add: Record_validate_def ws_rec_def)

lemma at_persist:
  assumes "machine_at n fs" and "calm fs" and "persisted (sy_job (pub_at n)) = Some \<lparr>wr_database = Turso_config, wr_recovery = r, wr_limits = RequestLimits_default\<rparr>"
    and "job_step pub_libs pub_effects (pub_at n) \<noteq> None"
    and bytes: "toml_of \<lparr>wr_database = Turso_config, wr_recovery = r, wr_limits = RequestLimits_default\<rparr> = Some bytes"
  shows "\<exists>fs'. calm fs' \<and> machine_at (Suc n) fs' \<and> fs_now fs' (file_of pub_libs) = Some (FFile bytes True)"
proof -
  let ?rec = "\<lparr>wr_database = Turso_config, wr_recovery = r, wr_limits = RequestLimits_default\<rparr>"
  have "wl_to_toml ws_libs ?rec = Some bytes" using bytes by (simp add: ws_libs_def)
  from calm_persist[OF assms(2) pub_persistable this] obtain fs' where
    fs': "persist ws_libs ''u'' [] ''app'' ?rec fs = (fs', Ok ())" "calm fs'"
      "fs_now fs' [''databases'', ''app'', ''database.toml''] = Some (FFile bytes True)"
    by (metis prod.collapse)
  then have p: "persist (rg_workspace pub_libs) ''u'' (rg_root pub_libs) (rg_name pub_libs) ?rec fs = (fs', Ok ())"
    by (simp add: pub_libs_def)
  have e: "pub_effects\<lparr>ef_persist := Ok ()\<rparr> = pub_effects" by (simp add: pub_effects_def)
  have "machine_at (Suc n) fs'"
    by (rule at_step[OF assms(1) _ assms(4)], rule machine_step.persists[OF assms(3) p, of pub_effects]) (simp add: e)
  then show ?thesis using fs'(2,3) by (auto simp: pub_paths)
qed

lemma pub_machine_prepares:
  obtains fs where "machine_at 2 fs" "calm fs"
proof -
  have "machine_reachable pub_libs \<lparr>ma_system = pub_new, ma_files = fs0\<rparr>"
    using pub_machine_initial unfolding machine_reachable_def by blast
  moreover have "machine_step pub_libs \<lparr>ma_system = pub_new, ma_files = fs0\<rparr> \<lparr>ma_system = pub_accepted, ma_files = fs0\<rparr>"
    by (rule machine_step.plain_step[OF pub_published]) (simp add: pub_new_def plain_def persisted_def)
  ultimately have "machine_at 0 fs0" by (simp add: machine_reachable_step)
  then have 1: "machine_at 1 fs0"
    using at_plain[of 0] by (simp add: pub_accepted_def plain_def persisted_def)
  obtain pb where j: "sy_job (pub_at 1) = Publishing_at At_prepare pb" "\<not> pb_must_exist pb"
    by (simp add: pub_run pub_values)
  obtain fs where fs: "prepare_call pub_libs pb fs0 = (fs, Ok ())" "calm fs" using pub_prepared[OF j(2)] by (metis prod.collapse)
  have e: "pub_effects\<lparr>ef_call := Ok ()\<rparr> = pub_effects" by (simp add: pub_effects_def)
  have n: "job_step pub_libs pub_effects (pub_at 1) \<noteq> None" unfolding job_step_def j by (simp add: publish_step_def)
  have "machine_at (Suc 1) fs"
    by (rule at_step[OF 1 _ n], rule machine_step.prepares[OF j(1) fs(1), of pub_effects]) (simp add: e)
  then show ?thesis using that fs(2) by (simp add: numeral_2_eq_2)
qed

lemma pub_machine_runs: "\<exists>fs. machine_at 17 fs \<and> fs_now fs (file_of pub_libs) = Some (FFile ''migration'' True)"
proof -
  note run = work_alone_numeral pub_run pub_values persisted_def
  have p: "list_all (\<lambda>k. plain (sy_job (pub_at (2 + k)))) [0..<4]" "list_all (\<lambda>k. plain (sy_job (pub_at (7 + k)))) [0..<7]"
    "list_all (\<lambda>k. plain (sy_job (pub_at (15 + k)))) [0..<2]"
    by (simp_all add: upt_rec[of _ "numeral k" for k] run plain_def)
  obtain fs where fs: "machine_at 2 fs" "calm fs" by (rule pub_machine_prepares)
  have 6: "persisted (sy_job (pub_at 6)) = Some \<lparr>wr_database = Turso_config, wr_recovery = Reload_recovery, wr_limits = RequestLimits_default\<rparr>"
    "job_step pub_libs pub_effects (pub_at 6) \<noteq> None"
    "persisted (sy_job (pub_at 14)) = Some \<lparr>wr_database = Turso_config, wr_recovery = Migration_recovery, wr_limits = RequestLimits_default\<rparr>"
    "job_step pub_libs pub_effects (pub_at 14) \<noteq> None"
    by (simp_all add: run)
  have "machine_at 6 fs" using at_plains[OF fs(1) p(1)] by simp
  from at_persist[OF this fs(2) 6(1,2)] obtain fs' where fs': "calm fs'" "machine_at 7 fs'" by (auto simp: toml_of_def)
  have "machine_at 14 fs'" using at_plains[OF fs'(2) p(2)] by simp
  from at_persist[OF this fs'(1) 6(3,4)] obtain fs'' where fs'': "machine_at 15 fs''"
      "fs_now fs'' (file_of pub_libs) = Some (FFile ''migration'' True)" by (auto simp: toml_of_def)
  from at_plains[OF fs''(1) p(3)] fs''(2) show ?thesis by auto
qed

text \<open>Everything that is durable at a crash survives it, and nothing else.\<close>

definition settled :: "filesystem \<Rightarrow> filesystem" where
  "settled fs = fs\<lparr>fs_possible := (\<lambda>p. {fs_now fs p})\<rparr>"

lemma settled_crash:
  assumes "machine_inv libs m"
  shows "crash libs (ma_files m) (settled (ma_files m))"
proof -
  have "fs_now (settled fs) p = fs_now fs p" for fs p by (simp add: settled_def fs_now_def)
  then show ?thesis using assms by (auto simp: crash_def machine_inv_def nodes_def settled_def)
qed

theorem machine_refines_witness:
  "\<exists>fs d. machine_at 17 fs \<and> reachable pub_libs (pub_at 17) \<and> d \<in> sy_disk (pub_at 17)
     \<and> stands_for pub_libs (fs_now (settled fs) (file_of pub_libs)) d"
proof -
  obtain fs where fs: "machine_at 17 fs" using pub_machine_runs by blast
  from machine_refines[OF toml_pub fs, of "settled fs"] settled_crash[OF machine_reachable_inv[OF toml_pub fs]] fs show ?thesis by auto
qed

theorem crash_leaves_blocker_witness:
  "\<exists>fs. machine_at 17 fs \<and> fs_now (settled fs) (file_of pub_libs) \<noteq> None
     \<and> st_phase (open_database ws_libs Some [] ''app''
          \<lparr>rc_read = snd (ws_read ws_libs [] ''app'' (settled fs)), rc_layout = Ok (), rc_data = Ok (), rc_resources = Ok (),
            rc_snapshot = Ok pub_snapshot\<rparr>) = Recovery_required"
proof -
  obtain fs where fs: "machine_at 17 fs" using pub_machine_runs by blast
  obtain pb where job: "sy_job (pub_at 17) = Publishing_at At_applying pb" using pub_applying by blast
  let ?calls = "\<lparr>rc_read = snd (ws_read ws_libs [] ''app'' (settled fs)), rc_layout = Ok (), rc_data = Ok (), rc_resources = Ok (),
    rc_snapshot = Ok pub_snapshot\<rparr>"
  have j: "sy_job (ma_system \<lparr>ma_system = pub_at 17, ma_files = fs\<rparr>) = Publishing_at At_applying pb" using job by simp
  have l: "At_applying \<in> {At_recheck, At_apply, At_applying, At_unblock}" by simp
  have r: "ws_read (rg_workspace pub_libs) (rg_root pub_libs) (rg_name pub_libs) (settled fs)
      = (fst (ws_read ws_libs [] ''app'' (settled fs)), rc_read ?calls)"
    by (simp add: pub_libs_def)
  have c: "crash pub_libs (ma_files \<lparr>ma_system = pub_at 17, ma_files = fs\<rparr>) (settled fs)"
    using settled_crash[OF machine_reachable_inv[OF toml_pub fs]] by simp
  from crash_leaves_blocker[OF toml_pub fs j l c r] fs show ?thesis by (auto simp: pub_libs_def)
qed

text \<open>A registry that found a record and restored the database.\<close>

definition ready_fs :: filesystem where
  "ready_fs = (ws_fs (\<lambda>_. None))\<lparr>fs_nodes := ([''databases'', ''app'', ''database.toml''], FFile ''toml'' True) # fs_nodes (ws_fs (\<lambda>_. None)),
     fs_possible := (\<lambda>p. if p = [''databases'', ''app'', ''database.toml''] then {Some (FFile ''toml'' True)} else {None})\<rparr>"

definition ready_calls :: "unit restore_calls" where
  "ready_calls = \<lparr>rc_read = Ok ws_rec, rc_layout = Ok (), rc_data = Ok (), rc_resources = Ok (), rc_snapshot = Ok pub_snapshot\<rparr>"

definition ready_machine :: "unit machine" where
  "ready_machine = \<lparr>ma_system = started pub_libs ready_calls (Some ws_rec), ma_files = fst (ws_read ws_libs [] ''app'' ready_fs)\<rparr>"

lemma ready_read: "ws_read ws_libs [] ''app'' ready_fs = (ma_files ready_machine, Ok ws_rec)"
  by (simp add: ready_machine_def ws_read_def seq_def lift_def validate_name_def migration_name_char_def ascii_defs reject_symlink_def
      fs_call_def op_symlink_metadata_def io_def op_read_def ready_fs_def ws_fs_def fs_now_def ws_directory_def config_path_def
      databases_def ws_toml ws_valid ret_def Let_def)

lemma pub_workspace: "rg_workspace pub_libs = ws_libs"
  by (simp add: pub_libs_def)

lemma ready_reachable: "machine_reachable pub_libs ready_machine"
proof -
  have "machine_initial pub_libs ready_machine" unfolding machine_initial_def
  proof (intro exI conjI)
    show "ws_read (rg_workspace pub_libs) (rg_root pub_libs) (rg_name pub_libs) ready_fs = (ma_files ready_machine, rc_read ready_calls)"
      using ready_read by (simp add: pub_libs_def ready_calls_def)
    show "ready_machine = \<lparr>ma_system = started pub_libs ready_calls (Some ws_rec), ma_files = ma_files ready_machine\<rparr>"
      by (simp add: ready_machine_def)
  qed (simp_all add: pub_paths nodes_def stands_for_def ready_fs_def ws_fs_def fs_now_def pub_workspace ws_toml)
  then show ?thesis unfolding machine_reachable_def by blast
qed

theorem ready_survives_crash_witness:
  "st_phase (sy_db (ma_system ready_machine)) = Ready \<and> fs_now (settled (ma_files ready_machine)) (file_of pub_libs) \<noteq> None"
proof -
  have p: "st_phase (sy_db (ma_system ready_machine)) = Ready"
    by (simp add: ready_machine_def started_def open_database_def restore_def ready_calls_def pub_libs_def ws_rec_def pub_limits
        Configuration_from_record_def is_turso_target_def Database_new_def Let_def)
  obtain fs'' r where "ws_read (rg_workspace pub_libs) (rg_root pub_libs) (rg_name pub_libs) (settled (ma_files ready_machine)) = (fs'', r)" by force
  from ready_survives_crash[OF toml_pub ready_reachable p settled_crash[OF machine_reachable_inv[OF toml_pub ready_reachable]] this] p
  show ?thesis by blast
qed

end
