(* ===== verification/Resources.thy ===== *)
theory Resources
  imports Registry_Api
begin

text \<open>
  \<open>open_resources\<close> of \<^verbatim>\<open>src/registry.rs\<close>: opening the file of a Turso database, whose driver may ask for any number of
  completions first, or connecting once to a PostgreSQL server.
\<close>

section \<open>Opening a Turso file\<close>

text \<open>
  One round of the loop of \<open>turso_driver::open\<close>: the driver has opened the file, has failed, or gives a
  completion, for which its I/O may be missing (\<open>Some\<close> an error) and whose \<open>wait\<close> may fail (\<open>Some\<close> the \<open>Debug\<close>
  text of its error).
\<close>

datatype open_round = Opened | Open_failed turso_error | Completion "turso_error option" "string option"

definition pending_round :: "open_round \<Rightarrow> bool" where
  "pending_round r \<longleftrightarrow> r = Completion None None"

text \<open>The loop from a round on; \<open>None\<close> when it never ends.\<close>

partial_function (option) open_rounds :: "(turso_error \<Rightarrow> string) \<Rightarrow> 'd \<Rightarrow> (nat \<Rightarrow> open_round) \<Rightarrow> nat \<Rightarrow> 'd result option" where
  "open_rounds debug db rounds n =
     (case rounds n of
        Opened \<Rightarrow> Some (Ok db)
      | Open_failed e \<Rightarrow> Some (Err (turso_database_error debug e))
      | Completion (Some e) _ \<Rightarrow> Some (Err (turso_database_error debug e))
      | Completion None (Some detail) \<Rightarrow> Some (Err (with_diagnostic ''turso'' detail database_error_generic))
      | Completion None None \<Rightarrow> open_rounds debug db rounds (Suc n))"

text \<open>\<open>utf8\<close>: the path is text.\<close>

definition turso_open :: "bool \<Rightarrow> (turso_error \<Rightarrow> string) \<Rightarrow> 'd \<Rightarrow> (nat \<Rightarrow> open_round) \<Rightarrow> 'd result option" where
  "turso_open utf8 debug db rounds =
     (if utf8 then open_rounds debug db rounds 0 else Some (Err (definition_error ''Database path must be UTF-8'')))"


section \<open>Opening the resources of a configuration\<close>

text \<open>
  The outcomes of the calls; \<open>oc_connect\<close> is \<open>None\<close> when the five seconds have passed, or an error with its
  \<open>Debug\<close> text.
\<close>

record ('d, 'h) open_calls =
  oc_claim :: "'h claim_calls"
  oc_utf8 :: bool
  oc_debug :: "turso_error \<Rightarrow> string"
  oc_database :: 'd
  oc_rounds :: "nat \<Rightarrow> open_round"
  oc_after :: "'h option"
  oc_connect :: "(string, unit) outcome option"

datatype ('d, 'h) resources = Turso_resources 'd "'h claim" | Postgres_resources string

definition connect_failed :: sqlrest_error where
  "connect_failed = new_error 500 ''database_error'' ''Cannot connect to database''"

definition connect_postgres :: "(string, unit) outcome option \<Rightarrow> unit result" where
  "connect_postgres connect =
     (case connect of
        None \<Rightarrow> Err timeout_error
      | Some r \<Rightarrow> map_err (\<lambda>detail. with_diagnostic ''postgres'' detail connect_failed) r)"

definition open_resources ::
  "('d, 'h) open_calls \<Rightarrow> configuration \<Rightarrow> 'h claim list \<Rightarrow> ('h claim list \<times> ('d, 'h) resources result) option" where
  "open_resources oc config claims =
     (case cf_target config of
        Turso_target path \<Rightarrow>
          map_option (\<lambda>opened. case open_turso_resources (oc_claim oc) opened (oc_after oc) claims of
              (claims, r) \<Rightarrow> (claims, map_ok (\<lambda>(db, c). Turso_resources db c) r))
            (if is_ok (snd (claim_file (oc_claim oc) claims))
             then turso_open (oc_utf8 oc) (oc_debug oc) (oc_database oc) (oc_rounds oc) else Some Panic)
      | Postgres_target url \<Rightarrow>
          Some (claims, map_ok (\<lambda>_. Postgres_resources url) (connect_postgres (oc_connect oc))))"


section \<open>Opening ends, and a failure leaves no claim\<close>

lemma open_rounds_ends:
  assumes "\<not> pending_round (rounds (n + k))"
  shows "open_rounds debug db rounds n \<noteq> None"
  using assms
proof (induction k arbitrary: n)
  case 0
  then show ?case
    by (subst open_rounds.simps) (simp add: pending_round_def split: open_round.split option.split)
next
  case (Suc k)
  from Suc.IH[of "Suc n"] Suc.prems have "open_rounds debug db rounds (Suc n) \<noteq> None" by simp
  then show ?case by (subst open_rounds.simps) (simp split: open_round.split option.split)
qed

lemma open_rounds_pending:
  assumes "open_rounds debug db rounds n = Some r"
  shows "\<exists>k \<ge> n. \<not> pending_round (rounds k)"
proof (rule open_rounds.raw_induct[OF _ assms, of "\<lambda>debug db rounds n r. \<exists>k \<ge> n. \<not> pending_round (rounds k)"])
  fix f :: "(turso_error \<Rightarrow> string) \<Rightarrow> 'a \<Rightarrow> (nat \<Rightarrow> open_round) \<Rightarrow> nat \<Rightarrow> 'a result option" and debug db rounds n r
  assume ih: "\<And>debug db rounds n y. f debug db rounds n = Some y \<Longrightarrow> \<exists>k \<ge> n. \<not> pending_round (rounds k)"
    and r: "(case rounds n of
        Opened \<Rightarrow> Some (Ok db)
      | Open_failed e \<Rightarrow> Some (Err (turso_database_error debug e))
      | Completion (Some e) _ \<Rightarrow> Some (Err (turso_database_error debug e))
      | Completion None (Some detail) \<Rightarrow> Some (Err (with_diagnostic ''turso'' detail database_error_generic))
      | Completion None None \<Rightarrow> f debug db rounds (Suc n)) = Some r"
  show "\<exists>k \<ge> n. \<not> pending_round (rounds k)"
  proof (cases "pending_round (rounds n)")
    case True
    then have "f debug db rounds (Suc n) = Some r" using r by (simp add: pending_round_def)
    from ih[OF this] show ?thesis using Suc_leD by blast
  qed blast
qed

text \<open>The loop ends exactly when some round is not a completion that can be waited for.\<close>

lemma turso_open_ends: "turso_open utf8 debug db rounds = None \<longleftrightarrow> utf8 \<and> (\<forall>k. pending_round (rounds k))"
proof (cases "open_rounds debug db rounds 0")
  case None
  then have "pending_round (rounds k)" for k using open_rounds_ends[of rounds 0 k debug db] by auto
  then show ?thesis using None by (simp add: turso_open_def)
next
  case (Some r)
  then show ?thesis using open_rounds_pending[OF Some] by (auto simp: turso_open_def)
qed

lemma drop_new_claim:
  assumes "c \<notin> set claims" and "cl_alive c"
  shows "filter cl_alive (drop_claim c (claims @ [c])) = filter cl_alive claims"
  using assms by (auto simp: alive_drop intro: filter_cong)

lemma claim_file_adds:
  assumes "claim_file calls claims = (claims', r)"
  shows "case r of Ok c \<Rightarrow> claims' = filter cl_alive claims @ [c] \<and> c \<notin> set (filter cl_alive claims) \<and> cl_alive c
    | _ \<Rightarrow> claims' = filter cl_alive claims"
  using assms by (auto simp: claim_file_def Let_def split: if_splits option.splits) (metis claim.select_convs(1,3))

text \<open>
  What a registration owns after opening: a success adds the claim it holds, if any, and a failure leaves the
  claims of the others and nothing else, so that the same file can be opened again.
\<close>

lemma open_resources_claims:
  assumes "open_resources oc config claims = Some (claims', r)"
  shows "filter cl_alive claims' = filter cl_alive claims @ (case r of Ok (Turso_resources db c) \<Rightarrow> [c] | _ \<Rightarrow> [])"
proof (cases "cf_target config")
  case (Turso_target path)
  obtain claims1 r1 where c: "claim_file (oc_claim oc) claims = (claims1, r1)" by force
  have adds: "case r1 of Ok c \<Rightarrow> claims1 = filter cl_alive claims @ [c] \<and> c \<notin> set (filter cl_alive claims) \<and> cl_alive c
      | _ \<Rightarrow> claims1 = filter cl_alive claims" by (rule claim_file_adds[OF c])
  have dropped: "filter cl_alive (drop_claim c claims1) = filter cl_alive claims" if r: "r1 = Ok c" for c
  proof -
    have "c \<notin> set (filter cl_alive claims)" "cl_alive c" "claims1 = filter cl_alive claims @ [c]" using adds r by auto
    then show ?thesis using drop_new_claim[of c "filter cl_alive claims"] by simp
  qed
  show ?thesis using assms adds dropped Turso_target c
    by (auto simp: open_resources_def open_turso_resources_def split: outcome.splits if_splits)
next
  case (Postgres_target url)
  then show ?thesis using assms by (cases "connect_postgres (oc_connect oc)") (auto simp: open_resources_def)
qed

end
