(* ===== verification/Program.thy ===== *)
theory Program
  imports Server Durability Resources
begin

text \<open>
  The program of \<^verbatim>\<open>src/main.rs\<close>: the workspace is opened, every database in it is restored from its
  files, the listeners are bound, and the server serves until the process exits. A database whose
  process died while it was migrating is not served by the next process.
\<close>

section \<open>Restoring the databases of a workspace\<close>

text \<open>
  What is not on the file system of \<open>Workspace\<close>: the outcome of opening the resources of a database
  and of loading its interface directory.
\<close>

record 'r restore_env =
  og_resources :: "string \<Rightarrow> 'r result"
  og_snapshot :: "string \<Rightarrow> snapshot result"

text \<open>The calls of \<open>restore\<close> on the files, each made only when those before it succeeded.\<close>

definition restore_files :: "registry_libs \<Rightarrow> 'r restore_env \<Rightarrow> filesystem \<Rightarrow> filesystem \<times> 'r restore_calls" where
  "restore_files libs og fs =
     (let ws = rg_workspace libs; root = rg_root libs; name = rg_name libs in
      case ws_read ws root name fs of (fs, rd) \<Rightarrow>
      let calls = (\<lambda>layout data. \<lparr>rc_read = rd, rc_layout = layout, rc_data = data, rc_resources = og_resources og name,
        rc_snapshot = og_snapshot og name\<rparr>) in
      (case and_then rd (Configuration_from_record ws (rg_parse libs) root name) of
         Ok config \<Rightarrow>
           (case validate_layout root name fs of
              (fs, Ok _) \<Rightarrow>
                if is_turso_target config
                then (case require_data root name fs of (fs, r) \<Rightarrow> (fs, calls (Ok ()) r))
                else (fs, calls (Ok ()) (Ok ()))
            | (fs, r) \<Rightarrow> (fs, calls r (Ok ())))
       | _ \<Rightarrow> (fs, calls (Ok ()) (Ok ()))))"

definition restore_entry ::
  "registry_libs \<Rightarrow> 'r restore_env \<Rightarrow> string \<Rightarrow> (string \<times> 'r db_state) list \<Rightarrow> (filesystem, (string \<times> 'r db_state) list) action" where
  "restore_entry libs og name entries fs =
     (case restore_files (named libs name) og fs of (fs, calls) \<Rightarrow>
        (fs, Ok (bt_insert name (open_database (rg_workspace libs) (rg_parse libs) (rg_root libs) name calls) entries)))"

text \<open>
  \<open>Registry::open\<close> on a workspace. The lock is given back when listing the directories fails.
\<close>

definition open_entries :: "registry_libs \<Rightarrow> 'r restore_env \<Rightarrow> (filesystem, 'r registry) action" where
  "open_entries libs og =
     seq (ws_names (rg_workspace libs) (rg_root libs)) (\<lambda>names.
     seq (each_step (restore_entry libs og) names []) (\<lambda>entries. ret \<lparr>rs_entries = entries, rs_closed = False\<rparr>))"

definition release_workspace :: "path \<Rightarrow> 'a result \<Rightarrow> (filesystem, 'a) action" where
  "release_workspace root r fs = (case r of Ok _ \<Rightarrow> (fs, r) | _ \<Rightarrow> (unlock (lock_path root) fs, task r))"

definition open_workspace :: "registry_libs \<Rightarrow> 'r restore_env \<Rightarrow> path \<Rightarrow> (filesystem, path \<times> 'r registry) action" where
  "open_workspace libs og root =
     seq (attempt (Workspace_open (rg_workspace libs) root) (\<lambda>r. lift (task r))) (\<lambda>root.
     attempt (open_entries (libs\<lparr>rg_root := root\<rparr>) og) (\<lambda>r. release_workspace root (map_ok (Pair root) r)))"


section \<open>The program\<close>

definition signal_failed :: sqlrest_error where
  "signal_failed = new_error 500 ''signal_failed'' ''Cannot install shutdown signal handler''"

text \<open>
  \<open>run\<close> up to \<open>serve\<close>: the signal handler is installed first, and a registry whose server cannot be bound
  is dropped with its workspace.
\<close>

definition start_program ::
  "registry_libs \<Rightarrow> 'r restore_env \<Rightarrow> bool \<Rightarrow> ('a \<Rightarrow> 'l option) \<Rightarrow> ('l \<Rightarrow> 'a option) \<Rightarrow> path \<Rightarrow> 'a \<Rightarrow> 'a
     \<Rightarrow> (filesystem, 'r registry \<times> ('l, 'a) listeners) action" where
  "start_program libs og handler listen local workspace data management =
     seq (lift (if handler then Ok () else Err signal_failed)) (\<lambda>_.
     seq (open_workspace libs og workspace) (\<lambda>(root, registry).
     attempt (lift (bind listen local data management)) (\<lambda>r. release_workspace root (map_ok (Pair registry) r))))"

definition exit_code :: "unit result \<Rightarrow> nat" where
  "exit_code r = (case r of Ok _ \<Rightarrow> 0 | _ \<Rightarrow> 1)"

text \<open>The exit code of a process whose server is in a state; \<open>None\<close> while it runs.\<close>

definition program_exit :: "'r server \<Rightarrow> nat option" where
  "program_exit sv = (case sv_at sv of Returned r \<Rightarrow> Some (exit_code r) | _ \<Rightarrow> None)"


section \<open>What opening a workspace leaves alone\<close>

text \<open>Nothing that opening or reading a workspace does touches an entry that is there.\<close>

abbreviation kept_entry :: "path \<Rightarrow> fnode \<Rightarrow> filesystem \<Rightarrow> bool" where
  "kept_entry q x \<equiv> still q (Some x)"

abbreviation keeps_entry :: "path \<Rightarrow> fnode \<Rightarrow> (filesystem, 'a) action \<Rightarrow> bool" where
  "keeps_entry q x f \<equiv> triple (kept_entry q x) f (\<lambda>_. kept_entry q x) (kept_entry q x)"

lemma kept_call:
  fixes op :: "'a fs_op"
  assumes "\<And>fs. kept_entry q x fs \<Longrightarrow> kept_entry q x (fst (op fs))"
  shows "keeps_entry q x (io (fs_call op))"
  by (rule triple_io_call) (use assms in \<open>fastforce+\<close>)

lemma kept_create_dir_all: "keeps_entry q x (io (fs_call (op_create_dir_all p)))"
  by (rule kept_call) (simp add: op_create_dir_all_make make_dirs_now)

lemma kept_make_directory: "keeps_entry q x (make_directory p)"
  unfolding make_directory_def by (rule keep_seq[OF still_reject kept_create_dir_all])

lemma kept_missing_ancestors: "keeps_entry q x (missing_ancestors cs missing)"
proof (induction cs missing rule: missing_ancestors.induct)
  case (1 missing)
  have "keeps_entry q x (io (fs_call (op_try_exists [])))" by (rule kept_call) (simp add: op_try_exists_def)
  then show ?case by (auto intro!: keep_seq keep_ret triple_fail)
next
  case (2 c cs missing)
  have "keeps_entry q x (io (fs_call (op_try_exists p)))" for p by (rule kept_call) (simp add: op_try_exists_def)
  then show ?case using 2 by (auto intro!: keep_seq keep_ret)
qed

lemma kept_Workspace_open: "keeps_entry q x (Workspace_open ws root)"
proof -
  have lock: "keeps_entry q x (try_lock p)" for p by (auto simp: triple_def try_lock_def)
  have call: "keeps_entry q x (io (fs_call (\<lambda>fs. (fs, Ok (wl_canonical ws root)))))"
    "keeps_entry q x (io (fs_call (op_open_lock p)))" for p root
    by (rule kept_call; auto simp: op_open_lock_def split: option.splits fnode.splits)+
  have fin: "keeps_entry q x (attempt (seq (make_directory p) (\<lambda>_. sync_directory root)) (\<lambda>r fs.
       case r of Ok _ \<Rightarrow> (fs, Ok root) | Err e \<Rightarrow> (unlock l fs, Err e) | Panic \<Rightarrow> (fs, Panic)))" for p root l
    by (rule triple_attempt[OF keep_seq[OF kept_make_directory still_sync_directory]]) (auto simp: triple_def unlock_def)
  show ?thesis unfolding Workspace_open_def
    by (intro keep_seq[OF kept_missing_ancestors] keep_seq[OF kept_create_dir_all] keep_seq[OF triple_each_step]
        keep_seq[OF still_sync_directory] still_sync_directory keep_seq[OF call(1)] keep_seq[OF still_reject]
        keep_seq[OF call(2)] keep_seq[OF lock] fin)
qed

lemma kept_ws_names: "keeps_entry q x (ws_names ws root)"
proof -
  have rd: "keeps_entry q x (io (fs_call (op_read_dir p)))" "keeps_entry q x (io (fs_call (op_symlink_metadata p)))" for p
    by (rule kept_call; auto simp: op_read_dir_def op_symlink_metadata_def split: option.splits fnode.splits)+
  have step: "keeps_entry q x (name_step ws root name names)" for name names unfolding name_step_def
    by (rule keep_seq[OF rd(2)])
      (auto simp: triple_def ret_def fs_call_def op_symlink_metadata_def Let_def split: option.splits prod.splits outcome.splits io_failure.splits)
  show ?thesis unfolding ws_names_def by (intro keep_seq[OF rd(1)] keep_seq[OF triple_each_step] step keep_ret)
qed

lemma kept_require_data: "keeps_entry q x (require_data root name)"
  unfolding require_data_def
  by (rule keep_seq[OF still_reject])
    (auto simp: triple_def fs_call_def op_symlink_metadata_def Let_def split: option.splits fnode.splits prod.splits)

lemma kept_validate_layout: "keeps_entry q x (validate_layout root name)"
  unfolding validate_layout_def by (intro keep_seq[OF keep_lift] keep_seq[OF still_reject] triple_each_step still_reject)

lemma kept_run: "keeps_entry q x f \<Longrightarrow> kept_entry q x fs \<Longrightarrow> f fs = (fs', r) \<Longrightarrow> kept_entry q x fs'"
  using triple_kept[of "kept_entry q x" f fs] by simp

lemma kept_restore_files:
  assumes "kept_entry q x fs" and "restore_files libs og fs = (fs', calls)"
  shows "kept_entry q x fs'"
proof -
  obtain fs1 rd where 1: "ws_read (rg_workspace libs) (rg_root libs) (rg_name libs) fs = (fs1, rd)" by force
  obtain fs2 r2 where 2: "validate_layout (rg_root libs) (rg_name libs) fs1 = (fs2, r2)" by force
  obtain fs3 r3 where 3: "require_data (rg_root libs) (rg_name libs) fs2 = (fs3, r3)" by force
  have k1: "kept_entry q x fs1" using ws_read_same[OF 1] assms(1) by simp
  note k2 = kept_run[OF kept_validate_layout k1 2]
  note k3 = kept_run[OF kept_require_data k2 3]
  show ?thesis using assms(2) k1 k2 k3
    by (auto simp: restore_files_def Let_def 1 2 3 split: outcome.splits if_splits)
qed

lemma restore_files_read: "restore_files libs og fs = (fs', calls) \<Longrightarrow>
    \<exists>fs1. ws_read (rg_workspace libs) (rg_root libs) (rg_name libs) fs = (fs1, rc_read calls)"
  by (auto simp: restore_files_def Let_def split: prod.splits outcome.splits if_splits)


section \<open>What opening a workspace finds\<close>

text \<open>The entry of a database whose file asks for a recovery after a migration.\<close>

lemma restore_entry_blocked:
  assumes "kept_entry (file_of libs) x fs" and "stands_for libs (Some x) d" and "migrating_record d"
    and "restore_entry libs og name entries fs = (fs', Ok entries')"
    and "\<And>st. map_of entries (rg_name libs) = Some st \<Longrightarrow> st_phase st = Recovery_required" and "bt_wf entries"
  shows "kept_entry (file_of libs) x fs' \<and> bt_wf entries'
    \<and> (\<forall>st. map_of entries' (rg_name libs) = Some st \<longrightarrow> st_phase st = Recovery_required)"
proof -
  obtain calls where r: "restore_files (named libs name) og fs = (fs', calls)"
      and e: "entries' = bt_insert name (open_database (rg_workspace libs) (rg_parse libs) (rg_root libs) name calls) entries"
    using assms(4) by (auto simp: restore_entry_def split: prod.splits)
  have "st_phase (open_database (rg_workspace libs) (rg_parse libs) (rg_root libs) name calls) = Recovery_required"
    if eq: "name = rg_name libs"
  proof -
    obtain fs1 where rd: "ws_read (rg_workspace libs) (rg_root libs) (rg_name libs) fs = (fs1, rc_read calls)"
      using restore_files_read[OF r] by (auto simp: named_def eq)
    have "reading calls d" by (rule read_reading[OF rd]) (use assms(1,2) in simp)
    then show ?thesis by (rule restart_blocked[OF assms(3)])
  qed
  then show ?thesis using assms(5,6) kept_restore_files[OF assms(1) r] bt.look_ins[OF assms(6)] bt.invar_ins[OF assms(6)]
    by (auto simp: e split: if_splits)
qed

lemma restore_entries_blocked:
  assumes "each_step (restore_entry libs og) names entries fs = (fs', Ok entries')"
    and "kept_entry (file_of libs) x fs" and "stands_for libs (Some x) d" and "migrating_record d" and "bt_wf entries"
    and "\<And>st. map_of entries (rg_name libs) = Some st \<Longrightarrow> st_phase st = Recovery_required"
    and "map_of entries' (rg_name libs) = Some st"
  shows "st_phase st = Recovery_required"
  using assms
proof (induction names arbitrary: entries fs)
  case (Cons name names)
  obtain fs1 entries1 where 1: "restore_entry libs og name entries fs = (fs1, Ok entries1)"
      and 2: "each_step (restore_entry libs og) names entries1 fs1 = (fs', Ok entries')"
    using Cons.prems(1) by (auto simp: seq_Ok)
  show ?case using restore_entry_blocked[OF Cons.prems(2,3,4) 1 Cons.prems(6,5)] Cons.IH[OF 2] Cons.prems by blast
qed (simp add: ret_def)

lemma task_Ok: "task r = Ok x \<longleftrightarrow> r = Ok x"
  by (cases r) (simp_all add: task_def)

lemma release_workspace_Ok:
  "attempt f (\<lambda>r. release_workspace root (map_ok (Pair c) r)) fs = (fs', Ok y) \<longleftrightarrow> (\<exists>x. f fs = (fs', Ok x) \<and> y = (c, x))"
proof -
  obtain fs1 r where "f fs = (fs1, r)" by force
  then show ?thesis by (cases r) (auto simp: attempt_def release_workspace_def task_def)
qed

lemma open_workspace_Ok:
  assumes "open_workspace libs og root fs = (fs', Ok (root', reg))"
  obtains fs1 fs2 names entries where "Workspace_open (rg_workspace libs) root fs = (fs1, Ok root')"
    "ws_names (rg_workspace libs) root' fs1 = (fs2, Ok names)"
    "each_step (restore_entry (libs\<lparr>rg_root := root'\<rparr>) og) names [] fs2 = (fs', Ok entries)"
    "reg = \<lparr>rs_entries = entries, rs_closed = False\<rparr>"
proof -
  have t: "attempt f (\<lambda>r. lift (task r)) w = (w', Ok x) \<longleftrightarrow> f w = (w', Ok x)" for f :: "(filesystem, 'z) action" and w w' x
    by (cases "f w") (auto simp: attempt_def lift_def task_Ok)
  show ?thesis using assms that
    by (auto simp: open_workspace_def open_entries_def seq_Ok release_workspace_Ok t ret_def)
qed

lemma open_workspace_blocked:
  assumes "open_workspace libs og root fs = (fs', Ok (rg_root libs, reg))" and "fs_now fs (file_of libs) = Some x"
    and "stands_for libs (Some x) d" and "migrating_record d" and "map_of (rs_entries reg) (rg_name libs) = Some st"
  shows "st_phase st = Recovery_required"
proof -
  obtain fs1 fs2 names entries where o: "Workspace_open (rg_workspace libs) root fs = (fs1, Ok (rg_root libs))"
    "ws_names (rg_workspace libs) (rg_root libs) fs1 = (fs2, Ok names)"
    "each_step (restore_entry (libs\<lparr>rg_root := rg_root libs\<rparr>) og) names [] fs2 = (fs', Ok entries)"
    "reg = \<lparr>rs_entries = entries, rs_closed = False\<rparr>"
    by (rule open_workspace_Ok[OF assms(1)])
  have "kept_entry (file_of libs) x fs2" by (rule kept_run[OF kept_ws_names kept_run[OF kept_Workspace_open assms(2) o(1)] o(2)])
  then show ?thesis using restore_entries_blocked[OF _ _ assms(3,4)] o(3,4) assms(5) bt.invar_empty by fastforce
qed

text \<open>The registry that opening makes is that of a server that starts.\<close>

lemma restore_entries_initial:
  assumes "each_step (restore_entry libs og) names entries fs = (fs', Ok entries')"
    and "entries = map (\<lambda>(n, s). (n, sy_db s)) systems" and "bt_wf systems" and "list_all (\<lambda>(n, s). initial (named libs n) s) systems"
  shows "\<exists>systems. entries' = map (\<lambda>(n, s). (n, sy_db s)) systems \<and> bt_wf systems \<and> list_all (\<lambda>(n, s). initial (named libs n) s) systems"
  using assms
proof (induction names arbitrary: entries fs systems)
  case (Cons name names)
  obtain fs1 entries1 where 1: "restore_entry libs og name entries fs = (fs1, Ok entries1)"
      and 2: "each_step (restore_entry libs og) names entries1 fs1 = (fs', Ok entries')"
    using Cons.prems(1) by (auto simp: seq_Ok)
  then obtain calls where e: "entries1 = bt_insert name (open_database (rg_workspace libs) (rg_parse libs) (rg_root libs) name calls) entries"
    by (auto simp: restore_entry_def split: prod.splits)
  obtain rec where r: "reading calls (Some rec)" by (cases "rc_read calls") (auto simp: reading_def)
  let ?s = "started (named libs name) calls (Some rec)" and ?systems = "bt_insert name (started (named libs name) calls (Some rec)) systems"
  have "initial (named libs name) ?s" unfolding initial_def using r by blast
  then have "list_all (\<lambda>(n, s). initial (named libs n) s) ?systems"
    using Cons.prems(4) set_bt_insert_subset[of name ?s systems] by (auto simp: list_all_iff)
  moreover have "entries1 = map (\<lambda>(n, s). (n, sy_db s)) ?systems"
    unfolding e Cons.prems(2) bt_insert_map by (simp add: started_def named_def)
  ultimately show ?case using Cons.IH[OF 2, of ?systems] bt.invar_ins[OF Cons.prems(3)] by blast
qed (auto simp: ret_def)


section \<open>Properties\<close>

text \<open> C13: If the process dies while migrations are compared again, applied or unblocked, and another process opens
  the workspace that the crash has left, however the calls of opening end: when it has a registry, the
  database either asks for recovery in it or has no entry, and no request to it is admitted.\<close>

theorem restart_refuses_migrating:
  assumes "toml_law (rg_workspace libs)" and "machine_reachable libs m"
    and "sy_job (ma_system m) = Publishing_at l pb" and "l \<in> {At_recheck, At_apply, At_applying, At_unblock}"
    and "crash libs (ma_files m) fs" and "open_workspace libs og root fs = (fs', Ok (rg_root libs, reg))"
  shows "Registry_admit (rg_name libs) meth segs reg
      = (reg, Err (if map_of (rs_entries reg) (rg_name libs) = None then database_not_found else unavailable))
    \<and> (\<forall>st. map_of (rs_entries reg) (rg_name libs) = Some st \<longrightarrow> st_phase st = Recovery_required)"
proof -
  note inv = machine_reachable_inv[OF assms(1,2)]
  obtain d where d: "d \<in> sy_disk (ma_system m)" "stands_for libs (fs_now fs (file_of libs)) d" by (rule crash_covered[OF inv assms(5)])
  have migrating: "migrating_record d"
    using blocked_state(3)[OF reachable_system_inv assms(3)] inv assms(4) d(1) by (auto simp: machine_inv_def blocked_labels_def)
  obtain rec where "d = Some rec" using migrating by (auto simp: migrating_record_iff)
  then obtain x where x: "fs_now fs (file_of libs) = Some x" using d(2) stands_for_present by blast
  note phase = open_workspace_blocked[OF assms(6) x d(2)[unfolded x] migrating]
  have "\<not> rs_closed reg" by (rule open_workspace_Ok[OF assms(6)]) simp
  show ?thesis
  proof (cases "map_of (rs_entries reg) (rg_name libs)")
    case None
    then show ?thesis using \<open>\<not> rs_closed reg\<close> by (simp add: Registry_admit_def on_database_def registry_database_def check_open_def)
  next
    case (Some st)
    have "admit (rs_closed reg) st meth segs = Err unavailable"
      using admit_closed_phase[of st "rs_closed reg" meth segs] phase[OF Some] \<open>\<not> rs_closed reg\<close> by simp
    then show ?thesis using Some phase[OF Some] \<open>\<not> rs_closed reg\<close>
      by (simp add: Registry_admit_def on_database_def registry_database_def check_open_def)
  qed
qed

text \<open> C14: From the command line to the exit: a program that has started serves the databases it has restored from
  the workspace, in a server that has just begun; and when its process exits with success, every database has
  drained: no operation, no request, no worker is left and its resources are dropped.\<close>

theorem program_drains:
  assumes "start_program libs og handler listen local workspace data management fs = (fs', Ok (reg, li))"
  shows "\<exists>root sv. server_initial (libs\<lparr>rg_root := root\<rparr>) sv \<and> registry_of sv = reg \<and> program_exit sv = None
    \<and> listen data = Some (li_data li) \<and> listen management = Some (li_management li)
    \<and> (\<forall>sv' n s. (server_step (libs\<lparr>rg_root := root\<rparr>))\<^sup>*\<^sup>* sv sv' \<longrightarrow> program_exit sv' = Some 0 \<longrightarrow> map_of (sv_systems sv') n = Some s
        \<longrightarrow> sy_job s = Idle \<and> sy_lifetimes s = 0 \<and> st_current (sy_db s) = None \<and> st_phase (sy_db s) = Unregistered
          \<and> st_resources (sy_db s) = None)"
proof -
  obtain root fs1 fs2 where o: "open_workspace libs og workspace fs = (fs1, Ok (root, reg))"
      and b: "bind listen local data management = Ok li"
    using assms by (auto simp: start_program_def seq_Ok release_workspace_Ok lift_def split: if_splits)
  let ?libs = "libs\<lparr>rg_root := root\<rparr>"
  obtain fs3 names entries where e: "each_step (restore_entry ?libs og) names [] fs3 = (fs1, Ok entries)"
      "reg = \<lparr>rs_entries = entries, rs_closed = False\<rparr>"
    by (rule open_workspace_Ok[OF o]) blast
  obtain systems where s: "entries = map (\<lambda>(n, s). (n, sy_db s)) systems" "bt_wf systems"
      "list_all (\<lambda>(n, s). initial (named ?libs n) s) systems"
    using restore_entries_initial[OF e(1), of "[]"] bt.invar_empty by auto
  let ?sv = "serve_start systems"
  have i: "server_initial ?libs ?sv" unfolding server_initial_def using s(2,3) by blast
  have r: "registry_of ?sv = reg" using e(2) s(1) by (simp add: registry_of_def serve_start_def)
  have l: "listen data = Some (li_data li)" "listen management = Some (li_management li)"
    using b by (auto simp: bind_def from_listeners_def outcome_simps)
  have drained: "sy_job s = Idle \<and> sy_lifetimes s = 0 \<and> st_current (sy_db s) = None \<and> st_phase (sy_db s) = Unregistered
      \<and> st_resources (sy_db s) = None"
    if steps: "(server_step ?libs)\<^sup>*\<^sup>* ?sv sv'" and x: "program_exit sv' = Some 0" and n: "map_of (sv_systems sv') n = Some s" for sv' n s
  proof -
    have "server_reachable ?libs sv'" unfolding server_reachable_def using i steps by blast
    moreover have "sv_at sv' = Returned (Ok ())"
      using x by (auto simp: program_exit_def exit_code_def split: serve_label.splits outcome.splits)
    ultimately show ?thesis using returned_drained[OF _ _ n] by blast
  qed
  show ?thesis using i r l drained
    by (intro exI[of _ root] exI[of _ ?sv]) (simp add: program_exit_def serve_start_def)
qed


section \<open>Witnesses\<close>

text \<open>The workspace that a crash has left while the first migration was applied.\<close>

definition left_fs :: filesystem where
  "left_fs = \<lparr>fs_nodes = [([''databases'', ''app'', ''database.toml''], FFile ''migration'' True), ([''databases''], FDir),
       ([''databases'', ''app''], FDir), ([], FDir)],
     fs_possible = (\<lambda>p. if p = [''databases'', ''app'', ''database.toml''] then {Some (FFile ''migration'' True)} else {None}),
     fs_locked = {}, fs_calls = 0, fs_fail = (\<lambda>_. None)\<rparr>"

definition left_env :: "unit restore_env" where
  "left_env = \<lparr>og_resources = (\<lambda>_. Ok ()), og_snapshot = (\<lambda>_. Ok pub_snapshot)\<rparr>"

lemma left_crash:
  assumes "fs_now fs (file_of pub_libs) = Some (FFile ''migration'' True)"
  shows "crash pub_libs fs left_fs"
  using assms by (simp add: crash_def nodes_def pub_paths left_fs_def fs_now_def)

definition left_nodes :: "(path \<times> fnode) list" where
  "left_nodes = ([''.sqlrest.lock''], FFile [] False) # fs_nodes left_fs"

lemma left_workspace:
  "\<exists>fs. Workspace_open ws_libs [] left_fs = (fs, Ok []) \<and> fs_fail fs = (\<lambda>_. None) \<and> fs_nodes fs = left_nodes"
  by (simp add: Workspace_open_def seq_def attempt_def ret_def io_def fs_call_def op_try_exists_def op_create_dir_all_def
      reject_symlink_def op_symlink_metadata_def op_open_lock_def try_lock_def lock_path_def databases_def make_directory_def
      sync_directory_def op_sync_directory_def left_fs_def left_nodes_def fs_now_def set_entry_def ws_libs_def Let_def)

lemma left_names:
  assumes "fs_fail fs = (\<lambda>_. None)" and "fs_nodes fs = left_nodes"
  shows "snd (ws_names ws_libs [] fs) = Ok [''app'']"
  using assms
  by (simp add: ws_names_def seq_def ret_def io_def fs_call_def op_read_dir_def name_step_def op_symlink_metadata_def databases_def
      ws_directory_def config_path_def left_nodes_def left_fs_def fs_now_def ws_libs_def Let_def)

lemma left_opens:
  "\<exists>fs reg. open_workspace pub_libs left_env [] left_fs = (fs, Ok ([], reg)) \<and> map_of (rs_entries reg) ''app'' \<noteq> None"
proof -
  obtain fs1 where 1: "Workspace_open ws_libs [] left_fs = (fs1, Ok [])" "fs_fail fs1 = (\<lambda>_. None)" "fs_nodes fs1 = left_nodes"
    using left_workspace by blast
  obtain fs2 where 2: "ws_names ws_libs [] fs1 = (fs2, Ok [''app''])" using left_names[OF 1(2,3)] by (metis prod.collapse)
  have l: "pub_libs\<lparr>rg_root := []\<rparr> = pub_libs" "rg_workspace pub_libs = ws_libs" "rg_root pub_libs = []" by (simp_all add: pub_libs_def)
  obtain fs3 calls where 3: "restore_files (named pub_libs ''app'') left_env fs2 = (fs3, calls)" by force
  show ?thesis
    by (simp add: open_workspace_def open_entries_def seq_def attempt_def lift_def ret_def l 1 2 3 restore_entry_def
        release_workspace_def task_def)
qed

theorem restart_refuses_migrating_witness:
  "\<exists>fs reg. snd (open_workspace pub_libs left_env [] left_fs) = Ok ([], reg) \<and> machine_at 17 fs \<and> crash pub_libs fs left_fs
     \<and> Registry_admit ''app'' ''GET'' [] reg = (reg, Err unavailable)"
proof -
  obtain fs where fs: "machine_at 17 fs" "fs_now fs (file_of pub_libs) = Some (FFile ''migration'' True)" using pub_machine_runs by blast
  obtain pb where job: "sy_job (pub_at 17) = Publishing_at At_applying pb" using pub_applying by blast
  obtain fs' reg where o: "open_workspace pub_libs left_env [] left_fs = (fs', Ok ([], reg))" "map_of (rs_entries reg) ''app'' \<noteq> None"
    using left_opens by blast
  have j: "sy_job (ma_system \<lparr>ma_system = pub_at 17, ma_files = fs\<rparr>) = Publishing_at At_applying pb" using job by simp
  have c: "crash pub_libs (ma_files \<lparr>ma_system = pub_at 17, ma_files = fs\<rparr>) left_fs" using left_crash[OF fs(2)] by simp
  have r: "open_workspace pub_libs left_env [] left_fs = (fs', Ok (rg_root pub_libs, reg))" "rg_name pub_libs = ''app''"
    using o(1) by (simp_all add: pub_libs_def)
  from restart_refuses_migrating[OF toml_pub fs(1) j _ c r(1), of "''GET''" "[]"] o c fs(1) show ?thesis by (auto simp: r(2))
qed

theorem program_drains_witness:
  "\<exists>root (sv :: unit server) fs li. start_program pub_libs left_env True Some Some [] (80 :: nat) 81 left_fs = (fs, Ok (registry_of sv, li))
     \<and> server_initial (pub_libs\<lparr>rg_root := root\<rparr>) sv \<and> program_exit sv = None"
proof -
  obtain fs' reg where o: "open_workspace pub_libs left_env [] left_fs = (fs', Ok ([], reg))" using left_opens by blast
  have s: "start_program pub_libs left_env True Some Some [] (80 :: nat) 81 left_fs
      = (fs', Ok (reg, \<lparr>li_data = 80, li_management = 81, li_data_address = 80, li_management_address = 81\<rparr>))"
    by (simp add: start_program_def seq_def lift_def o attempt_def bind_def from_listeners_def release_workspace_def)
  from program_drains[OF s] s show ?thesis by blast
qed
end
