(* ===== verification/Spec2Isabelle.thy ===== *)
theory Spec2Isabelle
  imports Program
begin

text \<open>
  A verification development for SQLRest, a service that turns directories of typed SQL files into
  database-backed HTTP interfaces.

  \<^bold>\<open>The program.\<close> A \<^emph>\<open>workspace\<close> holds one directory per registered database. Publishing a database
  (\<^verbatim>\<open>src/registry.rs\<close>) applies its pending migrations (\<^verbatim>\<open>src/migration.rs\<close>) and loads its interface tree
  (\<^verbatim>\<open>src/loader.rs\<close>): every SQL file is compiled (\<^verbatim>\<open>src/sql.rs\<close>, \<^verbatim>\<open>src/params.rs\<close>) and, when it returns rows, gets
  a response contract from its record schema (\<^verbatim>\<open>src/response.rs\<close>, \<^verbatim>\<open>src/schema.rs\<close>). A data request
  (\<^verbatim>\<open>src/http.rs\<close>) is admitted by the registry, resolved against the loaded snapshot, and executed as one
  transaction by a driver (\<^verbatim>\<open>src/execution.rs\<close>, \<^verbatim>\<open>src/turso_driver.rs\<close>, \<^verbatim>\<open>src/postgres_driver.rs\<close>). What must
  survive a restart is kept by \<^verbatim>\<open>src/workspace.rs\<close>.

  \<^bold>\<open>The theories\<close>, in the order in which they import each other:

  \<^item> \<open>Prelude\<close>: outcomes (\<open>Ok\<close>, \<open>Err\<close>, \<open>Panic\<close>: a panic is a value, so its absence can be proved), byte strings,
    ordered maps, and the locales \<open>ordered_map\<close>, \<open>codec\<close>, \<open>canonical_codec\<close> and \<open>invariant_system\<close>.
  \<^item> \<open>Sqlrest_Error\<close>, \<open>Json\<close>: \<^verbatim>\<open>error.rs\<close>, JSON values and the duplicate-rejecting visitor of \<^verbatim>\<open>params.rs\<close>.
  \<^item> \<open>Params\<close>: types, parameters, their texts, reading a request, conflicts between references. Types and
    parameters are canonical codecs: parsing accepts exactly the printed texts.
  \<^item> \<open>Sql\<close>: the scanner, reference rewriting and classification; compiled statements bind the parameters of
    their references in order and only transactional statements are compiled.
  \<^item> \<open>Schema\<close>: walking and normalizing a JSON schema; the depth-first search is proved equal to acyclicity of
    the reference graph, and the type sets and property sets sound for a reference semantics of validation.
  \<^item> \<open>Response\<close>: contracts and the decoding of driver cells into records, with its round trip.
  \<^item> \<open>Loader\<close>: snapshots, routes, the digest, the OpenAPI document, and resolution, which is proved to answer
    404, 405 or an endpoint that static segments win.
  \<^item> \<open>Execution\<close>: actions (a world to a world and an outcome), a calculus of triples, deadline and cancellation
    as an environment observed at numbered points, reading all input before any SQL, encoding.
  \<^item> \<open>Turso\<close>, \<open>Postgres\<close>: one request as one transaction. The drivers are records of calls; the laws assumed of
    them (\<open>step_law\<close>, \<open>quiet_law\<close>, \<open>pg_law\<close>) say what a BEGIN, a statement, a COMMIT and a ROLLBACK do to the
    durable and the staged state, and nothing about the program. \<open>Postgres\<close> also has \<open>Executor\<close>.
  \<^item> \<open>Migration\<close>: file names, plans, the comparison with the recorded history, the migrator.
  \<^item> \<open>Workspace\<close>: every operation on a file system that may fail at any call and crash at any time.
  \<^item> \<open>Operation_Id\<close>: the text of an operation identifier, a canonical codec on 128-bit words.
  \<^item> \<open>Registry\<close>: the state of one registered database and what is done to it under its lock.
  \<^item> \<open>Publication\<close>, \<open>Publication_Safety\<close>: the workers of publications and unregistrations as a transition
    system between awaited calls, interleaved with requests, exports, shutdown, crashes and restarts; its
    invariant (an \<open>invariant_system\<close>), what it gives for ready, migrating and busy databases, and the progress
    of a worker.
  \<^item> \<open>Publication_Contract\<close>: what is served changes when a publication completes only; a publication that fails
    while its database is ready leaves the database alone, and one that has applied a migration serves again when it is complete.
  \<^item> \<open>Durability\<close>: the same workers on the files of \<open>Workspace\<close>, with failing calls and crashes at any moment. This
    machine refines \<open>Publication\<close>: whatever a crash leaves of a file stands for a record of \<open>sy_disk\<close>.
  \<^item> \<open>Registry_Api\<close>: the registry's map and calls, restoration, the shutdown worker, claims on database files.
  \<^item> \<open>Resources\<close>: opening a Turso file, whose loop ends exactly when some round does not ask for another completion,
    or connecting to PostgreSQL; a failed opening leaves no claim behind.
  \<^item> \<open>Http\<close>: routing and the life of a request, from the path to the response; a data request is atomic.
  \<^item> \<open>Server\<close>: binding, and \<open>serve\<close> with the databases, the shutdown worker and the HTTP tasks as a second
    \<open>invariant_system\<close>, whose databases take the steps of \<open>Publication\<close>; it returns without an error only when
    all have drained, and makes progress until then. The worker refines the rounds of \<open>Registry_Api\<close>.
  \<^item> \<open>Program\<close>: \<^verbatim>\<open>main.rs\<close>: a workspace is opened and restored from its files, the listeners are bound, the server
    serves and the process exits. A database that was migrating at a crash is not served by the next process.
  \<^item> This theory: publishing and polling over HTTP.

  \<^bold>\<open>Reading the model.\<close> A Rust string is the list of its UTF-8 bytes, a \<open>BTreeMap\<close> an association list with
  increasing keys, an \<open>i64\<close> or \<open>u128\<close> a word of its width, a \<open>Duration\<close> or an \<open>Instant\<close> a natural number of
  nanoseconds. A function that may fail returns an outcome; one with effects is an action on an explicit
  state. What is not in the repository is a field of a record of library calls (\<open>params_libs\<close>, \<open>loader_libs\<close>,
  \<open>request_libs\<close>, \<open>workspace_libs\<close>, \<open>migration_libs\<close>, \<open>registry_libs\<close>, \<open>http_libs\<close>): the SQL parser, YAML, TOML
  and JSON text codecs, SHA-256, percent decoding, the database drivers.

  \<^bold>\<open>Fuel and termination.\<close> Running out of fuel is always the outcome \<open>Panic\<close>, never a result, so a lemma
  that a function does not panic also shows that its fuel is enough. Fuel is used in three places.
  In \<open>Schema\<close> the traversals of a document (\<open>walk\<close>, given the depth of the document) and the expansion of
  references (\<open>types\<close> and \<open>collect\<close>, given \<open>expansion_fuel\<close>: the number of references times the depth of the document) have
  fuel; \<open>normalize_no_panic\<close>, \<open>schema_types_not_Panic\<close> and \<open>properties_not_Panic\<close> show it is always enough, the last two under the law of JSON pointers (\<open>pointer_law\<close>).
  In \<open>Operation_Id\<close> the digits are written into a buffer of 25 bytes (\<open>display_loop\<close>), which
  \<open>display_loop_eq\<close> shows to be enough for every identifier.
  In \<open>Turso\<close> and \<open>Postgres\<close> the loops that fetch rows and the rollback loop of a connection have fuel, since a
  driver may deliver rows for ever; a deadline that passes ends them, and \<open>turso_request_returns\<close> gives the bound
  after which fuel suffices. The loop that opens a Turso file is a partial function into \<open>option\<close> (\<open>turso_open_ends\<close>). Every other loop is structural or has a measure. A worker of the registry has a
  measure on its labels and the migrations left, so \<open>operation_ends\<close> needs no bound.

  \<^bold>\<open>Timing and interleaving.\<close> An environment decides at every awaited call whether the deadline or a cancellation
  wins and whether an abandoned call had reached the server; theorems hold for every environment. In
  \<open>Publication\<close> the outcome of every awaited call is arbitrary, the set of records that a crash may find on
  disk follows what \<open>Workspace\<close> proves about \<open>persist\<close> (\<open>Durability\<close> proves that it does), and any step of any other actor may come between two
  steps of a worker.

  \<^bold>\<open>Not modelled.\<close> The parsing of the arguments and the lines that \<^verbatim>\<open>src/main.rs\<close> writes, the module list of
  \<^verbatim>\<open>src/lib.rs\<close> (no logic), and how a signal is delivered: the shutdown may be asked for at any moment; accepting on sockets, and the spawning and waking of tasks (the
  runtime's): a woken loop is the step of its next round; what the drivers do inside a call; derived serializers, except those of errors and
  records that the program reads back; the log line that an error's diagnostic writes; tests, examples and
  scripts. Two calls on the registry are never run at the same instant: they hold its lock.
\<close>

section \<open>Publishing and polling over HTTP\<close>

lemma find_operation_id: "find_operation st i = Ok op \<Longrightarrow> op_id op = i"
  by (auto simp: find_operation_def outcome_simps find_Some_iff)

lemma poll_operation:
  assumes "rq_method req = ''GET''" and "OperationId_from_str text = Ok i"
    and "Registry_operation (hw_registry hw) name i = Ok op"
  shows "management_call fate fuel libs env henv req name [''operations'', text] query hw
    = (hw, json_response libs 200 (Operation_payload op))"
  using assms by (simp add: management_call_def Let_def)

text \<open> C32: What a client is told on publishing it can poll: an accepted publication is answered by 202 with an
  identifier, the text of that identifier parses back to it, and asking for the operation of that text answers
  200 with the running operation.\<close>

theorem publish_then_poll:
  assumes wf: "bt_wf (rs_entries (hw_registry hw))" and meths: "rq_method req = ''POST''" "rq_method poll = ''GET''"
    and publish: "management_call fate fuel libs env henv req name [''publish''] query hw = (hw', Ok resp)"
  shows "\<exists>i text op. hr_status resp = 202 \<and> hl_payload libs (Accepted_payload i) = Some (hr_body resp)
    \<and> OperationId_display i = Ok text \<and> op_id op = i \<and> op_outcome op = Running
    \<and> management_call fate fuel libs env henv poll name [''operations'', text] [] hw'
        = (hw', json_response libs 200 (Operation_payload op))"
proof -
  obtain config where "seq (on_registry (Registry_publish (hl_workspace libs) (he_fresh henv) name config))
      (\<lambda>i. lift (accepted libs i)) hw = (hw', Ok resp)"
    using publish meths(1)
    by (auto simp: management_call_def seq_def[of "lift _"] lift_def split: outcome.splits)
  then obtain reg i where p: "Registry_publish (hl_workspace libs) (he_fresh henv) name config (hw_registry hw) = (reg, Ok i)"
      and hw': "hw' = hw\<lparr>hw_registry := reg\<rparr>" and a: "accepted libs i = Ok resp"
    by (auto simp: seq_def on_registry_def lift_def split: prod.splits outcome.splits)
  obtain op where op: "Registry_operation reg name i = Ok op" "op_outcome op = Running"
    using registry_publish_cases[OF wf, of "hl_workspace libs" "he_fresh henv" name config] p by auto
  then have "op_id op = i" by (auto simp: Registry_operation_def outcome_simps dest: find_operation_id)
  moreover have "hr_status resp = 202" "hl_payload libs (Accepted_payload i) = Some (hr_body resp)"
    using a by (auto simp: accepted_def json_response_def bytes_response_def outcome_simps)
  moreover have "OperationId_from_str (operation_text i) = Ok i" using operation_codec.decode_encode by blast
  moreover have "Registry_operation (hw_registry hw') name i = Ok op" using op(1) hw' by simp
  ultimately show ?thesis using op(2) poll_operation[OF meths(2)] display_text[of i]
    by (intro exI[of _ i] exI[of _ "operation_text i"] exI[of _ op]) simp
qed

section \<open>Witness\<close>

definition web_libs :: http_libs where
  "web_libs = \<lparr>hl_payload = (\<lambda>_. Some ''{}''), hl_error = (\<lambda>_. Some ''{}''), hl_publish = (\<lambda>_. Some pub_request),
     hl_workspace = ws_libs, hl_params = counter_params_libs, hl_request = counter_libs, hl_migration = mig_libs\<rparr>"

definition publish_request_example :: http_request where
  "publish_request_example = \<lparr>rq_method = ''POST'', rq_path = ''/databases/app/publish'', rq_query = None,
     rq_content_type = Some ''application/json'', rq_body = Some ''{}''\<rparr>"

theorem publish_then_poll_witness:
  "\<exists>(hw' :: (counter_database, counter) http_world) i text op. management_call Queued 1 web_libs still_env web_env (publish_request_example\<lparr>rq_method := ''GET''\<rparr>)
      ''app'' [''operations'', text] [] hw' = (hw', json_response web_libs 200 (Operation_payload op))
    \<and> OperationId_display i = Ok text \<and> op_id op = i \<and> op_outcome op = Running"
proof -
  have "require_json (Some ''application/json'') = Ok ()" by code_simp
  then have c: "publish_config web_libs web_env publish_request_example = Ok pub_request"
    by (simp add: publish_config_def publish_request_example_def web_libs_def web_env_def stoppable_def spawned_def read_body_def)
  have v: "validate_name ''app'' = Ok ()" "PublishRequest_validate ws_libs pub_request = Ok ()"
    by (simp_all add: validate_name_def migration_name_char_def ascii_defs PublishRequest_validate_def pub_request_def pub_limits
        validate_database_def)
  have "\<exists>hw' resp. management_call Queued 1 web_libs still_env web_env publish_request_example ''app'' [''publish''] [] web_start = (hw', Ok resp)"
    using c v by (simp add: management_call_def publish_request_example_def seq_def lift_def on_registry_def Registry_publish_def
        web_libs_def check_open_def web_start_def web_state_def Database_new_def entry_or_insert_def accept_state_def pub_request_def
        accepted_def json_response_def)
  then obtain hw' resp where p: "management_call Queued 1 web_libs still_env web_env publish_request_example ''app'' [''publish''] [] web_start
      = (hw', Ok resp)" by blast
  have "bt_wf (rs_entries (hw_registry web_start))" by (simp add: web_start_def)
  moreover have "rq_method publish_request_example = ''POST''"
    "rq_method (publish_request_example\<lparr>rq_method := ''GET''\<rparr>) = ''GET''" by (simp_all add: publish_request_example_def)
  ultimately show ?thesis using publish_then_poll[OF _ _ _ p] by blast
qed

end
